theory Spec2Isabelle
  imports Complex_Main
begin

section \<open>Data model\<close>

text \<open>
  The generator of \<^verbatim>\<open>dungeon.tsx\<close> works on a grid of cells, a list of rooms and a
  graph over the room centers.  Grid coordinates are small JavaScript numbers that only
  ever hold integers; they are modelled as \<^typ>\<open>int\<close>.  Reading an array outside
  its range yields \<^verbatim>\<open>undefined\<close> in JavaScript, and reading a property of
  \<^verbatim>\<open>undefined\<close> throws a \<^verbatim>\<open>TypeError\<close>: such a throw is the value
  \<open>Inl TypeError\<close> of the model.
\<close>

datatype error = TypeError

datatype CellTypeEnum = CT_room | CT_corridor | CT_empty

record Cell =
  cell_x :: int
  cell_y :: int
  cell_type :: CellTypeEnum

record Room =
  room_x :: int
  room_y :: int
  room_width :: int
  room_height :: int
  room_center :: "int \<times> int"

type_synonym Grid = "Cell list list"

definition MIN_ROOM_SIZE_width :: int where "MIN_ROOM_SIZE_width = 3"
definition MIN_ROOM_SIZE_height :: int where "MIN_ROOM_SIZE_height = 3"
definition MAX_ROOM_SIZE_width :: int where "MAX_ROOM_SIZE_width = 7"
definition MAX_ROOM_SIZE_height :: int where "MAX_ROOM_SIZE_height = 7"
definition DUNGEON_SIZE_width :: int where "DUNGEON_SIZE_width = 30"
definition DUNGEON_SIZE_height :: int where "DUNGEON_SIZE_height = 30"
definition MAX_ROOMS :: nat where "MAX_ROOMS = 7"
definition EXTRA_EDGE_CHANCE :: real where "EXTRA_EDGE_CHANCE = 3 / 10"
definition ROOM_SEPARATION :: int where "ROOM_SEPARATION = 5"
definition ROOM_CORRIDOR_GAP :: int where "ROOM_CORRIDOR_GAP = 2"
definition CORRIDOR_CORRIDOR_GAP :: int where "CORRIDOR_CORRIDOR_GAP = 1"

section \<open>Grid and room placement\<close>

definition createEmptyDungeon :: "int \<Rightarrow> int \<Rightarrow> Grid" where
  "createEmptyDungeon width height =
     map (\<lambda>y. map (\<lambda>x. \<lparr>cell_x = x, cell_y = y, cell_type = CT_empty\<rparr>) [0..width - 1])
       [0..height - 1]"

text \<open>\<open>cellAt cells j i\<close> is the read \<^verbatim>\<open>cells[j][i]\<close>; \<open>None\<close> stands for
  \<^verbatim>\<open>undefined\<close> (or for the throw of indexing an undefined row).\<close>

definition cellAt :: "Grid \<Rightarrow> int \<Rightarrow> int \<Rightarrow> Cell option" where
  "cellAt cells j i =
     (if 0 \<le> j \<and> j < int (length cells) \<and> 0 \<le> i \<and> i < int (length (cells ! nat j))
      then Some (cells ! nat j ! nat i) else None)"

text \<open>The inner and the outer loop of \<^verbatim>\<open>isAreaEmpty\<close>, with the early
  \<^verbatim>\<open>return false\<close>.\<close>

fun isAreaEmpty_row :: "Grid \<Rightarrow> int \<Rightarrow> int list \<Rightarrow> error + bool" where
  "isAreaEmpty_row cells j [] = Inr True"
| "isAreaEmpty_row cells j (i # is) =
     (case cellAt cells j i of
        None \<Rightarrow> Inl TypeError
      | Some c \<Rightarrow> if cell_type c \<noteq> CT_empty then Inr False else isAreaEmpty_row cells j is)"

fun isAreaEmpty_rows :: "Grid \<Rightarrow> int list \<Rightarrow> int list \<Rightarrow> error + bool" where
  "isAreaEmpty_rows cells [] is = Inr True"
| "isAreaEmpty_rows cells (j # js) is =
     (case isAreaEmpty_row cells j is of
        Inl e \<Rightarrow> Inl e
      | Inr ok \<Rightarrow> if ok then isAreaEmpty_rows cells js is else Inr False)"

definition isAreaEmpty :: "Grid \<Rightarrow> int \<Rightarrow> int \<Rightarrow> int \<Rightarrow> int \<Rightarrow> error + bool" where
  "isAreaEmpty cells x y width height =
     (let maxY = int (length cells);
          maxX = (case cells of [] \<Rightarrow> 0 | row # _ \<Rightarrow> int (length row));
          startY = max 0 y;
          startX = max 0 x;
          endY = min maxY (y + height);
          endX = min maxX (x + width)
      in isAreaEmpty_rows cells [startY..endY - 1] [startX..endX - 1])"

text \<open>\<open>setType cells y x t\<close> is the write \<^verbatim>\<open>cells[y][x].type = t\<close>.\<close>

definition setType :: "Grid \<Rightarrow> int \<Rightarrow> int \<Rightarrow> CellTypeEnum \<Rightarrow> error + Grid" where
  "setType cells y x t =
     (case cellAt cells y x of
        None \<Rightarrow> Inl TypeError
      | Some c \<Rightarrow> Inr (cells[nat y := (cells ! nat y)[nat x := c\<lparr>cell_type := t\<rparr>]]))"

fun placeRoom_row :: "Grid \<Rightarrow> int \<Rightarrow> int list \<Rightarrow> error + Grid" where
  "placeRoom_row cells y [] = Inr cells"
| "placeRoom_row cells y (x # xs) =
     (case setType cells y x CT_room of
        Inl e \<Rightarrow> Inl e
      | Inr cells' \<Rightarrow> placeRoom_row cells' y xs)"

fun placeRoom_rows :: "Grid \<Rightarrow> int list \<Rightarrow> int list \<Rightarrow> error + Grid" where
  "placeRoom_rows cells [] xs = Inr cells"
| "placeRoom_rows cells (y # ys) xs =
     (case placeRoom_row cells y xs of
        Inl e \<Rightarrow> Inl e
      | Inr cells' \<Rightarrow> placeRoom_rows cells' ys xs)"

definition placeRoom :: "Grid \<Rightarrow> Room \<Rightarrow> error + Grid" where
  "placeRoom cells r =
     placeRoom_rows cells [room_y r..room_y r + room_height r - 1]
       [room_x r..room_x r + room_width r - 1]"

text \<open>
  The placement loop of \<^verbatim>\<open>createDungeon\<close>.  \<^verbatim>\<open>Math.random()\<close> is the sequence
  \<open>rnd\<close> with a read position \<open>k\<close>: each attempt draws four numbers, in the order
  width, height, x, y.
\<close>

definition newRoomAt :: "int \<Rightarrow> int \<Rightarrow> int \<Rightarrow> int \<Rightarrow> Room" where
  "newRoomAt roomX roomY innerWidth innerHeight =
     \<lparr>room_x = roomX, room_y = roomY, room_width = innerWidth, room_height = innerHeight,
      room_center = (\<lfloor>real_of_int roomX + real_of_int innerWidth / 2\<rfloor>,
                     \<lfloor>real_of_int roomY + real_of_int innerHeight / 2\<rfloor>)\<rparr>"

function placeLoop ::
  "(nat \<Rightarrow> real) \<Rightarrow> Grid \<Rightarrow> Room list \<Rightarrow> nat \<Rightarrow> nat \<Rightarrow> error + (Grid \<times> Room list \<times> nat)" where
  "placeLoop rnd cells rooms attempts k =
     (if length rooms < MAX_ROOMS \<and> attempts < MAX_ROOMS * 8 then
        (let innerWidth =
               \<lfloor>rnd k * real_of_int (MAX_ROOM_SIZE_width - MIN_ROOM_SIZE_width + 1)\<rfloor>
                 + MIN_ROOM_SIZE_width;
             innerHeight =
               \<lfloor>rnd (k + 1) * real_of_int (MAX_ROOM_SIZE_height - MIN_ROOM_SIZE_height + 1)\<rfloor>
                 + MIN_ROOM_SIZE_height;
             roomX = \<lfloor>rnd (k + 2) * real_of_int (DUNGEON_SIZE_width - innerWidth)\<rfloor>;
             roomY = \<lfloor>rnd (k + 3) * real_of_int (DUNGEON_SIZE_height - innerHeight)\<rfloor>;
             checkX = roomX - ROOM_SEPARATION;
             checkY = roomY - ROOM_SEPARATION;
             checkW = innerWidth + ROOM_SEPARATION * 2;
             checkH = innerHeight + ROOM_SEPARATION * 2
         in case isAreaEmpty cells checkX checkY checkW checkH of
              Inl e \<Rightarrow> Inl e
            | Inr ok \<Rightarrow>
                if ok then
                  (case placeRoom cells (newRoomAt roomX roomY innerWidth innerHeight) of
                     Inl e \<Rightarrow> Inl e
                   | Inr cells' \<Rightarrow>
                       placeLoop rnd cells'
                         (rooms @ [newRoomAt roomX roomY innerWidth innerHeight])
                         (attempts + 1) (k + 4))
                else placeLoop rnd cells rooms (attempts + 1) (k + 4))
      else Inr (cells, rooms, k))"
  by pat_completeness auto
termination
  by (relation "measure (\<lambda>(rnd, cells, rooms, attempts, k). MAX_ROOMS * 8 - attempts)") auto

definition placeRooms :: "(nat \<Rightarrow> real) \<Rightarrow> error + (Grid \<times> Room list \<times> nat)" where
  "placeRooms rnd =
     placeLoop rnd (createEmptyDungeon DUNGEON_SIZE_width DUNGEON_SIZE_height) [] 0 0"

section \<open>Graph over the room centers\<close>

text \<open>
  \<^verbatim>\<open>Point\<close>, \<^verbatim>\<open>Edge\<close>, \<^verbatim>\<open>Triangle\<close> and \<^verbatim>\<open>Graph\<close> of the
  triangulation module.  Coordinates of points are JavaScript numbers, modelled as reals;
  indices into the point list are natural numbers.
\<close>

record Point =
  pt_x :: real
  pt_y :: real

record Edge =
  edge_a :: nat
  edge_b :: nat

record Triangle =
  tri_a :: nat
  tri_b :: nat
  tri_c :: nat

record Graph =
  points :: "Point list"
  edges :: "Edge list"
  triangles :: "Triangle list option"

text \<open>The key \<^verbatim>\<open>`${a},${b}`\<close> of an unordered pair of indices (smaller index first) is
  modelled by the ordered pair itself: two such strings are equal exactly when the pairs
  are.\<close>

definition edgeKey :: "nat \<Rightarrow> nat \<Rightarrow> nat \<times> nat" where
  "edgeKey a b = (if a < b then (a, b) else (b, a))"

definition circumcircleContains :: "Point \<Rightarrow> Point \<Rightarrow> Point \<Rightarrow> Point \<Rightarrow> bool" where
  "circumcircleContains pA pB pC p =
     (let d = 2 * (pt_x pA * (pt_y pB - pt_y pC) + pt_x pB * (pt_y pC - pt_y pA)
                   + pt_x pC * (pt_y pA - pt_y pB))
      in if \<bar>d\<bar> < 1 / 10 ^ 12 then False
         else
           (let ux = ((pt_x pA * pt_x pA + pt_y pA * pt_y pA) * (pt_y pB - pt_y pC) +
                      (pt_x pB * pt_x pB + pt_y pB * pt_y pB) * (pt_y pC - pt_y pA) +
                      (pt_x pC * pt_x pC + pt_y pC * pt_y pC) * (pt_y pA - pt_y pB)) / d;
                uy = ((pt_x pA * pt_x pA + pt_y pA * pt_y pA) * (pt_x pC - pt_x pB) +
                      (pt_x pB * pt_x pB + pt_y pB * pt_y pB) * (pt_x pA - pt_x pC) +
                      (pt_x pC * pt_x pC + pt_y pC * pt_y pC) * (pt_x pB - pt_x pA)) / d;
                dx = ux - pt_x p;
                dy = uy - pt_y p;
                r2 = (ux - pt_x pA) * (ux - pt_x pA) + (uy - pt_y pA) * (uy - pt_y pA);
                dist2 = dx * dx + dy * dy
            in dist2 \<le> r2 + 1 / 10 ^ 8))"

text \<open>The bounding box loop of \<^verbatim>\<open>createGraphFromPoints\<close>: the state is
  \<open>(minX, minY, maxX, maxY)\<close>.\<close>

definition boundsStep :: "real \<times> real \<times> real \<times> real \<Rightarrow> Point \<Rightarrow> real \<times> real \<times> real \<times> real" where
  "boundsStep st p =
     (case st of (minX, minY, maxX, maxY) \<Rightarrow>
        (if pt_x p < minX then pt_x p else minX,
         if pt_y p < minY then pt_y p else minY,
         if pt_x p > maxX then pt_x p else maxX,
         if pt_y p > maxY then pt_y p else maxY))"

text \<open>
  A JavaScript \<^verbatim>\<open>Map\<close> keyed by edge keys is an association list in insertion order.
  \<open>toggleEdge\<close> is the body of the loop that collects the boundary of the bad triangles: an
  edge met a second time is deleted, a new one is appended.
\<close>

type_synonym EdgeMap = "((nat \<times> nat) \<times> Edge) list"

definition toggleEdge :: "EdgeMap \<Rightarrow> Edge \<Rightarrow> EdgeMap" where
  "toggleEdge edgeMap e =
     (let key = edgeKey (edge_a e) (edge_b e)
      in if key \<in> fst ` set edgeMap then filter (\<lambda>kv. fst kv \<noteq> key) edgeMap
         else edgeMap @ [(key, e)])"

definition triangleEdges :: "Triangle \<Rightarrow> Edge list" where
  "triangleEdges t =
     [\<lparr>edge_a = tri_a t, edge_b = tri_b t\<rparr>,
      \<lparr>edge_a = tri_b t, edge_b = tri_c t\<rparr>,
      \<lparr>edge_a = tri_c t, edge_b = tri_a t\<rparr>]"

text \<open>
  One insertion of Bowyer--Watson: the body of the loop over \<open>i\<close>.  Triangle indices are
  those the algorithm itself created (the loop index and the three super vertices), all
  below \<open>length pts\<close>.  \<^verbatim>\<open>bad.includes(t)\<close> compares object identities; triangles with
  equal vertices are bad together, so membership in the list of bad triangles removes the
  same ones.
\<close>

definition insertPoint :: "Point list \<Rightarrow> Triangle list \<Rightarrow> nat \<Rightarrow> Triangle list" where
  "insertPoint pts tris i =
     (let point = pts ! i;
          bad = filter (\<lambda>t. circumcircleContains (pts ! tri_a t) (pts ! tri_b t) (pts ! tri_c t) point) tris;
          edgeMap = fold (\<lambda>t m. fold (\<lambda>e m'. toggleEdge m' e) (triangleEdges t) m) bad [];
          kept = filter (\<lambda>t. t \<notin> set bad) tris
      in kept @ map (\<lambda>kv. \<lparr>tri_a = edge_a (snd kv), tri_b = edge_b (snd kv), tri_c = i\<rparr>) edgeMap)"

definition addEdgeOnce :: "EdgeMap \<Rightarrow> Edge \<Rightarrow> EdgeMap" where
  "addEdgeOnce edgeSet e =
     (let key = edgeKey (edge_a e) (edge_b e)
      in if key \<notin> fst ` set edgeSet then edgeSet @ [(key, e)] else edgeSet)"

definition createGraphFromPoints :: "Point list \<Rightarrow> Graph" where
  "createGraphFromPoints pnts =
     (if length pnts = 0 then \<lparr>points = [], edges = [], triangles = None\<rparr>
      else
        (case fold (\<lambda>p st. boundsStep st p) pnts
                (pt_x (pnts ! 0), pt_y (pnts ! 0), pt_x (pnts ! 0), pt_y (pnts ! 0)) of
           (minX, minY, maxX, maxY) \<Rightarrow>
             (let dx = maxX - minX;
                  dy = maxY - minY;
                  dmax = max dx dy;
                  midx = (minX + maxX) / 2;
                  midy = (minY + maxY) / 2;
                  superA = \<lparr>pt_x = midx - 20 * dmax, pt_y = midy - dmax\<rparr>;
                  superB = \<lparr>pt_x = midx, pt_y = midy + 20 * dmax\<rparr>;
                  superC = \<lparr>pt_x = midx + 20 * dmax, pt_y = midy - dmax\<rparr>;
                  pts = pnts @ [superA, superB, superC];
                  superAIdx = length pts - 3;
                  superBIdx = length pts - 2;
                  superCIdx = length pts - 1;
                  tris0 = [\<lparr>tri_a = superAIdx, tri_b = superBIdx, tri_c = superCIdx\<rparr>];
                  tris1 = fold (\<lambda>i tris. insertPoint pts tris i) [0..<length pnts] tris0;
                  tris2 = filter (\<lambda>t. tri_a t < length pnts \<and> tri_b t < length pnts
                                        \<and> tri_c t < length pnts) tris1;
                  edgeSet = fold (\<lambda>t m. fold (\<lambda>e m'. addEdgeOnce m' e) (triangleEdges t) m) tris2 []
              in \<lparr>points = pnts, edges = map snd edgeSet, triangles = Some tris2\<rparr>)))"

section \<open>Minimum spanning tree (Prim)\<close>

text \<open>
  \<^verbatim>\<open>dist(a, b)\<close> inside \<^verbatim>\<open>primMST\<close> reads \<^verbatim>\<open>pts[a].x\<close>: an index outside the
  point list throws.  \<^verbatim>\<open>inMST[i]\<close> outside the array is \<^verbatim>\<open>undefined\<close>, which the
  tests treat as false.
\<close>

text \<open>
  The weights of \<^verbatim>\<open>primMST\<close> are JavaScript numbers: IEEE 754 binary64 values, with
  the two infinities and \<^verbatim>\<open>NaN\<close>.  Every arithmetic operation rounds its exact result to
  the nearest representable value (ties to the even significand) and overflows to an
  infinity.  The coordinates of a point are finite numbers, and \<open>Fin 0\<close> stands for both
  zeros, which no operation used here tells apart.
\<close>

datatype number = Fin real | PosInf | NegInf | NaN

definition round_even :: "real \<Rightarrow> int" where
  "round_even q =
     (let f = \<lfloor>q\<rfloor>
      in if q - of_int f < 1 / 2 then f
         else if q - of_int f > 1 / 2 then f + 1
         else if even f then f else f + 1)"

text \<open>Rounding to binary64: 53 significant bits, least exponent \<open>- 1022\<close> (below it the
  spacing stays \<open>2 powr - 1074\<close>), overflow from \<open>2 powr 1024\<close> on.\<close>

definition round64 :: "real \<Rightarrow> number" where
  "round64 x =
     (if x = 0 then Fin 0
      else
        (let e = max \<lfloor>log 2 \<bar>x\<bar>\<rfloor> (- 1022);
             u = 2 powr (of_int e - 52);
             r = u * of_int (round_even (x / u))
         in if \<bar>r\<bar> \<ge> 2 powr 1024 then (if x > 0 then PosInf else NegInf) else Fin r))"

fun num_neg :: "number \<Rightarrow> number" where
  "num_neg (Fin a) = Fin (- a)"
| "num_neg PosInf = NegInf"
| "num_neg NegInf = PosInf"
| "num_neg NaN = NaN"

fun num_add :: "number \<Rightarrow> number \<Rightarrow> number" where
  "num_add (Fin a) (Fin b) = round64 (a + b)"
| "num_add NaN y = NaN"
| "num_add x NaN = NaN"
| "num_add PosInf NegInf = NaN"
| "num_add NegInf PosInf = NaN"
| "num_add PosInf y = PosInf"
| "num_add NegInf y = NegInf"
| "num_add (Fin a) y = y"

definition num_sub :: "number \<Rightarrow> number \<Rightarrow> number" where
  "num_sub x y = num_add x (num_neg y)"

fun num_sign :: "number \<Rightarrow> int" where
  "num_sign (Fin a) = (if a < 0 then - 1 else if a = 0 then 0 else 1)"
| "num_sign PosInf = 1"
| "num_sign NegInf = - 1"
| "num_sign NaN = 0"

fun num_mul :: "number \<Rightarrow> number \<Rightarrow> number" where
  "num_mul (Fin a) (Fin b) = round64 (a * b)"
| "num_mul NaN y = NaN"
| "num_mul x NaN = NaN"
| "num_mul x y =
     (if num_sign x * num_sign y = 0 then NaN
      else if num_sign x * num_sign y > 0 then PosInf else NegInf)"

fun num_sqrt :: "number \<Rightarrow> number" where
  "num_sqrt (Fin a) = (if a < 0 then NaN else round64 (sqrt a))"
| "num_sqrt PosInf = PosInf"
| "num_sqrt NegInf = NaN"
| "num_sqrt NaN = NaN"

fun num_less :: "number \<Rightarrow> number \<Rightarrow> bool" where
  "num_less (Fin a) (Fin b) = (a < b)"
| "num_less NaN y = False"
| "num_less x NaN = False"
| "num_less x NegInf = False"
| "num_less PosInf y = False"
| "num_less x PosInf = True"
| "num_less NegInf y = True"

definition primMST_dist :: "Point list \<Rightarrow> nat \<Rightarrow> nat \<Rightarrow> error + number" where
  "primMST_dist pts a b =
     (if a < length pts \<and> b < length pts then
        (let dx = num_sub (Fin (pt_x (pts ! a))) (Fin (pt_x (pts ! b)));
             dy = num_sub (Fin (pt_y (pts ! a))) (Fin (pt_y (pts ! b)))
         in Inr (num_sqrt (num_add (num_mul dx dx) (num_mul dy dy))))
      else Inl TypeError)"

definition inAt :: "bool list \<Rightarrow> nat \<Rightarrow> bool" where
  "inAt inMST i \<longleftrightarrow> i < length inMST \<and> inMST ! i"

text \<open>The pair \<^verbatim>\<open>(bestEdge, bestWeight)\<close> is an option: \<open>None\<close> is
  \<^verbatim>\<open>(null, Infinity)\<close>.\<close>

definition lessBest :: "number \<Rightarrow> (Edge \<times> number) option \<Rightarrow> bool" where
  "lessBest w best =
     (case best of None \<Rightarrow> num_less w PosInf | Some (e, bestWeight) \<Rightarrow> num_less w bestWeight)"

fun scanEdges ::
  "Point list \<Rightarrow> bool list \<Rightarrow> Edge list \<Rightarrow> (Edge \<times> number) option
     \<Rightarrow> error + (Edge \<times> number) option" where
  "scanEdges pts inMST [] best = Inr best"
| "scanEdges pts inMST (e # es) best =
     (let aIn = inAt inMST (edge_a e);
          bIn = inAt inMST (edge_b e)
      in if (aIn \<and> \<not> bIn) \<or> (\<not> aIn \<and> bIn) then
           (case primMST_dist pts (edge_a e) (edge_b e) of
              Inl err \<Rightarrow> Inl err
            | Inr w \<Rightarrow>
                if lessBest w best then scanEdges pts inMST es (Some (e, w))
                else scanEdges pts inMST es best)
         else scanEdges pts inMST es best)"

text \<open>
  The fallback for a disconnected graph: two nested loops over the indices, both left as
  soon as \<^verbatim>\<open>found\<close> is set.  It is entered with \<^verbatim>\<open>bestWeight = Infinity\<close>, so the
  test \<^verbatim>\<open>w < bestWeight\<close> holds for the first pair it reaches whose distance is finite.
\<close>

fun fallbackSearch ::
  "Point list \<Rightarrow> bool list \<Rightarrow> (nat \<times> nat) list \<Rightarrow> error + (Edge \<times> number) option" where
  "fallbackSearch pts inMST [] = Inr None"
| "fallbackSearch pts inMST ((i, j) # ijs) =
     (if \<not> inAt inMST i then fallbackSearch pts inMST ijs
      else if inAt inMST j then fallbackSearch pts inMST ijs
      else
        (case primMST_dist pts i j of
           Inl err \<Rightarrow> Inl err
         | Inr w \<Rightarrow>
             if lessBest w None then Inr (Some (\<lparr>edge_a = i, edge_b = j\<rparr>, w))
             else fallbackSearch pts inMST ijs))"

definition pickEdge ::
  "Point list \<Rightarrow> Edge list \<Rightarrow> nat \<Rightarrow> bool list \<Rightarrow> error + (Edge \<times> number) option" where
  "pickEdge pts es n inMST =
     (case scanEdges pts inMST es None of
        Inl err \<Rightarrow> Inl err
      | Inr (Some best) \<Rightarrow> Inr (Some best)
      | Inr None \<Rightarrow> fallbackSearch pts inMST (List.product [0..<n] [0..<n]))"

function primLoop ::
  "Point list \<Rightarrow> Edge list \<Rightarrow> nat \<Rightarrow> bool list \<Rightarrow> Edge list \<Rightarrow> error + Edge list" where
  "primLoop pts es n inMST mstEdges =
     (if length mstEdges < n - 1 then
        (case pickEdge pts es n inMST of
           Inl err \<Rightarrow> Inl err
         | Inr None \<Rightarrow> Inr mstEdges
         | Inr (Some (bestEdge, bestWeight)) \<Rightarrow>
             primLoop pts es n (inMST[edge_a bestEdge := True, edge_b bestEdge := True])
               (mstEdges @ [bestEdge]))
      else Inr mstEdges)"
  by pat_completeness auto
termination
  by (relation "measure (\<lambda>(pts, es, n, inMST, mstEdges). n - 1 - length mstEdges)") auto

definition primMST :: "Graph \<Rightarrow> error + Graph" where
  "primMST graph =
     (let pts = points graph;
          es = edges graph;
          n = length pts
      in if n = 0 then Inr \<lparr>points = [], edges = [], triangles = None\<rparr>
         else if n = 1 then Inr \<lparr>points = [pts ! 0], edges = [], triangles = None\<rparr>
         else
           (case primLoop pts es n ((replicate n False)[0 := True]) [] of
              Inl err \<Rightarrow> Inl err
            | Inr mstEdges \<Rightarrow> Inr \<lparr>points = pts, edges = mstEdges, triangles = None\<rparr>))"

section \<open>Loop augmentation\<close>

definition keyEdge :: "nat \<Rightarrow> nat \<Rightarrow> nat \<times> nat" where
  "keyEdge a b = (if a < b then (a, b) else (b, a))"

definition MAX_ALLOWED_CONNECTIONS :: nat where "MAX_ALLOWED_CONNECTIONS = 2"

text \<open>\<^verbatim>\<open>adjacency[i]++\<close>; the indices are those of the triangulation and of the tree,
  which lie below the number of points.\<close>

definition increment :: "nat list \<Rightarrow> nat \<Rightarrow> nat list" where
  "increment adjacency i = adjacency[i := adjacency ! i + 1]"

definition countDegrees :: "nat \<Rightarrow> Edge list \<Rightarrow> nat list" where
  "countDegrees n mstEdges =
     fold (\<lambda>e adjacency. increment (increment adjacency (edge_a e)) (edge_b e)) mstEdges
       (replicate n 0)"

text \<open>The loop over \<^verbatim>\<open>roomGraph.edges\<close>.  An edge of the tree is skipped before the
  random number is drawn; every other edge draws one.\<close>

fun addExtraEdges ::
  "(nat \<Rightarrow> real) \<Rightarrow> (nat \<times> nat) list \<Rightarrow> Edge list \<Rightarrow> nat list \<Rightarrow> Edge list \<Rightarrow> nat
     \<Rightarrow> Edge list \<times> nat list \<times> nat" where
  "addExtraEdges rnd mstSet [] adjacency finalEdges k = (finalEdges, adjacency, k)"
| "addExtraEdges rnd mstSet (e # es) adjacency finalEdges k =
     (if keyEdge (edge_a e) (edge_b e) \<in> set mstSet then
        addExtraEdges rnd mstSet es adjacency finalEdges k
      else if rnd k > EXTRA_EDGE_CHANCE then
        addExtraEdges rnd mstSet es adjacency finalEdges (k + 1)
      else
        (let degA = adjacency ! edge_a e;
             degB = adjacency ! edge_b e
         in if degA > MAX_ALLOWED_CONNECTIONS then
              addExtraEdges rnd mstSet es adjacency finalEdges (k + 1)
            else if degB > MAX_ALLOWED_CONNECTIONS then
              addExtraEdges rnd mstSet es adjacency finalEdges (k + 1)
            else
              addExtraEdges rnd mstSet es
                (increment (increment adjacency (edge_a e)) (edge_b e))
                (finalEdges @ [e]) (k + 1)))"

definition augment :: "(nat \<Rightarrow> real) \<Rightarrow> nat \<Rightarrow> Edge list \<Rightarrow> Edge list \<Rightarrow> nat \<Rightarrow> Edge list \<times> nat list \<times> nat" where
  "augment rnd n mstEdges graphEdges k =
     addExtraEdges rnd (map (\<lambda>e. keyEdge (edge_a e) (edge_b e)) mstEdges) graphEdges
       (countDegrees n mstEdges) mstEdges k"

section \<open>Corridor router\<close>

text \<open>
  The router is a family of closures inside \<^verbatim>\<open>createDungeon\<close>; the variables they
  capture (\<^verbatim>\<open>cells\<close>, \<^verbatim>\<open>rooms\<close>, \<^verbatim>\<open>points\<close>, \<^verbatim>\<open>cols\<close>, \<^verbatim>\<open>rows\<close>) are
  parameters here.  A grid position \<^verbatim>\<open>{x, y}\<close> is the pair \<open>(x, y)\<close>.  A result of type
  \<open>(error + 'a) option\<close> is \<open>None\<close> when a loop of the source would never end.
\<close>

type_synonym Pos = "int \<times> int"

definition gridCols :: "Grid \<Rightarrow> int" where
  "gridCols cells = (case cells of [] \<Rightarrow> 0 | row # _ \<Rightarrow> int (length row))"

definition gridRows :: "Grid \<Rightarrow> int" where
  "gridRows cells = int (length cells)"

definition nthOpt :: "'a list \<Rightarrow> nat \<Rightarrow> 'a option" where
  "nthOpt xs i = (if i < length xs then Some (xs ! i) else None)"

fun roomIndexAt_from :: "Room list \<Rightarrow> int \<Rightarrow> int \<Rightarrow> int \<Rightarrow> int" where
  "roomIndexAt_from [] i x y = - 1"
| "roomIndexAt_from (r # rs) i x y =
     (if x \<ge> room_x r \<and> x < room_x r + room_width r \<and> y \<ge> room_y r \<and> y < room_y r + room_height r
      then i else roomIndexAt_from rs (i + 1) x y)"

definition roomIndexAt :: "Room list \<Rightarrow> int \<Rightarrow> int \<Rightarrow> int" where
  "roomIndexAt rooms x y = roomIndexAt_from rooms 0 x y"

text \<open>\<^verbatim>\<open>distToRoom\<close> is only called with the index of a room of the list.\<close>

definition distToRoom :: "Room list \<Rightarrow> nat \<Rightarrow> int \<Rightarrow> int \<Rightarrow> int" where
  "distToRoom rooms roomIdx px py =
     (let r = rooms ! roomIdx;
          rx1 = room_x r;
          ry1 = room_y r;
          rx2 = room_x r + room_width r - 1;
          ry2 = room_y r + room_height r - 1;
          dx = (if px < rx1 then rx1 - px else if px > rx2 then px - rx2 else 0);
          dy = (if py < ry1 then ry1 - py else if py > ry2 then py - ry2 else 0)
      in max dx dy)"

text \<open>
  The \<^verbatim>\<open>while\<close> loop of \<^verbatim>\<open>exitCellFromCenter\<close>: \<open>Some (Some p)\<close> when it returns the
  cell \<open>p\<close>, \<open>Some None\<close> when it leaves the grid, \<open>None\<close> when it runs forever (a step of
  zero inside the room).
\<close>

partial_function (option) exitWalk ::
  "Room list \<Rightarrow> int \<Rightarrow> int \<Rightarrow> nat \<Rightarrow> bool \<Rightarrow> int \<Rightarrow> int \<Rightarrow> int \<Rightarrow> int \<Rightarrow> Pos option option" where
  "exitWalk rooms cols rows roomIdx primaryX stepX stepY x y =
     (if x \<ge> 0 \<and> x < cols \<and> y \<ge> 0 \<and> y < rows then
        (if roomIndexAt rooms x y \<noteq> int roomIdx then Some (Some (x, y))
         else if primaryX then exitWalk rooms cols rows roomIdx primaryX stepX stepY (x + stepX) y
         else exitWalk rooms cols rows roomIdx primaryX stepX stepY x (y + stepY))
      else Some None)"

declare exitWalk.simps [code]

fun perimeterScan :: "Room list \<Rightarrow> int \<Rightarrow> int \<Rightarrow> (int \<times> int) list \<Rightarrow> Pos option" where
  "perimeterScan rooms cols rows [] = None"
| "perimeterScan rooms cols rows ((oy, ox) # rest) =
     (if ox < 0 \<or> oy < 0 \<or> ox \<ge> cols \<or> oy \<ge> rows then perimeterScan rooms cols rows rest
      else if roomIndexAt rooms ox oy = - 1 then Some (ox, oy)
      else perimeterScan rooms cols rows rest)"

text \<open>The room \<^verbatim>\<open>rooms[roomIdx]\<close> and the target \<^verbatim>\<open>points[...]\<close> may be
  \<^verbatim>\<open>undefined\<close>; reading their fields then throws.  The center of a room holds integers,
  on which \<^verbatim>\<open>Math.floor\<close> is the identity.\<close>

definition exitCellFromCenter ::
  "Room list \<Rightarrow> int \<Rightarrow> int \<Rightarrow> nat \<Rightarrow> Point option \<Rightarrow> (error + Pos) option" where
  "exitCellFromCenter rooms cols rows roomIdx target =
     (case nthOpt rooms roomIdx of
        None \<Rightarrow> Some (Inl TypeError)
      | Some r \<Rightarrow>
          (case target of
             None \<Rightarrow> Some (Inl TypeError)
           | Some tgt \<Rightarrow>
               (let cx = fst (room_center r);
                    cy = snd (room_center r);
                    dx = pt_x tgt - real_of_int cx;
                    dy = pt_y tgt - real_of_int cy;
                    stepX = (if dx = 0 then 0 else if dx > 0 then 1 else - 1);
                    stepY = (if dy = 0 then 0 else if dy > 0 then 1 else - 1);
                    primaryX = (\<bar>dx\<bar> \<ge> \<bar>dy\<bar>)
                in case exitWalk rooms cols rows roomIdx primaryX stepX stepY cx cy of
                     None \<Rightarrow> None
                   | Some (Some p) \<Rightarrow> Some (Inr p)
                   | Some None \<Rightarrow>
                       (case perimeterScan rooms cols rows
                               (List.product [room_y r - 1..room_y r + room_height r]
                                  [room_x r - 1..room_x r + room_width r]) of
                          Some p \<Rightarrow> Some (Inr p)
                        | None \<Rightarrow> Some (Inr (cx, cy))))))"

definition clamp :: "int \<Rightarrow> int \<Rightarrow> int \<Rightarrow> int" where
  "clamp v lo hi = (if v < lo then lo else if v > hi then hi else v)"

text \<open>The loop of \<^verbatim>\<open>lineCells\<close> steps by the signs computed before it starts; \<open>None\<close>
  when it never reaches the target.\<close>

partial_function (option) lineCells_loop ::
  "int \<Rightarrow> int \<Rightarrow> int \<Rightarrow> int \<Rightarrow> int \<Rightarrow> int \<Rightarrow> Pos list \<Rightarrow> Pos list option" where
  "lineCells_loop x y x1 y1 dx dy out =
     (if x \<noteq> x1 \<or> y \<noteq> y1 then
        lineCells_loop (if x \<noteq> x1 then x + dx else x) (if y \<noteq> y1 then y + dy else y) x1 y1 dx dy
          (out @ [(if x \<noteq> x1 then x + dx else x, if y \<noteq> y1 then y + dy else y)])
      else Some out)"

declare lineCells_loop.simps [code]

definition lineCells :: "int \<Rightarrow> int \<Rightarrow> int \<Rightarrow> int \<Rightarrow> Pos list option" where
  "lineCells x0 y0 x1 y1 =
     (let dx = (if x1 = x0 then 0 else if x1 > x0 then 1 else - 1);
          dy = (if y1 = y0 then 0 else if y1 > y0 then 1 else - 1)
      in lineCells_loop x0 y0 x1 y1 dx dy [(x0, y0)])"

fun polylineToCells :: "Pos list \<Rightarrow> Pos list option" where
  "polylineToCells (a # b # rest) =
     (if fst a = fst b \<and> snd a = snd b then polylineToCells (b # rest)
      else
        (case lineCells (fst a) (snd a) (fst b) (snd b) of
           None \<Rightarrow> None
         | Some segment \<Rightarrow>
             (case polylineToCells (b # rest) of
                None \<Rightarrow> None
              | Some out \<Rightarrow> Some (segment @ out))))"
| "polylineToCells [a] = Some []"
| "polylineToCells [] = Some []"

fun cellTooCloseToRooms_from ::
  "Room list \<Rightarrow> nat list \<Rightarrow> Pos \<Rightarrow> nat \<Rightarrow> nat \<Rightarrow> bool \<Rightarrow> bool \<Rightarrow> bool" where
  "cellTooCloseToRooms_from rooms [] p srcRoom dstRoom isStart isEnd = False"
| "cellTooCloseToRooms_from rooms (i # is) p srcRoom dstRoom isStart isEnd =
     (let d = distToRoom rooms i (fst p) (snd p)
      in if d < ROOM_CORRIDOR_GAP then
           (if (i = srcRoom \<and> isStart) \<or> (i = dstRoom \<and> isEnd)
            then cellTooCloseToRooms_from rooms is p srcRoom dstRoom isStart isEnd
            else True)
         else cellTooCloseToRooms_from rooms is p srcRoom dstRoom isStart isEnd)"

definition cellTooCloseToRooms :: "Room list \<Rightarrow> Pos \<Rightarrow> nat \<Rightarrow> nat \<Rightarrow> Pos \<Rightarrow> Pos \<Rightarrow> bool" where
  "cellTooCloseToRooms rooms p srcRoom dstRoom startCell endCell =
     (let isStart = (fst p = fst startCell \<and> snd p = snd startCell);
          isEnd = (fst p = fst endCell \<and> snd p = snd endCell)
      in cellTooCloseToRooms_from rooms [0..<length rooms] p srcRoom dstRoom isStart isEnd)"

text \<open>\<open>isCorridor cells y x\<close> is the test
  \<^verbatim>\<open>cells[y][x].type === CellTypeEnum.corridor\<close>.\<close>

definition isCorridor :: "Grid \<Rightarrow> int \<Rightarrow> int \<Rightarrow> error + bool" where
  "isCorridor cells y x =
     (case cellAt cells y x of
        None \<Rightarrow> Inl TypeError
      | Some c \<Rightarrow> Inr (cell_type c = CT_corridor))"

fun neighbourScan :: "Grid \<Rightarrow> int \<Rightarrow> int \<Rightarrow> Pos \<Rightarrow> (int \<times> int) list \<Rightarrow> error + bool" where
  "neighbourScan cells cols rows p [] = Inr False"
| "neighbourScan cells cols rows p ((dy, dx) # rest) =
     (if dx = 0 \<and> dy = 0 then neighbourScan cells cols rows p rest
      else
        (let nx = fst p + dx;
             ny = snd p + dy
         in if ny < 0 \<or> ny \<ge> rows \<or> nx < 0 \<or> nx \<ge> cols then neighbourScan cells cols rows p rest
            else
              (case isCorridor cells ny nx of
                 Inl err \<Rightarrow> Inl err
               | Inr c \<Rightarrow>
                   if c \<and> max \<bar>dx\<bar> \<bar>dy\<bar> \<le> CORRIDOR_CORRIDOR_GAP then Inr True
                   else neighbourScan cells cols rows p rest)))"

definition corridorTooCloseToOthers :: "Grid \<Rightarrow> int \<Rightarrow> int \<Rightarrow> Pos \<Rightarrow> error + bool" where
  "corridorTooCloseToOthers cells cols rows p =
     (if snd p < 0 \<or> snd p \<ge> rows \<or> fst p < 0 \<or> fst p \<ge> cols then Inr True
      else
        (case isCorridor cells (snd p) (fst p) of
           Inl err \<Rightarrow> Inl err
         | Inr c \<Rightarrow>
             if c then Inr False
             else neighbourScan cells cols rows p (List.product [- 1..1] [- 1..1])))"

fun countWindow :: "Grid \<Rightarrow> Pos \<Rightarrow> (int \<times> int) list \<Rightarrow> nat \<Rightarrow> error + nat" where
  "countWindow cells c [] cnt = Inr cnt"
| "countWindow cells c ((yy, xx) # rest) cnt =
     (if xx = fst c \<and> yy = snd c then countWindow cells c rest (cnt + 1)
      else
        (case isCorridor cells yy xx of
           Inl err \<Rightarrow> Inl err
         | Inr b \<Rightarrow> countWindow cells c rest (if b then cnt + 1 else cnt)))"

fun windowScan :: "Grid \<Rightarrow> int \<Rightarrow> int \<Rightarrow> Pos \<Rightarrow> (int \<times> int) list \<Rightarrow> error + bool" where
  "windowScan cells cols rows c [] = Inr False"
| "windowScan cells cols rows c ((oy, ox) # rest) =
     (let sx = fst c + ox;
          sy = snd c + oy
      in if sx < 0 \<or> sy < 0 \<or> sx + 1 \<ge> cols \<or> sy + 1 \<ge> rows then windowScan cells cols rows c rest
         else
           (case countWindow cells c (List.product [sy..sy + 1] [sx..sx + 1]) 0 of
              Inl err \<Rightarrow> Inl err
            | Inr cnt \<Rightarrow> if cnt \<ge> 3 then Inr True else windowScan cells cols rows c rest))"

fun createsCorridorSquare :: "Grid \<Rightarrow> int \<Rightarrow> int \<Rightarrow> Pos list \<Rightarrow> error + bool" where
  "createsCorridorSquare cells cols rows [] = Inr False"
| "createsCorridorSquare cells cols rows (c # path) =
     (case windowScan cells cols rows c (List.product [- 1..0] [- 1..0]) of
        Inl err \<Rightarrow> Inl err
      | Inr b \<Rightarrow> if b then Inr True else createsCorridorSquare cells cols rows path)"

fun carveCells :: "Grid \<Rightarrow> int \<Rightarrow> int \<Rightarrow> Pos list \<Rightarrow> error + Grid" where
  "carveCells cells cols rows [] = Inr cells"
| "carveCells cells cols rows (p # path) =
     (if snd p < 0 \<or> snd p \<ge> rows \<or> fst p < 0 \<or> fst p \<ge> cols then carveCells cells cols rows path
      else
        (case cellAt cells (snd p) (fst p) of
           None \<Rightarrow> Inl TypeError
         | Some c \<Rightarrow>
             if cell_type c = CT_room then carveCells cells cols rows path
             else
               (case setType cells (snd p) (fst p) CT_corridor of
                  Inl err \<Rightarrow> Inl err
                | Inr cells' \<Rightarrow> carveCells cells' cols rows path)))"

text \<open>The key of a polyline (its points joined into a string) identifies the list of its
  points, so the deduplication keeps the first of equal lists.\<close>

definition uniquePolys :: "Pos list list \<Rightarrow> Pos list list" where
  "uniquePolys polys = fold (\<lambda>poly unique. if poly \<in> set unique then unique else unique @ [poly]) polys []"

definition candidatePolylines :: "int \<Rightarrow> int \<Rightarrow> Pos \<Rightarrow> Pos \<Rightarrow> Pos list list" where
  "candidatePolylines cols rows s e =
     (let straight = (if fst s = fst e \<or> snd s = snd e then [[s, e]] else []);
          ells = [[s, (fst e, snd s), e], [s, (fst s, snd e), e]];
          midX = \<lfloor>real_of_int (fst s + fst e) / 2\<rfloor>;
          midY = \<lfloor>real_of_int (snd s + snd e) / 2\<rfloor>;
          viaX = map (\<lambda>off. let px = clamp (midX + off) 0 (cols - 1)
                             in [s, (px, snd s), (px, snd e), e]) [- 2..2];
          viaY = map (\<lambda>off. let py = clamp (midY + off) 0 (rows - 1)
                             in [s, (fst s, py), (fst e, py), e]) [- 2..2]
      in filter (\<lambda>p. length p \<le> 4) (uniquePolys (straight @ ells @ viaX @ viaY)))"

text \<open>The validation loop of \<^verbatim>\<open>carveCorridorBetween\<close>; its result is the flag
  \<^verbatim>\<open>invalid\<close>.\<close>

fun validatePath ::
  "Grid \<Rightarrow> Room list \<Rightarrow> int \<Rightarrow> int \<Rightarrow> nat \<Rightarrow> nat \<Rightarrow> Pos \<Rightarrow> Pos \<Rightarrow> Pos list \<Rightarrow> error + bool" where
  "validatePath cells rooms cols rows aIdx bIdx startCell endCell [] = Inr False"
| "validatePath cells rooms cols rows aIdx bIdx startCell endCell (p # ps) =
     (if fst p < 0 \<or> fst p \<ge> cols \<or> snd p < 0 \<or> snd p \<ge> rows then Inr True
      else if roomIndexAt rooms (fst p) (snd p) \<noteq> - 1 then Inr True
      else if cellTooCloseToRooms rooms p aIdx bIdx startCell endCell then Inr True
      else
        (case corridorTooCloseToOthers cells cols rows p of
           Inl err \<Rightarrow> Inl err
         | Inr b \<Rightarrow>
             if b then Inr True
             else validatePath cells rooms cols rows aIdx bIdx startCell endCell ps))"

fun tryPolylines ::
  "Grid \<Rightarrow> Room list \<Rightarrow> int \<Rightarrow> int \<Rightarrow> nat \<Rightarrow> nat \<Rightarrow> Pos \<Rightarrow> Pos \<Rightarrow> Pos list list
     \<Rightarrow> (error + bool \<times> Grid) option" where
  "tryPolylines cells rooms cols rows aIdx bIdx startCell endCell [] = Some (Inr (False, cells))"
| "tryPolylines cells rooms cols rows aIdx bIdx startCell endCell (poly # polys) =
     (case polylineToCells poly of
        None \<Rightarrow> None
      | Some cellsPath \<Rightarrow>
          (case validatePath cells rooms cols rows aIdx bIdx startCell endCell cellsPath of
             Inl err \<Rightarrow> Some (Inl err)
           | Inr invalid \<Rightarrow>
               if invalid then tryPolylines cells rooms cols rows aIdx bIdx startCell endCell polys
               else
                 (case createsCorridorSquare cells cols rows cellsPath of
                    Inl err \<Rightarrow> Some (Inl err)
                  | Inr square \<Rightarrow>
                      if square
                      then tryPolylines cells rooms cols rows aIdx bIdx startCell endCell polys
                      else
                        (case carveCells cells cols rows cellsPath of
                           Inl err \<Rightarrow> Some (Inl err)
                         | Inr cells' \<Rightarrow> Some (Inr (True, cells'))))))"

definition carveCorridorBetween ::
  "Grid \<Rightarrow> Room list \<Rightarrow> Point list \<Rightarrow> int \<Rightarrow> int \<Rightarrow> nat \<Rightarrow> nat \<Rightarrow> (error + bool \<times> Grid) option" where
  "carveCorridorBetween cells rooms pnts cols rows aIdx bIdx =
     (let aCenter = nthOpt pnts aIdx;
          bCenter = nthOpt pnts bIdx
      in case exitCellFromCenter rooms cols rows aIdx bCenter of
           None \<Rightarrow> None
         | Some (Inl err) \<Rightarrow> Some (Inl err)
         | Some (Inr startCell) \<Rightarrow>
             (case exitCellFromCenter rooms cols rows bIdx aCenter of
                None \<Rightarrow> None
              | Some (Inl err) \<Rightarrow> Some (Inl err)
              | Some (Inr endCell) \<Rightarrow>
                  tryPolylines cells rooms cols rows aIdx bIdx startCell endCell
                    (candidatePolylines cols rows startCell endCell)))"

text \<open>The loop \<^verbatim>\<open>for (const e of finalEdges) carveCorridorBetween(e.a, e.b)\<close>.\<close>

fun carveAll ::
  "Grid \<Rightarrow> Room list \<Rightarrow> Point list \<Rightarrow> int \<Rightarrow> int \<Rightarrow> Edge list \<Rightarrow> (error + Grid) option" where
  "carveAll cells rooms pnts cols rows [] = Some (Inr cells)"
| "carveAll cells rooms pnts cols rows (e # es) =
     (case carveCorridorBetween cells rooms pnts cols rows (edge_a e) (edge_b e) of
        None \<Rightarrow> None
      | Some (Inl err) \<Rightarrow> Some (Inl err)
      | Some (Inr (carved, cells')) \<Rightarrow> carveAll cells' rooms pnts cols rows es)"

section \<open>The generator\<close>

record Dungeon =
  dungeon_cells :: Grid
  dungeon_rooms :: "Room list"
  dungeon_roomGraph :: Graph

definition roomCenters :: "Room list \<Rightarrow> Point list" where
  "roomCenters rooms =
     map (\<lambda>r. \<lparr>pt_x = real_of_int (fst (room_center r)), pt_y = real_of_int (snd (room_center r))\<rparr>) rooms"

definition createDungeon :: "(nat \<Rightarrow> real) \<Rightarrow> (error + Dungeon) option" where
  "createDungeon rnd =
     (case placeRooms rnd of
        Inl err \<Rightarrow> Some (Inl err)
      | Inr (cells, rooms, k) \<Rightarrow>
          (let pnts = roomCenters rooms;
               roomGraph = createGraphFromPoints pnts
           in case primMST roomGraph of
                Inl err \<Rightarrow> Some (Inl err)
              | Inr mst \<Rightarrow>
                  (case augment rnd (length pnts) (edges mst) (edges roomGraph) k of
                     (finalEdges, adjacency, k') \<Rightarrow>
                       (case carveAll cells rooms pnts (gridCols cells) (gridRows cells) finalEdges of
                          None \<Rightarrow> None
                        | Some (Inl err) \<Rightarrow> Some (Inl err)
                        | Some (Inr cells') \<Rightarrow>
                            Some (Inr \<lparr>dungeon_cells = cells', dungeon_rooms = rooms,
                                       dungeon_roomGraph = roomGraph\<rparr>)))))"

section \<open>Specification predicates\<close>

definition typeAt :: "Grid \<Rightarrow> int \<Rightarrow> int \<Rightarrow> CellTypeEnum option" where
  "typeAt cells j i = map_option cell_type (cellAt cells j i)"

definition grid_dims :: "Grid \<Rightarrow> int \<Rightarrow> int \<Rightarrow> bool" where
  "grid_dims cells W H \<longleftrightarrow> int (length cells) = H \<and> (\<forall>row \<in> set cells. int (length row) = W)"

definition in_room :: "Room \<Rightarrow> int \<Rightarrow> int \<Rightarrow> bool" where
  "in_room r x y \<longleftrightarrow> x \<ge> room_x r \<and> x < room_x r + room_width r \<and> y \<ge> room_y r \<and> y < room_y r + room_height r"

definition rooms_apart :: "int \<Rightarrow> Room \<Rightarrow> Room \<Rightarrow> bool" where
  "rooms_apart d r r' \<longleftrightarrow>
     (\<forall>x y x' y'. in_room r x y \<longrightarrow> in_room r' x' y' \<longrightarrow> d \<le> max \<bar>x - x'\<bar> \<bar>y - y'\<bar>)"

definition room_ok :: "Room \<Rightarrow> bool" where
  "room_ok r \<longleftrightarrow>
     0 \<le> room_x r \<and> room_x r + room_width r \<le> DUNGEON_SIZE_width \<and>
     0 \<le> room_y r \<and> room_y r + room_height r \<le> DUNGEON_SIZE_height \<and>
     MIN_ROOM_SIZE_width \<le> room_width r \<and> room_width r \<le> MAX_ROOM_SIZE_width \<and>
     MIN_ROOM_SIZE_height \<le> room_height r \<and> room_height r \<le> MAX_ROOM_SIZE_height \<and>
     room_center r = (room_x r + room_width r div 2, room_y r + room_height r div 2)"

definition place_inv :: "Grid \<Rightarrow> Room list \<Rightarrow> bool" where
  "place_inv cells rooms \<longleftrightarrow>
     grid_dims cells DUNGEON_SIZE_width DUNGEON_SIZE_height \<and>
     (\<forall>r\<in>set rooms. room_ok r) \<and>
     (\<forall>j i. 0 \<le> j \<and> j < DUNGEON_SIZE_height \<and> 0 \<le> i \<and> i < DUNGEON_SIZE_width \<longrightarrow>
        typeAt cells j i = Some (if \<exists>r\<in>set rooms. in_room r i j then CT_room else CT_empty)) \<and>
     (\<forall>m<length rooms. \<forall>n<length rooms. m \<noteq> n \<longrightarrow>
        rooms_apart (ROOM_SEPARATION + 1) (rooms ! m) (rooms ! n))"

text \<open>A sequence of draws whose attempts alternate between two placements.\<close>

definition draws_two_rooms :: "nat \<Rightarrow> real" where
  "draws_two_rooms i = (if (i div 4) mod 2 = 0 then 0 else 9 / 10)"

text \<open>Degrees in an edge list, and the triangulation of the corners of a square with its tree.\<close>

definition degree :: "Edge list \<Rightarrow> nat \<Rightarrow> nat" where
  "degree es v = length (filter (\<lambda>e. edge_a e = v) es) + length (filter (\<lambda>e. edge_b e = v) es)"

definition all_zero :: "nat \<Rightarrow> real" where
  "all_zero i = 0"

definition edges_within :: "nat \<Rightarrow> Edge list \<Rightarrow> bool" where
  "edges_within n es \<longleftrightarrow> (\<forall>e\<in>set es. edge_a e < n \<and> edge_b e < n \<and> edge_a e \<noteq> edge_b e)"

definition square_tree :: "Edge list" where
  "square_tree = [\<lparr>edge_a = 1, edge_b = 0\<rparr>, \<lparr>edge_a = 3, edge_b = 1\<rparr>, \<lparr>edge_a = 0, edge_b = 2\<rparr>]"

definition square_edges :: "Edge list" where
  "square_edges = [\<lparr>edge_a = 1, edge_b = 0\<rparr>, \<lparr>edge_a = 0, edge_b = 3\<rparr>, \<lparr>edge_a = 3, edge_b = 1\<rparr>,
                   \<lparr>edge_a = 0, edge_b = 2\<rparr>, \<lparr>edge_a = 2, edge_b = 3\<rparr>]"

definition accepted_under_cap :: "nat \<Rightarrow> Edge list \<Rightarrow> bool" where
  "accepted_under_cap m fin \<longleftrightarrow>
     (\<forall>pre e post. fin = pre @ e # post \<and> m \<le> length pre \<longrightarrow>
        degree pre (edge_a e) \<le> MAX_ALLOWED_CONNECTIONS \<and>
        degree pre (edge_b e) \<le> MAX_ALLOWED_CONNECTIONS)"

definition accepts :: "(nat \<Rightarrow> real) \<Rightarrow> (nat \<times> nat) list \<Rightarrow> Edge \<Rightarrow> nat list \<Rightarrow> nat \<Rightarrow> bool" where
  "accepts rnd mstSet e adjacency k \<longleftrightarrow>
     keyEdge (edge_a e) (edge_b e) \<notin> set mstSet \<and> rnd k \<le> EXTRA_EDGE_CHANCE \<and>
     adjacency ! edge_a e \<le> MAX_ALLOWED_CONNECTIONS \<and> adjacency ! edge_b e \<le> MAX_ALLOWED_CONNECTIONS"

text \<open>Graphs: adjacency, connectedness, weights, and the invariant of Prim's loop.\<close>

definition adjacent :: "Edge set \<Rightarrow> (nat \<times> nat) set" where
  "adjacent S = {(edge_a e, edge_b e) | e. e \<in> S} \<union> {(edge_b e, edge_a e) | e. e \<in> S}"

definition connects :: "nat \<Rightarrow> Edge set \<Rightarrow> bool" where
  "connects n S \<longleftrightarrow> (\<forall>v<n. (0, v) \<in> (adjacent S)\<^sup>*)"

definition crossing :: "nat set \<Rightarrow> Edge \<Rightarrow> bool" where
  "crossing A e \<longleftrightarrow> (edge_a e \<in> A \<and> edge_b e \<notin> A) \<or> (edge_a e \<notin> A \<and> edge_b e \<in> A)"

definition edgeWeight :: "Point list \<Rightarrow> Edge \<Rightarrow> real" where
  "edgeWeight pts e =
     (let dx = pt_x (pts ! edge_a e) - pt_x (pts ! edge_b e);
          dy = pt_y (pts ! edge_a e) - pt_y (pts ! edge_b e)
      in sqrt (dx * dx + dy * dy))"

definition totalWeight :: "Point list \<Rightarrow> Edge list \<Rightarrow> real" where
  "totalWeight pts es = sum_list (map (edgeWeight pts) es)"

definition lightest :: "Point list \<Rightarrow> nat \<Rightarrow> Edge set \<Rightarrow> Edge set \<Rightarrow> bool" where
  "lightest pts n E S \<longleftrightarrow>
     S \<subseteq> E \<and> connects n S \<and>
     (\<forall>S'. S' \<subseteq> E \<and> connects n S' \<longrightarrow> sum (edgeWeight pts) S \<le> sum (edgeWeight pts) S')"

definition treeSet :: "bool list \<Rightarrow> nat set" where
  "treeSet inMST = {v. inAt inMST v}"

text \<open>Points with integer coordinates of size at most \<open>2 ^ 23\<close> (the room centers of the
  generator are integers below \<open>30\<close>): the squared distance of two of them is an integer
  below \<open>2 ^ 50\<close>, computed without rounding, and the rounded square roots of two such
  integers are ordered as the integers are.\<close>

definition small_int_points :: "Point list \<Rightarrow> bool" where
  "small_int_points pts \<longleftrightarrow>
     (\<forall>p\<in>set pts. \<exists>i j :: int. pt_x p = of_int i \<and> pt_y p = of_int j \<and>
        \<bar>i\<bar> \<le> 2 ^ 23 \<and> \<bar>j\<bar> \<le> 2 ^ 23)"

definition sqDist :: "Point list \<Rightarrow> Edge \<Rightarrow> real" where
  "sqDist pts e =
     (pt_x (pts ! edge_a e) - pt_x (pts ! edge_b e)) * (pt_x (pts ! edge_a e) - pt_x (pts ! edge_b e)) +
     (pt_y (pts ! edge_a e) - pt_y (pts ! edge_b e)) * (pt_y (pts ! edge_a e) - pt_y (pts ! edge_b e))"

text \<open>What the scan of \<^verbatim>\<open>primMST\<close> selects: the first edge, in the order of the list,
  among the lightest edges with exactly one endpoint in the tree, with its computed weight.\<close>

definition first_minimum ::
  "Point list \<Rightarrow> bool list \<Rightarrow> Edge list \<Rightarrow> (Edge \<times> number) option \<Rightarrow> bool" where
  "first_minimum pts inMST es best =
     (case best of
        None \<Rightarrow> (\<forall>e\<in>set es. \<not> crossing (treeSet inMST) e)
      | Some (e, w) \<Rightarrow>
          (\<exists>i<length es. e = es ! i \<and> crossing (treeSet inMST) e \<and>
             primMST_dist pts (edge_a e) (edge_b e) = Inr w \<and>
             (\<forall>j<i. crossing (treeSet inMST) (es ! j) \<longrightarrow> edgeWeight pts e < edgeWeight pts (es ! j)) \<and>
             (\<forall>j<length es. crossing (treeSet inMST) (es ! j) \<longrightarrow>
                edgeWeight pts e \<le> edgeWeight pts (es ! j))))"

definition treeMarks :: "nat \<Rightarrow> Edge list \<Rightarrow> bool list" where
  "treeMarks n F = fold (\<lambda>e m. m[edge_a e := True, edge_b e := True]) F ((replicate n False)[0 := True])"

definition prim_inv :: "Point list \<Rightarrow> Edge list \<Rightarrow> nat \<Rightarrow> bool list \<Rightarrow> Edge list \<Rightarrow> bool" where
  "prim_inv pts es n inMST F \<longleftrightarrow>
     length inMST = n \<and> inAt inMST 0 \<and> set F \<subseteq> set es \<and>
     (\<forall>e\<in>set F. edge_a e \<in> treeSet inMST \<and> edge_b e \<in> treeSet inMST) \<and>
     (\<forall>v\<in>treeSet inMST. (0, v) \<in> (adjacent (set F))\<^sup>*) \<and>
     card (treeSet inMST) = length F + 1 \<and> distinct F \<and>
     (\<exists>S. lightest pts n (set es) S \<and> set F \<subseteq> S) \<and>
     inMST = treeMarks n F \<and>
     (\<forall>k<length F. \<exists>w. scanEdges pts (treeMarks n (take k F)) es None = Inr (Some (F ! k, w)))"

text \<open>Three points on a row, a right triangle with its triangulation edges, and two
  points so far apart that the square of their distance overflows.\<close>

definition far_points :: "Point list" where
  "far_points = [\<lparr>pt_x = 0, pt_y = 0\<rparr>, \<lparr>pt_x = 2 ^ 700, pt_y = 0\<rparr>]"


definition row_points :: "Point list" where
  "row_points = [\<lparr>pt_x = 5, pt_y = 5\<rparr>, \<lparr>pt_x = 25, pt_y = 5\<rparr>, \<lparr>pt_x = 15, pt_y = 5\<rparr>]"

definition tri_points :: "Point list" where
  "tri_points = [\<lparr>pt_x = 0, pt_y = 0\<rparr>, \<lparr>pt_x = 3, pt_y = 0\<rparr>, \<lparr>pt_x = 0, pt_y = 4\<rparr>]"

definition tri_edges :: "Edge list" where
  "tri_edges = [\<lparr>edge_a = 1, edge_b = 0\<rparr>, \<lparr>edge_a = 0, edge_b = 2\<rparr>, \<lparr>edge_a = 2, edge_b = 1\<rparr>]"

text \<open>Triangles with three distinct vertices taken from a set of indices.\<close>

definition tris_ok :: "nat set \<Rightarrow> Triangle list \<Rightarrow> bool" where
  "tris_ok V tris \<longleftrightarrow>
     (\<forall>t\<in>set tris. tri_a t \<noteq> tri_b t \<and> tri_b t \<noteq> tri_c t \<and> tri_c t \<noteq> tri_a t \<and>
        tri_a t \<in> V \<and> tri_b t \<in> V \<and> tri_c t \<in> V)"

text \<open>The corridor router: rooms as the placement loop leaves them, distances along one
  axis, the cells of a grid, the boxes of the segments of a polyline, the \<open>2 \<times> 2\<close> windows,
  and what the validation loop accepts.\<close>

definition rooms_wf :: "Room list \<Rightarrow> bool" where
  "rooms_wf rooms \<longleftrightarrow>
     (\<forall>r\<in>set rooms. 0 < room_width r \<and> 0 < room_height r \<and>
        in_room r (fst (room_center r)) (snd (room_center r))) \<and>
     (\<forall>m<length rooms. \<forall>n<length rooms. m \<noteq> n \<longrightarrow>
        rooms_apart (ROOM_SEPARATION + 1) (rooms ! m) (rooms ! n))"

definition axisDist :: "int \<Rightarrow> int \<Rightarrow> int \<Rightarrow> int" where
  "axisDist lo hi p = (if p < lo then lo - p else if p > hi then p - hi else 0)"

definition inGrid :: "int \<Rightarrow> int \<Rightarrow> Pos \<Rightarrow> bool" where
  "inGrid cols rows p \<longleftrightarrow> 0 \<le> fst p \<and> fst p < cols \<and> 0 \<le> snd p \<and> snd p < rows"

definition inBox :: "Pos \<Rightarrow> Pos \<Rightarrow> Pos \<Rightarrow> bool" where
  "inBox a b p \<longleftrightarrow> min (fst a) (fst b) \<le> fst p \<and> fst p \<le> max (fst a) (fst b) \<and>
                 min (snd a) (snd b) \<le> snd p \<and> snd p \<le> max (snd a) (snd b)"

fun onPoly :: "Pos list \<Rightarrow> Pos \<Rightarrow> bool" where
  "onPoly (a # b # rest) p = (inBox a b p \<or> onPoly (b # rest) p)"
| "onPoly [a] p = False"
| "onPoly [] p = False"

definition square_at :: "int \<Rightarrow> int \<Rightarrow> Pos list" where
  "square_at x y = [(x, y), (x + 1, y), (x, y + 1), (x + 1, y + 1)]"

text \<open>A path through one pivot column (or row), and the pivots that keep it thin.\<close>

definition viaColumn :: "Pos \<Rightarrow> Pos \<Rightarrow> int \<Rightarrow> Pos \<Rightarrow> bool" where
  "viaColumn s e px p = onPoly [s, (px, snd s), (px, snd e), e] p"

definition viaRow :: "Pos \<Rightarrow> Pos \<Rightarrow> int \<Rightarrow> Pos \<Rightarrow> bool" where
  "viaRow s e py p = onPoly [s, (fst s, py), (fst e, py), e] p"

definition pivot_ok :: "int \<Rightarrow> int \<Rightarrow> int \<Rightarrow> int \<Rightarrow> int \<Rightarrow> bool" where
  "pivot_ok a b a' b' pv \<longleftrightarrow> (\<bar>a' - b'\<bar> = 1 \<longrightarrow> min a b \<le> pv \<and> pv \<le> max a b)"

definition corridorAt :: "Grid \<Rightarrow> Pos \<Rightarrow> bool" where
  "corridorAt cells p \<longleftrightarrow> typeAt cells (snd p) (fst p) = Some CT_corridor"

definition lonely :: "Grid \<Rightarrow> Pos \<Rightarrow> bool" where
  "lonely cells p \<longleftrightarrow>
     (\<forall>q. q \<noteq> p \<and> \<bar>fst q - fst p\<bar> \<le> 1 \<and> \<bar>snd q - snd p\<bar> \<le> 1 \<longrightarrow> \<not> corridorAt cells q)"

definition path_valid :: "Grid \<Rightarrow> Room list \<Rightarrow> int \<Rightarrow> int \<Rightarrow> nat \<Rightarrow> nat \<Rightarrow> Pos \<Rightarrow> Pos \<Rightarrow> Pos \<Rightarrow> bool" where
  "path_valid cells rooms W H aIdx bIdx s e p \<longleftrightarrow>
     inGrid W H p \<and> roomIndexAt rooms (fst p) (snd p) = - 1 \<and>
     \<not> cellTooCloseToRooms rooms p aIdx bIdx s e \<and> (corridorAt cells p \<or> lonely cells p)"

definition no_corridor_square :: "Grid \<Rightarrow> bool" where
  "no_corridor_square cells \<longleftrightarrow>
     (\<forall>y\<in>set [0..gridRows cells - 2]. \<forall>x\<in>set [0..gridCols cells - 2].
        \<not> list_all (corridorAt cells) (square_at x y))"

text \<open>Every cell of type room lies in a room of the list.\<close>

definition rooms_drawn :: "Grid \<Rightarrow> Room list \<Rightarrow> bool" where
  "rooms_drawn cells rooms \<longleftrightarrow>
     (\<forall>j i. typeAt cells j i = Some CT_room \<longrightarrow> (\<exists>r\<in>set rooms. in_room r i j))"




section \<open>Properties of the grid and of room placement\<close>

lemma grid_dims_createEmptyDungeon:
  "0 \<le> W \<Longrightarrow> 0 \<le> H \<Longrightarrow> grid_dims (createEmptyDungeon W H) W H"
  by (auto simp: grid_dims_def createEmptyDungeon_def)

lemma typeAt_createEmptyDungeon:
  "typeAt (createEmptyDungeon W H) j i = (if 0 \<le> j \<and> j < H \<and> 0 \<le> i \<and> i < W then Some CT_empty else None)"
  by (auto simp: typeAt_def cellAt_def createEmptyDungeon_def split: if_splits)

lemma typeAt_dims:
  "grid_dims cells W H \<Longrightarrow> (typeAt cells j i \<noteq> None) = (0 \<le> j \<and> j < H \<and> 0 \<le> i \<and> i < W)"
  by (auto simp: typeAt_def cellAt_def grid_dims_def)

lemma setType_Inr_iff:
  "grid_dims cells W H \<Longrightarrow> (\<exists>cells'. setType cells y x t = Inr cells') = (0 \<le> y \<and> y < H \<and> 0 \<le> x \<and> x < W)"
  by (auto simp: setType_def cellAt_def grid_dims_def split: option.splits)

lemma setType_dims:
  "setType cells y x t = Inr cells' \<Longrightarrow> grid_dims cells W H \<Longrightarrow> grid_dims cells' W H"
  apply (auto simp: setType_def cellAt_def grid_dims_def split: option.splits if_splits)
  apply (auto dest!: set_update_subset_insert[THEN subsetD])
  done

lemma setType_typeAt:
  "setType cells y x t = Inr cells' \<Longrightarrow>
   typeAt cells' j i = (if j = y \<and> i = x then Some t else typeAt cells j i)"
proof -
  assume a: "setType cells y x t = Inr cells'"
  then obtain c where c: "cellAt cells y x = Some c"
    and cells': "cells' = cells[nat y := (cells ! nat y)[nat x := c\<lparr>cell_type := t\<rparr>]]"
    by (auto simp: setType_def split: option.splits)
  from c have r: "0 \<le> y" "y < int (length cells)" "0 \<le> x" "x < int (length (cells ! nat y))"
    by (auto simp: cellAt_def split: if_splits)
  show ?thesis
  proof (cases "j = y")
    case True
    then show ?thesis using r
      by (cases "i = x") (auto simp: cells' typeAt_def cellAt_def nth_list_update)
  next
    case False
    then show ?thesis using r
      by (auto simp: cells' typeAt_def cellAt_def nth_list_update)
  qed
qed

lemma placeRoom_row_ok:
  "grid_dims cells W H \<Longrightarrow> 0 \<le> y \<Longrightarrow> y < H \<Longrightarrow> \<forall>x\<in>set xs. 0 \<le> x \<and> x < W \<Longrightarrow>
   \<exists>cells'. placeRoom_row cells y xs = Inr cells' \<and> grid_dims cells' W H \<and>
     (\<forall>j i. typeAt cells' j i = (if j = y \<and> i \<in> set xs then Some CT_room else typeAt cells j i))"
proof (induction xs arbitrary: cells)
  case Nil
  then show ?case by simp
next
  case (Cons x xs)
  from Cons.prems have "0 \<le> y \<and> y < H \<and> 0 \<le> x \<and> x < W" by simp
  with setType_Inr_iff[OF Cons.prems(1), of y x CT_room]
  obtain c1 where c1: "setType cells y x CT_room = Inr c1" by blast
  have d1: "grid_dims c1 W H" by (rule setType_dims[OF c1 Cons.prems(1)])
  from Cons.IH[OF d1 Cons.prems(2,3)] Cons.prems(4)
  obtain c2 where c2: "placeRoom_row c1 y xs = Inr c2" "grid_dims c2 W H"
    "\<forall>j i. typeAt c2 j i = (if j = y \<and> i \<in> set xs then Some CT_room else typeAt c1 j i)"
    by auto
  show ?case using c1 c2 by (auto simp: setType_typeAt[OF c1])
qed

lemma placeRoom_rows_ok:
  "grid_dims cells W H \<Longrightarrow> \<forall>y\<in>set ys. 0 \<le> y \<and> y < H \<Longrightarrow> \<forall>x\<in>set xs. 0 \<le> x \<and> x < W \<Longrightarrow>
   \<exists>cells'. placeRoom_rows cells ys xs = Inr cells' \<and> grid_dims cells' W H \<and>
     (\<forall>j i. typeAt cells' j i = (if j \<in> set ys \<and> i \<in> set xs then Some CT_room else typeAt cells j i))"
proof (induction ys arbitrary: cells)
  case Nil
  then show ?case by simp
next
  case (Cons y ys)
  from Cons.prems have y: "0 \<le> y" "y < H" by auto
  from placeRoom_row_ok[OF Cons.prems(1) y Cons.prems(3)]
  obtain c1 where c1: "placeRoom_row cells y xs = Inr c1" "grid_dims c1 W H"
    "\<forall>j i. typeAt c1 j i = (if j = y \<and> i \<in> set xs then Some CT_room else typeAt cells j i)"
    by blast
  from Cons.IH[OF c1(2) _ Cons.prems(3)] Cons.prems(2)
  obtain c2 where c2: "placeRoom_rows c1 ys xs = Inr c2" "grid_dims c2 W H"
    "\<forall>j i. typeAt c2 j i = (if j \<in> set ys \<and> i \<in> set xs then Some CT_room else typeAt c1 j i)"
    by auto
  show ?case using c1 c2 by auto
qed

lemma placeRoom_ok:
  assumes "grid_dims cells W H"
    and "0 \<le> room_x r" "room_x r + room_width r \<le> W"
    and "0 \<le> room_y r" "room_y r + room_height r \<le> H"
  shows "\<exists>cells'. placeRoom cells r = Inr cells' \<and> grid_dims cells' W H \<and>
     (\<forall>j i. typeAt cells' j i = (if in_room r i j then Some CT_room else typeAt cells j i))"
proof -
  have "\<exists>cells'. placeRoom_rows cells [room_y r..room_y r + room_height r - 1]
       [room_x r..room_x r + room_width r - 1] = Inr cells' \<and> grid_dims cells' W H \<and>
     (\<forall>j i. typeAt cells' j i = (if j \<in> set [room_y r..room_y r + room_height r - 1]
        \<and> i \<in> set [room_x r..room_x r + room_width r - 1] then Some CT_room else typeAt cells j i))"
    using assms by (intro placeRoom_rows_ok) auto
  then show ?thesis
    by (auto simp: placeRoom_def in_room_def)
qed

lemma isAreaEmpty_row_char:
  "\<forall>i\<in>set is. typeAt cells j i \<noteq> None \<Longrightarrow>
   isAreaEmpty_row cells j is = Inr (\<forall>i\<in>set is. typeAt cells j i = Some CT_empty)"
  by (induction "is") (auto simp: typeAt_def split: option.splits)

lemma isAreaEmpty_rows_char:
  "\<forall>j\<in>set js. \<forall>i\<in>set is. typeAt cells j i \<noteq> None \<Longrightarrow>
   isAreaEmpty_rows cells js is = Inr (\<forall>j\<in>set js. \<forall>i\<in>set is. typeAt cells j i = Some CT_empty)"
  by (induction js) (auto simp: isAreaEmpty_row_char)

lemma gridCols_dims:
  "grid_dims cells W H \<Longrightarrow> 0 < H \<Longrightarrow> (case cells of [] \<Rightarrow> 0 | row # _ \<Rightarrow> int (length row)) = W"
  by (cases cells) (auto simp: grid_dims_def)

lemma isAreaEmpty_char:
  assumes "grid_dims cells W H" "0 < H"
  shows "isAreaEmpty cells x y w h =
     Inr (\<forall>j i. max 0 y \<le> j \<and> j < min H (y + h) \<and> max 0 x \<le> i \<and> i < min W (x + w)
            \<longrightarrow> typeAt cells j i = Some CT_empty)"
proof -
  have H: "int (length cells) = H" using assms by (simp add: grid_dims_def)
  have "isAreaEmpty cells x y w h =
     isAreaEmpty_rows cells [max 0 y..min H (y + h) - 1] [max 0 x..min W (x + w) - 1]"
    by (simp add: isAreaEmpty_def Let_def gridCols_dims[OF assms] H)
  also have "\<dots> = Inr (\<forall>j\<in>set [max 0 y..min H (y + h) - 1]. \<forall>i\<in>set [max 0 x..min W (x + w) - 1].
        typeAt cells j i = Some CT_empty)"
    by (rule isAreaEmpty_rows_char) (use typeAt_dims[OF assms(1)] in auto)
  finally show ?thesis by (auto simp: Ball_def)
qed

lemma rooms_apart_sym: "rooms_apart d r r' \<Longrightarrow> rooms_apart d r' r"
  unfolding rooms_apart_def by (metis abs_minus_commute)

lemma floor_draw_bounds:
  assumes "0 \<le> r" "r < 1" "0 < n"
  shows "0 \<le> \<lfloor>r * real_of_int n\<rfloor>" "\<lfloor>r * real_of_int n\<rfloor> < n"
proof -
  show "0 \<le> \<lfloor>r * real_of_int n\<rfloor>" using assms by simp
  have "r * real_of_int n < real_of_int n" using assms by simp
  then show "\<lfloor>r * real_of_int n\<rfloor> < n" by (simp add: floor_less_iff)
qed

lemma floor_half: "\<lfloor>real_of_int a + real_of_int w / 2\<rfloor> = a + w div 2"
proof -
  have "\<lfloor>real_of_int a + real_of_int w / 2\<rfloor> = a + \<lfloor>real_of_int w / 2\<rfloor>"
    by simp
  also have "\<lfloor>real_of_int w / 2\<rfloor> = w div 2"
    using floor_divide_of_int_eq[of w 2, where ?'a = real] by simp
  finally show ?thesis .
qed

lemma place_inv_empty:
  "place_inv (createEmptyDungeon DUNGEON_SIZE_width DUNGEON_SIZE_height) []"
  unfolding place_inv_def
  by (auto simp: grid_dims_createEmptyDungeon typeAt_createEmptyDungeon
      DUNGEON_SIZE_width_def DUNGEON_SIZE_height_def)

lemma place_step:
  assumes inv: "place_inv cells rooms"
    and r: "room_ok r"
  shows "\<exists>ok. isAreaEmpty cells (room_x r - ROOM_SEPARATION) (room_y r - ROOM_SEPARATION)
            (room_width r + ROOM_SEPARATION * 2) (room_height r + ROOM_SEPARATION * 2) = Inr ok \<and>
          (ok \<longrightarrow> (\<exists>cells'. placeRoom cells r = Inr cells' \<and> place_inv cells' (rooms @ [r])))"
proof -
  let ?W = DUNGEON_SIZE_width and ?H = DUNGEON_SIZE_height
  from inv have dims: "grid_dims cells ?W ?H" by (simp add: place_inv_def)
  have Hpos: "0 < ?H" by (simp add: DUNGEON_SIZE_height_def)
  let ?P = "\<forall>j i. max 0 (room_y r - ROOM_SEPARATION) \<le> j \<and>
        j < min ?H (room_y r - ROOM_SEPARATION + (room_height r + ROOM_SEPARATION * 2)) \<and>
        max 0 (room_x r - ROOM_SEPARATION) \<le> i \<and>
        i < min ?W (room_x r - ROOM_SEPARATION + (room_width r + ROOM_SEPARATION * 2))
        \<longrightarrow> typeAt cells j i = Some CT_empty"
  have e: "isAreaEmpty cells (room_x r - ROOM_SEPARATION) (room_y r - ROOM_SEPARATION)
            (room_width r + ROOM_SEPARATION * 2) (room_height r + ROOM_SEPARATION * 2) = Inr ?P"
    by (rule isAreaEmpty_char[OF dims Hpos])
  have "\<exists>cells'. placeRoom cells r = Inr cells' \<and> place_inv cells' (rooms @ [r])" if P: ?P
  proof -
    from r have rb: "0 \<le> room_x r" "room_x r + room_width r \<le> ?W"
      "0 \<le> room_y r" "room_y r + room_height r \<le> ?H"
      by (auto simp: room_ok_def)
    from placeRoom_ok[OF dims rb] obtain cells' where c':
      "placeRoom cells r = Inr cells'" "grid_dims cells' ?W ?H"
      "\<forall>j i. typeAt cells' j i = (if in_room r i j then Some CT_room else typeAt cells j i)"
      by blast
    have apart: "rooms_apart (ROOM_SEPARATION + 1) r' r" if r': "r' \<in> set rooms" for r'
      unfolding rooms_apart_def
    proof (intro allI impI)
      fix x' y' x y
      assume a': "in_room r' x' y'" and a: "in_room r x y"
      from inv r' have ok': "room_ok r'" by (simp add: place_inv_def)
      with a' have g: "0 \<le> y'" "y' < ?H" "0 \<le> x'" "x' < ?W"
        by (auto simp: room_ok_def in_room_def)
      with inv r' a' have "typeAt cells y' x' = Some CT_room"
        by (auto simp: place_inv_def)
      with P have "\<not> (max 0 (room_y r - ROOM_SEPARATION) \<le> y' \<and>
        y' < min ?H (room_y r - ROOM_SEPARATION + (room_height r + ROOM_SEPARATION * 2)) \<and>
        max 0 (room_x r - ROOM_SEPARATION) \<le> x' \<and>
        x' < min ?W (room_x r - ROOM_SEPARATION + (room_width r + ROOM_SEPARATION * 2)))"
        by force
      with g a show "ROOM_SEPARATION + 1 \<le> max \<bar>x' - x\<bar> \<bar>y' - y\<bar>"
        by (auto simp: in_room_def ROOM_SEPARATION_def)
    qed
    have "place_inv cells' (rooms @ [r])"
      unfolding place_inv_def
    proof (intro conjI)
      show "grid_dims cells' ?W ?H" by fact
      show "\<forall>r\<in>set (rooms @ [r]). room_ok r" using inv r by (auto simp: place_inv_def)
      show "\<forall>j i. 0 \<le> j \<and> j < ?H \<and> 0 \<le> i \<and> i < ?W \<longrightarrow>
        typeAt cells' j i = Some (if \<exists>r\<in>set (rooms @ [r]). in_room r i j then CT_room else CT_empty)"
        using inv c'(3) by (auto simp: place_inv_def)
      show "\<forall>m<length (rooms @ [r]). \<forall>n<length (rooms @ [r]). m \<noteq> n \<longrightarrow>
        rooms_apart (ROOM_SEPARATION + 1) ((rooms @ [r]) ! m) ((rooms @ [r]) ! n)"
      proof (intro allI impI)
        fix m n assume m: "m < length (rooms @ [r])" and n: "n < length (rooms @ [r])" and mn: "m \<noteq> n"
        consider "m < length rooms" "n < length rooms" | "m < length rooms" "n = length rooms"
          | "m = length rooms" "n < length rooms"
          using m n mn by (auto simp: less_Suc_eq)
        then show "rooms_apart (ROOM_SEPARATION + 1) ((rooms @ [r]) ! m) ((rooms @ [r]) ! n)"
        proof cases
          case 1
          then show ?thesis using inv mn by (simp add: place_inv_def nth_append)
        next
          case 2
          then show ?thesis using apart[of "rooms ! m"] by (simp add: nth_append)
        next
          case 3
          then show ?thesis using rooms_apart_sym[OF apart[of "rooms ! n"]] by (simp add: nth_append)
        qed
      qed
    qed
    with c' show ?thesis by blast
  qed
  with e show ?thesis by blast
qed

lemma newRoomAt_ok:
  fixes rnd :: "nat \<Rightarrow> real" and k :: nat
  assumes "\<forall>i. 0 \<le> rnd i \<and> rnd i < 1"
  defines "w \<equiv> \<lfloor>rnd k * real_of_int (MAX_ROOM_SIZE_width - MIN_ROOM_SIZE_width + 1)\<rfloor> + MIN_ROOM_SIZE_width"
    and "h \<equiv> \<lfloor>rnd (k + 1) * real_of_int (MAX_ROOM_SIZE_height - MIN_ROOM_SIZE_height + 1)\<rfloor> + MIN_ROOM_SIZE_height"
  shows "room_ok (newRoomAt \<lfloor>rnd (k + 2) * real_of_int (DUNGEON_SIZE_width - w)\<rfloor>
            \<lfloor>rnd (k + 3) * real_of_int (DUNGEON_SIZE_height - h)\<rfloor> w h)"
proof -
  have r: "0 \<le> rnd i" "rnd i < 1" for i using assms(1) by auto
  have w: "3 \<le> w" "w \<le> 7"
    using floor_draw_bounds[OF r[of k], of 5]
    by (auto simp: w_def MAX_ROOM_SIZE_width_def MIN_ROOM_SIZE_width_def)
  have h: "3 \<le> h" "h \<le> 7"
    using floor_draw_bounds[OF r[of "k + 1"], of 5]
    by (auto simp: h_def MAX_ROOM_SIZE_height_def MIN_ROOM_SIZE_height_def)
  have x: "0 \<le> \<lfloor>rnd (k + 2) * real_of_int (DUNGEON_SIZE_width - w)\<rfloor>"
     "\<lfloor>rnd (k + 2) * real_of_int (DUNGEON_SIZE_width - w)\<rfloor> < DUNGEON_SIZE_width - w"
    using floor_draw_bounds[OF r[of "k + 2"], of "DUNGEON_SIZE_width - w"] w
    by (auto simp: DUNGEON_SIZE_width_def)
  have y: "0 \<le> \<lfloor>rnd (k + 3) * real_of_int (DUNGEON_SIZE_height - h)\<rfloor>"
     "\<lfloor>rnd (k + 3) * real_of_int (DUNGEON_SIZE_height - h)\<rfloor> < DUNGEON_SIZE_height - h"
    using floor_draw_bounds[OF r[of "k + 3"], of "DUNGEON_SIZE_height - h"] h
    by (auto simp: DUNGEON_SIZE_height_def)
  show ?thesis
    unfolding room_ok_def newRoomAt_def
    using w h x y
    by (simp add: floor_half MAX_ROOM_SIZE_width_def MIN_ROOM_SIZE_width_def
        MAX_ROOM_SIZE_height_def MIN_ROOM_SIZE_height_def)
qed

declare placeLoop.simps [simp del]

lemma placeLoop_inv:
  "\<forall>i. 0 \<le> rnd i \<and> rnd i < 1 \<Longrightarrow> place_inv cells rooms \<Longrightarrow>
    \<exists>cells' rooms' k'. placeLoop rnd cells rooms attempts k = Inr (cells', rooms', k') \<and>
       place_inv cells' rooms'"
proof (induction rnd cells rooms attempts k rule: placeLoop.induct)
  case (1 rnd cells rooms attempts k)
  note rnd = \<open>\<forall>i. 0 \<le> rnd i \<and> rnd i < 1\<close>
  note inv = \<open>place_inv cells rooms\<close>
  define w where "w = \<lfloor>rnd k * real_of_int (MAX_ROOM_SIZE_width - MIN_ROOM_SIZE_width + 1)\<rfloor> + MIN_ROOM_SIZE_width"
  define h where "h = \<lfloor>rnd (k + 1) * real_of_int (MAX_ROOM_SIZE_height - MIN_ROOM_SIZE_height + 1)\<rfloor> + MIN_ROOM_SIZE_height"
  define X where "X = \<lfloor>rnd (k + 2) * real_of_int (DUNGEON_SIZE_width - w)\<rfloor>"
  define Y where "Y = \<lfloor>rnd (k + 3) * real_of_int (DUNGEON_SIZE_height - h)\<rfloor>"
  define r where "r = newRoomAt X Y w h"
  have rok: "room_ok r"
    unfolding r_def X_def Y_def w_def h_def by (rule newRoomAt_ok[OF rnd])
  have rf: "room_x r = X" "room_y r = Y" "room_width r = w" "room_height r = h"
    by (simp_all add: r_def newRoomAt_def)
  from place_step[OF inv rok] obtain ok where
    e: "isAreaEmpty cells (X - ROOM_SEPARATION) (Y - ROOM_SEPARATION)
            (w + ROOM_SEPARATION * 2) (h + ROOM_SEPARATION * 2) = Inr ok"
    and p: "ok \<longrightarrow> (\<exists>cells'. placeRoom cells r = Inr cells' \<and> place_inv cells' (rooms @ [r]))"
    unfolding rf by blast
  show ?case
  proof (cases "length rooms < MAX_ROOMS \<and> attempts < MAX_ROOMS * 8")
    case False
    then show ?thesis using inv by (subst placeLoop.simps) (simp only: if_False, simp)
  next
    case True
    have unfold: "placeLoop rnd cells rooms attempts k =
      (case isAreaEmpty cells (X - ROOM_SEPARATION) (Y - ROOM_SEPARATION)
            (w + ROOM_SEPARATION * 2) (h + ROOM_SEPARATION * 2) of
         Inl e \<Rightarrow> Inl e
       | Inr ok \<Rightarrow> if ok then (case placeRoom cells r of Inl e \<Rightarrow> Inl e
            | Inr cells' \<Rightarrow> placeLoop rnd cells' (rooms @ [r]) (attempts + 1) (k + 4))
          else placeLoop rnd cells rooms (attempts + 1) (k + 4))"
      apply (subst placeLoop.simps)
      apply (simp only: True if_True Let_def X_def Y_def w_def h_def r_def simp_thms)
      done
    show ?thesis
    proof (cases ok)
      case False
      have "\<exists>cells' rooms' k'. placeLoop rnd cells rooms (attempts + 1) (k + 4) = Inr (cells', rooms', k') \<and>
       place_inv cells' rooms'"
        by (rule "1.IH"(2)[OF True refl refl refl refl refl refl refl refl
              e[unfolded X_def Y_def w_def h_def] False rnd inv])
      then show ?thesis using e False by (simp add: unfold)
    next
      case ok: True
      with p obtain c1 where c1: "placeRoom cells r = Inr c1" "place_inv c1 (rooms @ [r])" by blast
      have "\<exists>cells' rooms' k'. placeLoop rnd c1 (rooms @ [r]) (attempts + 1) (k + 4) = Inr (cells', rooms', k') \<and>
       place_inv cells' rooms'"
        unfolding r_def X_def Y_def w_def h_def
        by (rule "1.IH"(1)[OF True refl refl refl refl refl refl refl refl
              e[unfolded X_def Y_def w_def h_def] ok
              c1(1)[unfolded r_def X_def Y_def w_def h_def] rnd
              c1(2)[unfolded r_def X_def Y_def w_def h_def]])
      then show ?thesis using e ok c1 by (simp add: unfold)
    qed
  qed
qed

lemma placeRooms_inv:
  assumes "\<forall>i. 0 \<le> rnd i \<and> rnd i < 1"
  shows "\<exists>cells rooms k. placeRooms rnd = Inr (cells, rooms, k) \<and> place_inv cells rooms"
  unfolding placeRooms_def by (rule placeLoop_inv[OF assms place_inv_empty])

lemma placeLoop_prefix:
  "placeLoop rnd cells rooms attempts k = Inr (cells', rooms', k') \<Longrightarrow> \<exists>ext. rooms' = rooms @ ext"
proof (induction rnd cells rooms attempts k rule: placeLoop.induct)
  case (1 rnd cells rooms attempts k)
  show ?case
  proof (cases "length rooms < MAX_ROOMS \<and> attempts < MAX_ROOMS * 8")
    case False
    with "1.prems" show ?thesis by (subst (asm) placeLoop.simps) (simp only: if_False, simp)
  next
    case True
    define w where "w = \<lfloor>rnd k * real_of_int (MAX_ROOM_SIZE_width - MIN_ROOM_SIZE_width + 1)\<rfloor> + MIN_ROOM_SIZE_width"
    define h where "h = \<lfloor>rnd (k + 1) * real_of_int (MAX_ROOM_SIZE_height - MIN_ROOM_SIZE_height + 1)\<rfloor> + MIN_ROOM_SIZE_height"
    define X where "X = \<lfloor>rnd (k + 2) * real_of_int (DUNGEON_SIZE_width - w)\<rfloor>"
    define Y where "Y = \<lfloor>rnd (k + 3) * real_of_int (DUNGEON_SIZE_height - h)\<rfloor>"
    define r where "r = newRoomAt X Y w h"
    define chk where "chk = isAreaEmpty cells (X - ROOM_SEPARATION) (Y - ROOM_SEPARATION)
            (w + ROOM_SEPARATION * 2) (h + ROOM_SEPARATION * 2)"
    have unfold: "placeLoop rnd cells rooms attempts k =
      (case chk of
         Inl e \<Rightarrow> Inl e
       | Inr ok \<Rightarrow> if ok then (case placeRoom cells r of Inl e \<Rightarrow> Inl e
            | Inr cells' \<Rightarrow> placeLoop rnd cells' (rooms @ [r]) (attempts + 1) (k + 4))
          else placeLoop rnd cells rooms (attempts + 1) (k + 4))"
      apply (subst placeLoop.simps)
      apply (simp only: True if_True Let_def X_def Y_def w_def h_def r_def chk_def simp_thms)
      done
    from "1.prems" obtain ok where ok: "chk = Inr ok"
      unfolding unfold by (cases chk) auto
    show ?thesis
    proof (cases ok)
      case False
      with "1.prems" ok have "placeLoop rnd cells rooms (attempts + 1) (k + 4) = Inr (cells', rooms', k')"
        by (simp add: unfold)
      then show ?thesis
        by (rule "1.IH"(2)[OF True refl refl refl refl refl refl refl refl
              ok[unfolded chk_def X_def Y_def w_def h_def] False])
    next
      case t: True
      with "1.prems" ok obtain c1 where c1: "placeRoom cells r = Inr c1"
        and res: "placeLoop rnd c1 (rooms @ [r]) (attempts + 1) (k + 4) = Inr (cells', rooms', k')"
        by (cases "placeRoom cells r") (auto simp: unfold)
      have "\<exists>ext. rooms' = (rooms @ [r]) @ ext"
        using res unfolding r_def X_def Y_def w_def h_def
        by (rule "1.IH"(1)[OF True refl refl refl refl refl refl refl refl
              ok[unfolded chk_def X_def Y_def w_def h_def] t
              c1[unfolded r_def X_def Y_def w_def h_def]])
      then show ?thesis by auto
    qed
  qed
qed

lemma isAreaEmpty_createEmptyDungeon:
  "0 \<le> W \<Longrightarrow> 0 < H \<Longrightarrow> isAreaEmpty (createEmptyDungeon W H) x y w h = Inr True"
  by (simp add: isAreaEmpty_char[OF grid_dims_createEmptyDungeon] typeAt_createEmptyDungeon)

text \<open>The first attempt always places its room: the grid is still empty.\<close>

lemma placeRooms_first:
  assumes rnd: "\<forall>i. 0 \<le> rnd i \<and> rnd i < 1"
  defines "w \<equiv> \<lfloor>rnd 0 * real_of_int (MAX_ROOM_SIZE_width - MIN_ROOM_SIZE_width + 1)\<rfloor> + MIN_ROOM_SIZE_width"
    and "h \<equiv> \<lfloor>rnd 1 * real_of_int (MAX_ROOM_SIZE_height - MIN_ROOM_SIZE_height + 1)\<rfloor> + MIN_ROOM_SIZE_height"
  shows "\<exists>cells rooms k ext. placeRooms rnd = Inr (cells, rooms, k) \<and>
     rooms = newRoomAt \<lfloor>rnd 2 * real_of_int (DUNGEON_SIZE_width - w)\<rfloor>
                \<lfloor>rnd 3 * real_of_int (DUNGEON_SIZE_height - h)\<rfloor> w h # ext"
proof -
  let ?r = "newRoomAt \<lfloor>rnd 2 * real_of_int (DUNGEON_SIZE_width - w)\<rfloor>
                \<lfloor>rnd 3 * real_of_int (DUNGEON_SIZE_height - h)\<rfloor> w h"
  let ?c0 = "createEmptyDungeon DUNGEON_SIZE_width DUNGEON_SIZE_height"
  have rok: "room_ok ?r"
    using newRoomAt_ok[OF rnd, of 0] by (simp add: w_def h_def numeral_2_eq_2 numeral_3_eq_3)
  from place_step[OF place_inv_empty rok]
  obtain c1 where c1: "placeRoom ?c0 ?r = Inr c1" "place_inv c1 ([] @ [?r])"
    by (auto simp: isAreaEmpty_createEmptyDungeon DUNGEON_SIZE_width_def DUNGEON_SIZE_height_def)
  have "placeRooms rnd = placeLoop rnd c1 [?r] 1 4"
    unfolding placeRooms_def
    apply (subst placeLoop.simps)
    using c1(1)
    apply (simp add: Let_def MAX_ROOMS_def isAreaEmpty_createEmptyDungeon
        DUNGEON_SIZE_width_def DUNGEON_SIZE_height_def w_def h_def numeral_2_eq_2 numeral_3_eq_3)
    done
  moreover from placeLoop_inv[OF rnd c1(2), of 1 4]
  obtain cells rooms k where res: "placeLoop rnd c1 [?r] 1 4 = Inr (cells, rooms, k)" by auto
  moreover from placeLoop_prefix[OF res] obtain ext where "rooms = ?r # ext" by auto
  ultimately show ?thesis by auto
qed

lemma check_passes:
  assumes inv: "place_inv cells rooms" and r: "room_ok r"
    and apart: "\<forall>r'\<in>set rooms. rooms_apart (ROOM_SEPARATION + 1) r' r"
  shows "isAreaEmpty cells (room_x r - ROOM_SEPARATION) (room_y r - ROOM_SEPARATION)
            (room_width r + ROOM_SEPARATION * 2) (room_height r + ROOM_SEPARATION * 2) = Inr True"
proof -
  let ?W = DUNGEON_SIZE_width and ?H = DUNGEON_SIZE_height
  from inv have dims: "grid_dims cells ?W ?H" by (simp add: place_inv_def)
  have Hpos: "0 < ?H" by (simp add: DUNGEON_SIZE_height_def)
  have "typeAt cells j i = Some CT_empty"
    if b: "max 0 (room_y r - ROOM_SEPARATION) \<le> j"
        "j < min ?H (room_y r - ROOM_SEPARATION + (room_height r + ROOM_SEPARATION * 2))"
        "max 0 (room_x r - ROOM_SEPARATION) \<le> i"
        "i < min ?W (room_x r - ROOM_SEPARATION + (room_width r + ROOM_SEPARATION * 2))" for j i
  proof -
    have "\<not> in_room r' i j" if r': "r' \<in> set rooms" for r'
    proof
      assume a: "in_room r' i j"
      define x where "x = max (room_x r) (min i (room_x r + room_width r - 1))"
      define y where "y = max (room_y r) (min j (room_y r + room_height r - 1))"
      from r have sz: "0 < room_width r" "0 < room_height r"
        by (auto simp: room_ok_def MIN_ROOM_SIZE_width_def MIN_ROOM_SIZE_height_def)
      have inr: "in_room r x y" using sz by (auto simp: in_room_def x_def y_def)
      have near: "\<bar>i - x\<bar> \<le> ROOM_SEPARATION" "\<bar>j - y\<bar> \<le> ROOM_SEPARATION"
        using b sz by (auto simp: x_def y_def ROOM_SEPARATION_def)
      from apart r' a inr have "ROOM_SEPARATION + 1 \<le> max \<bar>i - x\<bar> \<bar>j - y\<bar>"
        by (auto simp: rooms_apart_def)
      with near show False by auto
    qed
    moreover have "0 \<le> j \<and> j < ?H \<and> 0 \<le> i \<and> i < ?W" using b by auto
    ultimately show ?thesis using inv by (auto simp: place_inv_def)
  qed
  then show ?thesis by (simp add: isAreaEmpty_char[OF dims Hpos])
qed

lemma placeLoop_accept:
  fixes rnd :: "nat \<Rightarrow> real" and k :: nat
  assumes inv: "place_inv cells rooms"
    and cont: "length rooms < MAX_ROOMS" "attempts < MAX_ROOMS * 8"
  defines "w \<equiv> \<lfloor>rnd k * real_of_int (MAX_ROOM_SIZE_width - MIN_ROOM_SIZE_width + 1)\<rfloor> + MIN_ROOM_SIZE_width"
    and "h \<equiv> \<lfloor>rnd (k + 1) * real_of_int (MAX_ROOM_SIZE_height - MIN_ROOM_SIZE_height + 1)\<rfloor> + MIN_ROOM_SIZE_height"
  defines "r \<equiv> newRoomAt \<lfloor>rnd (k + 2) * real_of_int (DUNGEON_SIZE_width - w)\<rfloor>
            \<lfloor>rnd (k + 3) * real_of_int (DUNGEON_SIZE_height - h)\<rfloor> w h"
  assumes rok: "room_ok r"
    and apart: "\<forall>r'\<in>set rooms. rooms_apart (ROOM_SEPARATION + 1) r' r"
  shows "\<exists>c1. place_inv c1 (rooms @ [r]) \<and>
     placeLoop rnd cells rooms attempts k = placeLoop rnd c1 (rooms @ [r]) (attempts + 1) (k + 4)"
proof -
  have chk: "isAreaEmpty cells (room_x r - ROOM_SEPARATION) (room_y r - ROOM_SEPARATION)
            (room_width r + ROOM_SEPARATION * 2) (room_height r + ROOM_SEPARATION * 2) = Inr True"
    by (rule check_passes[OF inv rok apart])
  with place_step[OF inv rok] obtain c1 where c1: "placeRoom cells r = Inr c1" "place_inv c1 (rooms @ [r])"
    by auto
  have rf: "room_x r = \<lfloor>rnd (k + 2) * real_of_int (DUNGEON_SIZE_width - w)\<rfloor>"
    "room_y r = \<lfloor>rnd (k + 3) * real_of_int (DUNGEON_SIZE_height - h)\<rfloor>"
    "room_width r = w" "room_height r = h"
    by (simp_all add: r_def newRoomAt_def)
  have "placeLoop rnd cells rooms attempts k = placeLoop rnd c1 (rooms @ [r]) (attempts + 1) (k + 4)"
    apply (subst placeLoop.simps)
    apply (simp only: cont if_True simp_thms Let_def)
    apply (fold w_def h_def)
    apply (fold r_def)
    using chk c1(1) apply (simp add: rf)
    done
  with c1 show ?thesis by blast
qed

lemma placeRooms_two:
  "\<exists>cells ext k. placeRooms draws_two_rooms =
      Inr (cells, newRoomAt 0 0 3 3 # newRoomAt 20 20 7 7 # ext, k)"
proof -
  let ?rnd = draws_two_rooms
  let ?r1 = "newRoomAt 0 0 3 3" and ?r2 = "newRoomAt 20 20 7 7"
  let ?c0 = "createEmptyDungeon DUNGEON_SIZE_width DUNGEON_SIZE_height"
  note cs = MIN_ROOM_SIZE_width_def MIN_ROOM_SIZE_height_def
        MAX_ROOM_SIZE_width_def MAX_ROOM_SIZE_height_def DUNGEON_SIZE_width_def DUNGEON_SIZE_height_def
  have rnd: "\<forall>i. 0 \<le> ?rnd i \<and> ?rnd i < 1" by (simp add: draws_two_rooms_def)
  have ok1: "room_ok ?r1" and ok2: "room_ok ?r2"
    by (simp_all add: room_ok_def newRoomAt_def floor_half cs)
  have fl: "\<lfloor>(9::real) / 10 * 5\<rfloor> = 4" "\<lfloor>(9::real) / 10 * 23\<rfloor> = 20" by (simp_all add: floor_eq_iff)
  have e1: "newRoomAt
     \<lfloor>?rnd (0 + 2) * real_of_int (DUNGEON_SIZE_width -
        (\<lfloor>?rnd 0 * real_of_int (MAX_ROOM_SIZE_width - MIN_ROOM_SIZE_width + 1)\<rfloor> + MIN_ROOM_SIZE_width))\<rfloor>
     \<lfloor>?rnd (0 + 3) * real_of_int (DUNGEON_SIZE_height -
        (\<lfloor>?rnd (0 + 1) * real_of_int (MAX_ROOM_SIZE_height - MIN_ROOM_SIZE_height + 1)\<rfloor> + MIN_ROOM_SIZE_height))\<rfloor>
     (\<lfloor>?rnd 0 * real_of_int (MAX_ROOM_SIZE_width - MIN_ROOM_SIZE_width + 1)\<rfloor> + MIN_ROOM_SIZE_width)
     (\<lfloor>?rnd (0 + 1) * real_of_int (MAX_ROOM_SIZE_height - MIN_ROOM_SIZE_height + 1)\<rfloor> + MIN_ROOM_SIZE_height)
     = ?r1"
    by (simp add: draws_two_rooms_def cs)
  have e2: "newRoomAt
     \<lfloor>?rnd (4 + 2) * real_of_int (DUNGEON_SIZE_width -
        (\<lfloor>?rnd 4 * real_of_int (MAX_ROOM_SIZE_width - MIN_ROOM_SIZE_width + 1)\<rfloor> + MIN_ROOM_SIZE_width))\<rfloor>
     \<lfloor>?rnd (4 + 3) * real_of_int (DUNGEON_SIZE_height -
        (\<lfloor>?rnd (4 + 1) * real_of_int (MAX_ROOM_SIZE_height - MIN_ROOM_SIZE_height + 1)\<rfloor> + MIN_ROOM_SIZE_height))\<rfloor>
     (\<lfloor>?rnd 4 * real_of_int (MAX_ROOM_SIZE_width - MIN_ROOM_SIZE_width + 1)\<rfloor> + MIN_ROOM_SIZE_width)
     (\<lfloor>?rnd (4 + 1) * real_of_int (MAX_ROOM_SIZE_height - MIN_ROOM_SIZE_height + 1)\<rfloor> + MIN_ROOM_SIZE_height)
     = ?r2"
    by (simp add: draws_two_rooms_def cs fl)
  have t: "(0::nat) + 1 = 1" "(0::nat) + 4 = 4" "(1::nat) + 1 = 2" "(4::nat) + 4 = 8"
    "[] @ [?r1] = [?r1]" "[?r1] @ [?r2] = [?r1, ?r2]"
    by simp_all
  have "\<exists>c1. place_inv c1 [?r1] \<and>
     placeLoop ?rnd ?c0 [] 0 0 = placeLoop ?rnd c1 [?r1] 1 4"
    by (rule placeLoop_accept[OF place_inv_empty, of 0 ?rnd 0, unfolded e1, unfolded t])
       (use ok1 in \<open>simp_all add: MAX_ROOMS_def\<close>)
  then obtain c1 where c1: "place_inv c1 [?r1]"
    "placeRooms ?rnd = placeLoop ?rnd c1 [?r1] 1 4"
    by (auto simp: placeRooms_def)
  have apart: "\<forall>r'\<in>set [?r1]. rooms_apart (ROOM_SEPARATION + 1) r' ?r2"
    by (auto simp: rooms_apart_def in_room_def newRoomAt_def ROOM_SEPARATION_def)
  have "\<exists>c2. place_inv c2 [?r1, ?r2] \<and>
     placeLoop ?rnd c1 [?r1] 1 4 = placeLoop ?rnd c2 [?r1, ?r2] 2 8"
    by (rule placeLoop_accept[OF c1(1), of 1 ?rnd 4, unfolded e2, unfolded t])
       (use ok2 apart in \<open>simp_all add: MAX_ROOMS_def\<close>)
  then obtain c2 where c2: "place_inv c2 [?r1, ?r2]"
    "placeLoop ?rnd c1 [?r1] 1 4 = placeLoop ?rnd c2 [?r1, ?r2] 2 8"
    by auto
  from placeLoop_inv[OF rnd c2(1), of 2 8]
  obtain cells rooms k where res: "placeLoop ?rnd c2 [?r1, ?r2] 2 8 = Inr (cells, rooms, k)" by auto
  from placeLoop_prefix[OF res] obtain ext where "rooms = ?r1 # ?r2 # ext" by auto
  with res c1(2) c2(2) show ?thesis by auto
qed

lemma createDungeon_rooms:
  "placeRooms rnd = Inr (cells, rooms, k) \<Longrightarrow> createDungeon rnd = Some (Inr d) \<Longrightarrow>
   dungeon_rooms d = rooms"
  by (auto simp: createDungeon_def Let_def split: sum.splits option.splits prod.splits)

lemma isAreaEmpty_clip:
  assumes "grid_dims cells W H"
  shows "isAreaEmpty cells x y w h =
     Inr (\<forall>j i. 0 \<le> j \<and> j < H \<and> 0 \<le> i \<and> i < W \<and> y \<le> j \<and> j < y + h \<and> x \<le> i \<and> i < x + w
            \<longrightarrow> typeAt cells j i = Some CT_empty)"
proof (cases "0 < H")
  case True
  show ?thesis unfolding isAreaEmpty_char[OF assms True] by auto
next
  case False
  with assms have "cells = []" "H = 0" by (auto simp: grid_dims_def)
  then show ?thesis by (auto simp: isAreaEmpty_def)
qed

lemma check_iff_apart:
  assumes inv: "place_inv cells rooms" and r: "room_ok r"
  shows "isAreaEmpty cells (room_x r - ROOM_SEPARATION) (room_y r - ROOM_SEPARATION)
            (room_width r + ROOM_SEPARATION * 2) (room_height r + ROOM_SEPARATION * 2) =
         Inr (\<forall>r'\<in>set rooms. rooms_apart (ROOM_SEPARATION + 1) r' r)"
proof (cases "\<forall>r'\<in>set rooms. rooms_apart (ROOM_SEPARATION + 1) r' r")
  case True
  then show ?thesis using check_passes[OF inv r] by simp
next
  case False
  from place_step[OF inv r] obtain ok where ok:
    "isAreaEmpty cells (room_x r - ROOM_SEPARATION) (room_y r - ROOM_SEPARATION)
            (room_width r + ROOM_SEPARATION * 2) (room_height r + ROOM_SEPARATION * 2) = Inr ok"
    "ok \<longrightarrow> (\<exists>cells'. place_inv cells' (rooms @ [r]))" by blast
  have "\<not> ok"
  proof
    assume ok
    with ok(2) obtain c' where c': "place_inv c' (rooms @ [r])" by blast
    have "rooms_apart (ROOM_SEPARATION + 1) r' r" if "r' \<in> set rooms" for r'
    proof -
      from that obtain m where m: "m < length rooms" "rooms ! m = r'" by (auto simp: in_set_conv_nth)
      from c' have "\<forall>m<length (rooms @ [r]). \<forall>n<length (rooms @ [r]). m \<noteq> n \<longrightarrow>
          rooms_apart (ROOM_SEPARATION + 1) ((rooms @ [r]) ! m) ((rooms @ [r]) ! n)"
        unfolding place_inv_def by blast
      from this[rule_format, of m "length rooms"] m(1)
      have "rooms_apart (ROOM_SEPARATION + 1) ((rooms @ [r]) ! m) ((rooms @ [r]) ! length rooms)"
        by simp
      with m show ?thesis by (simp add: nth_append)
    qed
    with False show False by blast
  qed
  with ok(1) False show ?thesis by simp
qed

section \<open>Properties of carving\<close>

lemma cellAt_typeAt: "cellAt cells j i = Some c \<Longrightarrow> typeAt cells j i = Some (cell_type c)"
  by (simp add: typeAt_def)

lemma carveCells_typeAt:
  "carveCells cells cols rows path = Inr cells' \<Longrightarrow>
   typeAt cells' j i =
     (if (i, j) \<in> set path \<and> 0 \<le> j \<and> j < rows \<and> 0 \<le> i \<and> i < cols \<and>
         typeAt cells j i \<noteq> Some CT_room
      then Some CT_corridor else typeAt cells j i)"
proof (induction path arbitrary: cells)
  case Nil
  then show ?case by simp
next
  case (Cons p path)
  obtain x y where p: "p = (x, y)" by (cases p)
  show ?case
  proof (cases "y < 0 \<or> y \<ge> rows \<or> x < 0 \<or> x \<ge> cols")
    case True
    with Cons.prems p have "carveCells cells cols rows path = Inr cells'" by simp
    from Cons.IH[OF this] True p show ?thesis by auto
  next
    case inb: False
    with Cons.prems p obtain c where c: "cellAt cells y x = Some c"
      by (auto split: option.splits)
    show ?thesis
    proof (cases "cell_type c = CT_room")
      case True
      with Cons.prems p inb c have "carveCells cells cols rows path = Inr cells'" by simp
      from Cons.IH[OF this] True p cellAt_typeAt[OF c] show ?thesis by auto
    next
      case False
      with Cons.prems p inb c obtain c1 where c1: "setType cells y x CT_corridor = Inr c1"
        and r: "carveCells c1 cols rows path = Inr cells'"
        by (auto split: sum.splits)
      from Cons.IH[OF r] setType_typeAt[OF c1] False p inb cellAt_typeAt[OF c]
      show ?thesis by auto
    qed
  qed
qed

lemma carveCells_dims:
  "carveCells cells cols rows path = Inr cells' \<Longrightarrow> grid_dims cells W H \<Longrightarrow> grid_dims cells' W H"
proof (induction path arbitrary: cells)
  case Nil
  then show ?case by simp
next
  case (Cons p path)
  then show ?case
    by (auto split: if_splits option.splits sum.splits dest: setType_dims)
qed

lemma carveCells_rooms:
  "carveCells cells cols rows path = Inr cells' \<Longrightarrow>
   (typeAt cells' j i = Some CT_room) = (typeAt cells j i = Some CT_room)"
  by (simp add: carveCells_typeAt)

lemma placeRoom_row_keeps_rooms:
  "placeRoom_row cells y xs = Inr cells' \<Longrightarrow> typeAt cells j i = Some CT_room \<Longrightarrow>
   typeAt cells' j i = Some CT_room"
proof (induction xs arbitrary: cells)
  case Nil
  then show ?case by simp
next
  case (Cons x xs)
  from Cons.prems(1) obtain c1 where c1: "setType cells y x CT_room = Inr c1"
    and r: "placeRoom_row c1 y xs = Inr cells'"
    by (auto split: sum.splits)
  from setType_typeAt[OF c1] Cons.prems(2) have "typeAt c1 j i = Some CT_room" by auto
  from Cons.IH[OF r this] show ?case .
qed

lemma placeRoom_rows_keeps_rooms:
  "placeRoom_rows cells ys xs = Inr cells' \<Longrightarrow> typeAt cells j i = Some CT_room \<Longrightarrow>
   typeAt cells' j i = Some CT_room"
proof (induction ys arbitrary: cells)
  case Nil
  then show ?case by simp
next
  case (Cons y ys)
  from Cons.prems(1) obtain c1 where c1: "placeRoom_row cells y xs = Inr c1"
    and r: "placeRoom_rows c1 ys xs = Inr cells'"
    by (auto split: sum.splits)
  from Cons.IH[OF r placeRoom_row_keeps_rooms[OF c1 Cons.prems(2)]] show ?case .
qed

lemma tryPolylines_cases:
  "tryPolylines cells rooms cols rows aIdx bIdx s e polys = Some (Inr (carved, cells')) \<Longrightarrow>
   (\<not> carved \<and> cells' = cells) \<or>
   (carved \<and> (\<exists>poly\<in>set polys. \<exists>path. polylineToCells poly = Some path \<and>
       validatePath cells rooms cols rows aIdx bIdx s e path = Inr False \<and>
       createsCorridorSquare cells cols rows path = Inr False \<and>
       carveCells cells cols rows path = Inr cells'))"
proof (induction polys)
  case Nil
  then show ?case by simp
next
  case (Cons poly polys)
  then show ?case
    by (auto split: option.splits sum.splits if_splits)
qed

lemma carveCorridorBetween_cases:
  assumes "carveCorridorBetween cells rooms pnts cols rows aIdx bIdx = Some (Inr (carved, cells'))"
  shows "(\<not> carved \<and> cells' = cells) \<or>
   (carved \<and> (\<exists>s e. exitCellFromCenter rooms cols rows aIdx (nthOpt pnts bIdx) = Some (Inr s) \<and>
       exitCellFromCenter rooms cols rows bIdx (nthOpt pnts aIdx) = Some (Inr e) \<and>
       (\<exists>poly\<in>set (candidatePolylines cols rows s e). \<exists>path. polylineToCells poly = Some path \<and>
       validatePath cells rooms cols rows aIdx bIdx s e path = Inr False \<and>
       createsCorridorSquare cells cols rows path = Inr False \<and>
       carveCells cells cols rows path = Inr cells')))"
proof -
  from assms obtain s e where s: "exitCellFromCenter rooms cols rows aIdx (nthOpt pnts bIdx) = Some (Inr s)"
    and e: "exitCellFromCenter rooms cols rows bIdx (nthOpt pnts aIdx) = Some (Inr e)"
    and t: "tryPolylines cells rooms cols rows aIdx bIdx s e (candidatePolylines cols rows s e)
          = Some (Inr (carved, cells'))"
    by (auto simp: carveCorridorBetween_def Let_def split: option.splits sum.splits)
  from tryPolylines_cases[OF t] s e show ?thesis by blast
qed

lemma carveCorridorBetween_rooms:
  assumes "carveCorridorBetween cells rooms pnts cols rows aIdx bIdx = Some (Inr (carved, cells'))"
  shows "(typeAt cells' j i = Some CT_room) = (typeAt cells j i = Some CT_room)"
  using carveCorridorBetween_cases[OF assms]
  by (auto simp: carveCells_rooms)

lemma carveAll_rooms:
  "carveAll cells rooms pnts cols rows es = Some (Inr cells') \<Longrightarrow>
   (typeAt cells' j i = Some CT_room) = (typeAt cells j i = Some CT_room)"
proof (induction es arbitrary: cells)
  case Nil
  then show ?case by simp
next
  case (Cons e es)
  from Cons.prems obtain carved c1 where
    c1: "carveCorridorBetween cells rooms pnts cols rows (edge_a e) (edge_b e) = Some (Inr (carved, c1))"
    and r: "carveAll c1 rooms pnts cols rows es = Some (Inr cells')"
    by (auto split: option.splits sum.splits)
  from Cons.IH[OF r] carveCorridorBetween_rooms[OF c1] show ?case by simp
qed

lemma placeRoom_keeps_rooms:
  "placeRoom cells r = Inr cells' \<Longrightarrow> typeAt cells j i = Some CT_room \<Longrightarrow>
   typeAt cells' j i = Some CT_room"
  unfolding placeRoom_def by (rule placeRoom_rows_keeps_rooms)

lemma placeLoop_keeps_rooms:
  "placeLoop rnd cells rooms attempts k = Inr (cells', rooms', k') \<Longrightarrow>
   typeAt cells j i = Some CT_room \<Longrightarrow> typeAt cells' j i = Some CT_room"
proof (induction rnd cells rooms attempts k rule: placeLoop.induct)
  case (1 rnd cells rooms attempts k)
  show ?case
  proof (cases "length rooms < MAX_ROOMS \<and> attempts < MAX_ROOMS * 8")
    case False
    with "1.prems" show ?thesis by (subst (asm) placeLoop.simps) (simp only: if_False, simp)
  next
    case True
    define w where "w = \<lfloor>rnd k * real_of_int (MAX_ROOM_SIZE_width - MIN_ROOM_SIZE_width + 1)\<rfloor> + MIN_ROOM_SIZE_width"
    define h where "h = \<lfloor>rnd (k + 1) * real_of_int (MAX_ROOM_SIZE_height - MIN_ROOM_SIZE_height + 1)\<rfloor> + MIN_ROOM_SIZE_height"
    define X where "X = \<lfloor>rnd (k + 2) * real_of_int (DUNGEON_SIZE_width - w)\<rfloor>"
    define Y where "Y = \<lfloor>rnd (k + 3) * real_of_int (DUNGEON_SIZE_height - h)\<rfloor>"
    define r where "r = newRoomAt X Y w h"
    define chk where "chk = isAreaEmpty cells (X - ROOM_SEPARATION) (Y - ROOM_SEPARATION)
            (w + ROOM_SEPARATION * 2) (h + ROOM_SEPARATION * 2)"
    have unfold: "placeLoop rnd cells rooms attempts k =
      (case chk of
         Inl e \<Rightarrow> Inl e
       | Inr ok \<Rightarrow> if ok then (case placeRoom cells r of Inl e \<Rightarrow> Inl e
            | Inr cells' \<Rightarrow> placeLoop rnd cells' (rooms @ [r]) (attempts + 1) (k + 4))
          else placeLoop rnd cells rooms (attempts + 1) (k + 4))"
      apply (subst placeLoop.simps)
      apply (simp only: True if_True Let_def X_def Y_def w_def h_def r_def chk_def simp_thms)
      done
    from "1.prems"(1) obtain ok where ok: "chk = Inr ok"
      unfolding unfold by (cases chk) auto
    show ?thesis
    proof (cases ok)
      case False
      with "1.prems"(1) ok have "placeLoop rnd cells rooms (attempts + 1) (k + 4) = Inr (cells', rooms', k')"
        by (simp add: unfold)
      then show ?thesis
        by (rule "1.IH"(2)[OF True refl refl refl refl refl refl refl refl
              ok[unfolded chk_def X_def Y_def w_def h_def] False _ "1.prems"(2)])
    next
      case t: True
      with "1.prems"(1) ok obtain c1 where c1: "placeRoom cells r = Inr c1"
        and res: "placeLoop rnd c1 (rooms @ [r]) (attempts + 1) (k + 4) = Inr (cells', rooms', k')"
        by (cases "placeRoom cells r") (auto simp: unfold)
      show ?thesis
        by (rule "1.IH"(1)[OF True refl refl refl refl refl refl refl refl
              ok[unfolded chk_def X_def Y_def w_def h_def] t
              c1[unfolded r_def X_def Y_def w_def h_def]
              res[unfolded r_def X_def Y_def w_def h_def]
              placeRoom_keeps_rooms[OF c1 "1.prems"(2)]])
    qed
  qed
qed

lemma createDungeon_cells:
  "placeRooms rnd = Inr (cells, rooms, k) \<Longrightarrow> createDungeon rnd = Some (Inr d) \<Longrightarrow>
   \<exists>es. carveAll cells rooms (roomCenters rooms) (gridCols cells) (gridRows cells) es
          = Some (Inr (dungeon_cells d))"
  by (auto simp: createDungeon_def Let_def split: sum.splits option.splits prod.splits)

section \<open>The corridor router\<close>


lemma roomIndexAt_from_lower:
  "roomIndexAt_from rs i x y = - 1 \<or> i \<le> roomIndexAt_from rs i x y"
proof (induction rs arbitrary: i)
  case Nil
  then show ?case by simp
next
  case (Cons r rs)
  from Cons[of "i + 1"] show ?case by auto
qed

lemma roomIndexAt_from_some:
  "roomIndexAt_from rs i x y = i + int k \<Longrightarrow> 0 \<le> i \<Longrightarrow> k < length rs \<and> in_room (rs ! k) x y"
proof (induction rs arbitrary: i k)
  case Nil
  then show ?case by simp
next
  case (Cons r rs)
  show ?case
  proof (cases "in_room r x y")
    case True
    with Cons.prems have "k = 0" by (simp add: in_room_def)
    with True show ?thesis by simp
  next
    case False
    with Cons.prems have e: "roomIndexAt_from rs (i + 1) x y = i + int k"
      by (auto simp: in_room_def)
    from roomIndexAt_from_lower[of rs "i + 1" x y] e Cons.prems(2) have "i + 1 \<le> i + int k"
      by linarith
    then obtain k' where k': "k = Suc k'" by (cases k) auto
    with e have "roomIndexAt_from rs (i + 1) x y = (i + 1) + int k'" by simp
    from Cons.IH[OF this] Cons.prems(2) k' show ?thesis by simp
  qed
qed


lemma roomIndexAt_some:
  "roomIndexAt rooms x y = int k \<Longrightarrow> k < length rooms \<and> in_room (rooms ! k) x y"
  unfolding roomIndexAt_def using roomIndexAt_from_some[of rooms 0 x y k] by simp

lemma distToRoom_axis:
  "distToRoom rooms k x y =
     max (axisDist (room_x (rooms ! k)) (room_x (rooms ! k) + room_width (rooms ! k) - 1) x)
         (axisDist (room_y (rooms ! k)) (room_y (rooms ! k) + room_height (rooms ! k) - 1) y)"
  by (simp add: distToRoom_def Let_def axisDist_def)

lemma axisDist_inside: "lo \<le> p \<Longrightarrow> p \<le> hi \<Longrightarrow> axisDist lo hi p = 0"
  by (simp add: axisDist_def)

lemma axisDist_step: "\<bar>p' - p\<bar> \<le> 1 \<Longrightarrow> lo \<le> hi \<Longrightarrow> axisDist lo hi p' \<le> axisDist lo hi p + 1"
  unfolding axisDist_def by (auto split: if_splits)

lemma axisDist_nonneg: "lo \<le> hi \<Longrightarrow> 0 \<le> axisDist lo hi p"
  by (simp add: axisDist_def)

lemma axisDist_nearest:
  "lo \<le> hi \<Longrightarrow> lo \<le> max lo (min p hi) \<and> max lo (min p hi) \<le> hi \<and>
     \<bar>p - max lo (min p hi)\<bar> = axisDist lo hi p"
  by (simp add: axisDist_def max_def min_def)

lemma axisDist_le: "lo \<le> c \<Longrightarrow> c \<le> hi \<Longrightarrow> axisDist lo hi p \<le> \<bar>p - c\<bar>"
  by (simp add: axisDist_def)

lemma distToRoom_inside: "in_room (rooms ! k) x y \<Longrightarrow> distToRoom rooms k x y = 0"
  unfolding distToRoom_axis by (simp add: in_room_def axisDist_inside)

lemma distToRoom_step:
  assumes "\<bar>x' - x\<bar> \<le> 1" "\<bar>y' - y\<bar> \<le> 1" "0 < room_width (rooms ! k)" "0 < room_height (rooms ! k)"
  shows "distToRoom rooms k x' y' \<le> distToRoom rooms k x y + 1"
proof -
  let ?r = "rooms ! k"
  have "axisDist (room_x ?r) (room_x ?r + room_width ?r - 1) x'
      \<le> axisDist (room_x ?r) (room_x ?r + room_width ?r - 1) x + 1"
    using assms by (intro axisDist_step) auto
  moreover have "axisDist (room_y ?r) (room_y ?r + room_height ?r - 1) y'
      \<le> axisDist (room_y ?r) (room_y ?r + room_height ?r - 1) y + 1"
    using assms by (intro axisDist_step) auto
  ultimately show ?thesis unfolding distToRoom_axis by linarith
qed

lemma distToRoom_nearest:
  assumes "0 < room_width (rooms ! k)" "0 < room_height (rooms ! k)"
  shows "\<exists>x' y'. in_room (rooms ! k) x' y' \<and> max \<bar>x - x'\<bar> \<bar>y - y'\<bar> = distToRoom rooms k x y"
proof -
  let ?r = "rooms ! k"
  let ?x = "max (room_x ?r) (min x (room_x ?r + room_width ?r - 1))"
  let ?y = "max (room_y ?r) (min y (room_y ?r + room_height ?r - 1))"
  have x: "room_x ?r \<le> ?x \<and> ?x \<le> room_x ?r + room_width ?r - 1 \<and>
     \<bar>x - ?x\<bar> = axisDist (room_x ?r) (room_x ?r + room_width ?r - 1) x"
    using assms by (intro axisDist_nearest) simp
  have y: "room_y ?r \<le> ?y \<and> ?y \<le> room_y ?r + room_height ?r - 1 \<and>
     \<bar>y - ?y\<bar> = axisDist (room_y ?r) (room_y ?r + room_height ?r - 1) y"
    using assms by (intro axisDist_nearest) simp
  have "in_room ?r ?x ?y" using x y by (simp add: in_room_def)
  moreover have "max \<bar>x - ?x\<bar> \<bar>y - ?y\<bar> = distToRoom rooms k x y"
    unfolding distToRoom_axis using x y by simp
  ultimately show ?thesis by blast
qed

lemma distToRoom_le:
  assumes "in_room (rooms ! k) x' y'"
  shows "distToRoom rooms k x y \<le> max \<bar>x - x'\<bar> \<bar>y - y'\<bar>"
proof -
  let ?r = "rooms ! k"
  have "axisDist (room_x ?r) (room_x ?r + room_width ?r - 1) x \<le> \<bar>x - x'\<bar>"
    using assms by (intro axisDist_le) (auto simp: in_room_def)
  moreover have "axisDist (room_y ?r) (room_y ?r + room_height ?r - 1) y \<le> \<bar>y - y'\<bar>"
    using assms by (intro axisDist_le) (auto simp: in_room_def)
  ultimately show ?thesis unfolding distToRoom_axis by linarith
qed

lemma exitWalk_total:
  assumes step: "if primaryX then stepX = 1 \<or> stepX = - 1 else stepY = 1 \<or> stepY = - 1"
    and wf: "0 < room_width (rooms ! a)" "0 < room_height (rooms ! a)"
    and m: "m = nat (if primaryX then (if 0 < stepX then cols - x else x + 1)
                     else (if 0 < stepY then rows - y else y + 1))"
    and start: "distToRoom rooms a x y \<le> 1"
  shows "\<exists>res. exitWalk rooms cols rows a primaryX stepX stepY x y = Some res \<and>
           (\<forall>p. res = Some p \<longrightarrow> distToRoom rooms a (fst p) (snd p) \<le> 1)"
  using m start
proof (induction m arbitrary: x y rule: less_induct)
  case (less m)
  show ?case
  proof (cases "x \<ge> 0 \<and> x < cols \<and> y \<ge> 0 \<and> y < rows")
    case False
    then show ?thesis by (subst exitWalk.simps) auto
  next
    case grid: True
    show ?thesis
    proof (cases "roomIndexAt rooms x y \<noteq> int a")
      case True
      with grid less.prems show ?thesis by (subst exitWalk.simps) auto
    next
      case False
      then have "in_room (rooms ! a) x y" using roomIndexAt_some[of rooms x y a] by simp
      then have d0: "distToRoom rooms a x y = 0" by (rule distToRoom_inside)
      show ?thesis
      proof (cases primaryX)
        case True
        let ?x = "x + stepX"
        have s: "stepX = 1 \<or> stepX = - 1" using step True by simp
        have d: "distToRoom rooms a ?x y \<le> 1"
          using distToRoom_step[of ?x x y y rooms a] wf d0 s by auto
        have lt: "nat (if primaryX then (if 0 < stepX then cols - ?x else ?x + 1)
                     else (if 0 < stepY then rows - y else y + 1)) < m"
          using True s grid less.prems(1) by auto
        from less.IH[OF lt refl d]
        show ?thesis using grid False True by (subst exitWalk.simps) simp
      next
        case notX: False
        let ?y = "y + stepY"
        have s: "stepY = 1 \<or> stepY = - 1" using step notX by simp
        have d: "distToRoom rooms a x ?y \<le> 1"
          using distToRoom_step[of x x ?y y rooms a] wf d0 s by auto
        have lt: "nat (if primaryX then (if 0 < stepX then cols - x else x + 1)
                     else (if 0 < stepY then rows - ?y else ?y + 1)) < m"
          using notX s grid less.prems(1) by auto
        from less.IH[OF lt refl d]
        show ?thesis using grid False notX by (subst exitWalk.simps) simp
      qed
    qed
  qed
qed

lemma perimeterScan_in:
  "perimeterScan rooms cols rows cs = Some p \<Longrightarrow> (snd p, fst p) \<in> set cs"
  by (induction cs) (auto split: if_splits)

lemma perimeter_dist:
  assumes "(j, i) \<in> set (List.product [room_y (rooms ! a) - 1..room_y (rooms ! a) + room_height (rooms ! a)]
                         [room_x (rooms ! a) - 1..room_x (rooms ! a) + room_width (rooms ! a)])"
    and "0 < room_width (rooms ! a)" "0 < room_height (rooms ! a)"
  shows "distToRoom rooms a i j \<le> 1"
  using assms unfolding distToRoom_axis by (auto simp: axisDist_def)

lemma exitCellFromCenter_total:
  assumes a: "a < length rooms"
    and wf: "0 < room_width (rooms ! a)" "0 < room_height (rooms ! a)"
    and c: "in_room (rooms ! a) (fst (room_center (rooms ! a))) (snd (room_center (rooms ! a)))"
    and t: "pt_x tgt \<noteq> real_of_int (fst (room_center (rooms ! a))) \<or>
            pt_y tgt \<noteq> real_of_int (snd (room_center (rooms ! a)))"
  shows "\<exists>s. exitCellFromCenter rooms cols rows a (Some tgt) = Some (Inr s) \<and>
           distToRoom rooms a (fst s) (snd s) \<le> 1"
proof -
  let ?r = "rooms ! a"
  let ?cx = "fst (room_center ?r)"
  let ?cy = "snd (room_center ?r)"
  let ?dx = "pt_x tgt - real_of_int ?cx"
  let ?dy = "pt_y tgt - real_of_int ?cy"
  let ?stepX = "if ?dx = 0 then 0 else if ?dx > 0 then 1 else (- 1 :: int)"
  let ?stepY = "if ?dy = 0 then 0 else if ?dy > 0 then 1 else (- 1 :: int)"
  let ?primaryX = "\<bar>?dx\<bar> \<ge> \<bar>?dy\<bar>"
  let ?ring = "List.product [room_y ?r - 1..room_y ?r + room_height ?r]
                          [room_x ?r - 1..room_x ?r + room_width ?r]"
  have nz: "?dx \<noteq> 0 \<or> ?dy \<noteq> 0" using t by auto
  have step: "if ?primaryX then ?stepX = 1 \<or> ?stepX = - 1 else ?stepY = 1 \<or> ?stepY = - 1"
    using nz by (cases "?dx = 0"; cases "?dy = 0"; cases "?dx > 0"; cases "?dy > 0") simp_all
  have d0: "distToRoom rooms a ?cx ?cy \<le> 1"
    using distToRoom_inside[OF c] by simp
  from exitWalk_total[OF step wf refl d0, of cols rows]
  obtain res where res: "exitWalk rooms cols rows a ?primaryX ?stepX ?stepY ?cx ?cy = Some res"
    and resd: "\<And>p. res = Some p \<Longrightarrow> distToRoom rooms a (fst p) (snd p) \<le> 1" by blast
  have n: "nthOpt rooms a = Some ?r" using a by (simp add: nthOpt_def)
  have unfold: "exitCellFromCenter rooms cols rows a (Some tgt) =
      (case res of Some p \<Rightarrow> Some (Inr p)
       | None \<Rightarrow> (case perimeterScan rooms cols rows ?ring of
                    Some p \<Rightarrow> Some (Inr p)
                  | None \<Rightarrow> Some (Inr (?cx, ?cy))))"
    unfolding exitCellFromCenter_def Let_def n option.case res ..
  show ?thesis
  proof (cases res)
    case (Some p)
    with unfold resd show ?thesis by simp
  next
    case None
    show ?thesis
    proof (cases "perimeterScan rooms cols rows ?ring")
      case n2: None
      from None show ?thesis unfolding unfold n2 using d0 by simp
    next
      case (Some p)
      from perimeter_dist[OF perimeterScan_in[OF Some] wf] Some None
      show ?thesis unfolding unfold by simp
    qed
  qed
qed

lemma lineCells_loop_total:
  assumes "x \<noteq> x1 \<longrightarrow> dx = (if x1 > x then 1 else - 1)"
    and "y \<noteq> y1 \<longrightarrow> dy = (if y1 > y then 1 else - 1)"
    and "m = nat (\<bar>x1 - x\<bar> + \<bar>y1 - y\<bar>)"
  shows "\<exists>cs. lineCells_loop x y x1 y1 dx dy out = Some (out @ cs) \<and>
           (\<forall>p\<in>set cs. inBox (x, y) (x1, y1) p)"
  using assms
proof (induction m arbitrary: x y out rule: less_induct)
  case (less m)
  show ?case
  proof (cases "x \<noteq> x1 \<or> y \<noteq> y1")
    case False
    then show ?thesis by (subst lineCells_loop.simps) simp
  next
    case True
    let ?x = "if x \<noteq> x1 then x + dx else x"
    let ?y = "if y \<noteq> y1 then y + dy else y"
    have lt: "nat (\<bar>x1 - ?x\<bar> + \<bar>y1 - ?y\<bar>) < m"
      using True less.prems by (auto split: if_splits)
    have hx: "?x \<noteq> x1 \<longrightarrow> dx = (if x1 > ?x then 1 else - 1)"
      using less.prems(1) by (auto split: if_splits)
    have hy: "?y \<noteq> y1 \<longrightarrow> dy = (if y1 > ?y then 1 else - 1)"
      using less.prems(2) by (auto split: if_splits)
    from less.IH[OF lt hx hy refl, of "out @ [(?x, ?y)]"]
    obtain cs where cs: "lineCells_loop ?x ?y x1 y1 dx dy (out @ [(?x, ?y)]) = Some ((out @ [(?x, ?y)]) @ cs)"
      and box: "\<forall>p\<in>set cs. inBox (?x, ?y) (x1, y1) p" by blast
    have eq: "lineCells_loop x y x1 y1 dx dy out = Some (out @ ((?x, ?y) # cs))"
      using True cs by (subst lineCells_loop.simps) simp
    have b1: "inBox (x, y) (x1, y1) (?x, ?y)"
      using less.prems(1,2) by (auto simp: inBox_def split: if_splits)
    have b2: "\<And>p. inBox (?x, ?y) (x1, y1) p \<Longrightarrow> inBox (x, y) (x1, y1) p"
      using less.prems(1,2) by (auto simp: inBox_def split: if_splits)
    from eq b1 b2 box show ?thesis by auto
  qed
qed

lemma lineCells_total:
  "\<exists>cs. lineCells x0 y0 x1 y1 = Some cs \<and> (\<forall>p\<in>set cs. inBox (x0, y0) (x1, y1) p)"
proof -
  let ?dx = "if x1 = x0 then 0 else if x1 > x0 then 1 else (- 1 :: int)"
  let ?dy = "if y1 = y0 then 0 else if y1 > y0 then 1 else (- 1 :: int)"
  have "\<exists>cs. lineCells_loop x0 y0 x1 y1 ?dx ?dy [(x0, y0)] = Some ([(x0, y0)] @ cs) \<and>
           (\<forall>p\<in>set cs. inBox (x0, y0) (x1, y1) p)"
    by (rule lineCells_loop_total[OF _ _ refl]) auto
  then obtain cs where cs: "lineCells_loop x0 y0 x1 y1 ?dx ?dy [(x0, y0)] = Some ([(x0, y0)] @ cs)"
    and box: "\<forall>p\<in>set cs. inBox (x0, y0) (x1, y1) p" by blast
  have "lineCells x0 y0 x1 y1 = Some ((x0, y0) # cs)"
    unfolding lineCells_def Let_def cs by simp
  moreover have "inBox (x0, y0) (x1, y1) (x0, y0)" by (simp add: inBox_def)
  ultimately show ?thesis using box by auto
qed

lemma polylineToCells_total:
  "\<exists>path. polylineToCells poly = Some path \<and> (\<forall>p\<in>set path. onPoly poly p)"
proof (induction poly rule: polylineToCells.induct)
  case (1 a b rest)
  show ?case
  proof (cases "fst a = fst b \<and> snd a = snd b")
    case True
    with 1(1) show ?thesis by auto
  next
    case False
    obtain seg where seg: "lineCells (fst a) (snd a) (fst b) (snd b) = Some seg"
      and sb: "\<forall>p\<in>set seg. inBox a b p"
      using lineCells_total[of "fst a" "snd a" "fst b" "snd b"] by auto
    from 1(2)[OF False seg] obtain out where "polylineToCells (b # rest) = Some out"
      and "\<forall>p\<in>set out. onPoly (b # rest) p" by blast
    with False seg sb show ?thesis by auto
  qed
qed simp_all

lemma uniquePolys_fold_subset:
  "set (fold (\<lambda>poly unique. if poly \<in> set unique then unique else unique @ [poly]) polys acc)
     \<subseteq> set polys \<union> set acc"
proof (induction polys arbitrary: acc)
  case Nil
  then show ?case by simp
next
  case (Cons a polys)
  show ?case using Cons[of acc] Cons[of "acc @ [a]"] by (cases "a \<in> set acc") auto
qed

lemma uniquePolys_subset: "set (uniquePolys polys) \<subseteq> set polys"
  unfolding uniquePolys_def using uniquePolys_fold_subset[of polys "[]"] by simp

lemma in_map_upto:
  "poly \<in> set (map f [lo..hi]) \<Longrightarrow> \<exists>off. lo \<le> off \<and> off \<le> hi \<and> poly = f off"
  by auto

lemma floor_mid: "\<lfloor>real_of_int n / 2\<rfloor> = n div 2"
  by (simp add: floor_divide_of_int_eq[of n 2, simplified])

lemma candidatePolylines_forms:
  assumes "poly \<in> set (candidatePolylines cols rows s e)"
  shows "(poly = [s, e] \<and> (fst s = fst e \<or> snd s = snd e)) \<or>
         poly = [s, (fst e, snd s), e] \<or> poly = [s, (fst s, snd e), e] \<or>
         (\<exists>off. - 2 \<le> off \<and> off \<le> 2 \<and>
            poly = [s, (clamp ((fst s + fst e) div 2 + off) 0 (cols - 1), snd s),
                       (clamp ((fst s + fst e) div 2 + off) 0 (cols - 1), snd e), e]) \<or>
         (\<exists>off. - 2 \<le> off \<and> off \<le> 2 \<and>
            poly = [s, (fst s, clamp ((snd s + snd e) div 2 + off) 0 (rows - 1)),
                       (fst e, clamp ((snd s + snd e) div 2 + off) 0 (rows - 1)), e])"
proof -
  let ?all = "(if fst s = fst e \<or> snd s = snd e then [[s, e]] else []) @
      [[s, (fst e, snd s), e], [s, (fst s, snd e), e]] @
      map (\<lambda>off. [s, (clamp ((fst s + fst e) div 2 + off) 0 (cols - 1), snd s),
                       (clamp ((fst s + fst e) div 2 + off) 0 (cols - 1), snd e), e]) [- 2..2] @
      map (\<lambda>off. [s, (fst s, clamp ((snd s + snd e) div 2 + off) 0 (rows - 1)),
                       (fst e, clamp ((snd s + snd e) div 2 + off) 0 (rows - 1)), e]) [- 2..2]"
  have "candidatePolylines cols rows s e = filter (\<lambda>p. length p \<le> 4) (uniquePolys ?all)"
    unfolding candidatePolylines_def Let_def floor_mid ..
  with assms have "poly \<in> set (uniquePolys ?all)" by simp
  with uniquePolys_subset have "poly \<in> set ?all" by blast
  then consider
      (a) "poly \<in> set (if fst s = fst e \<or> snd s = snd e then [[s, e]] else [])"
    | (b) "poly \<in> set [[s, (fst e, snd s), e], [s, (fst s, snd e), e]]"
    | (c) "poly \<in> set (map (\<lambda>off. [s, (clamp ((fst s + fst e) div 2 + off) 0 (cols - 1), snd s),
                       (clamp ((fst s + fst e) div 2 + off) 0 (cols - 1), snd e), e]) [- 2..2])"
    | (d) "poly \<in> set (map (\<lambda>off. [s, (fst s, clamp ((snd s + snd e) div 2 + off) 0 (rows - 1)),
                       (fst e, clamp ((snd s + snd e) div 2 + off) 0 (rows - 1)), e]) [- 2..2])"
    unfolding set_append Un_iff by blast
  then show ?thesis
  proof cases
    case a
    then show ?thesis by (simp split: if_splits)
  next
    case b
    then show ?thesis by fastforce
  next
    case c
    from in_map_upto[OF c] obtain off where "- 2 \<le> off" "off \<le> 2"
      "poly = [s, (clamp ((fst s + fst e) div 2 + off) 0 (cols - 1), snd s),
                       (clamp ((fst s + fst e) div 2 + off) 0 (cols - 1), snd e), e]"
      by blast
    then show ?thesis by blast
  next
    case d
    from in_map_upto[OF d] obtain off where "- 2 \<le> off" "off \<le> 2"
      "poly = [s, (fst s, clamp ((snd s + snd e) div 2 + off) 0 (rows - 1)),
                       (fst e, clamp ((snd s + snd e) div 2 + off) 0 (rows - 1)), e]"
      by blast
    then show ?thesis by blast
  qed
qed

lemma clamp_mid:
  assumes "4 \<le> \<bar>a - b\<bar>" "0 \<le> a" "a < n" "0 \<le> b" "b < n" "- 2 \<le> off" "off \<le> 2"
  shows "min a b \<le> clamp ((a + b) div 2 + off) 0 (n - 1) \<and>
         clamp ((a + b) div 2 + off) 0 (n - 1) \<le> max a b"
proof -
  have "min a b + 2 \<le> (a + b) div 2" "(a + b) div 2 + 2 \<le> max a b" using assms(1) by auto
  then show ?thesis using assms unfolding clamp_def by auto
qed

lemma candidate_shape:
  assumes poly: "poly \<in> set (candidatePolylines cols rows s e)"
    and far: "4 \<le> max \<bar>fst s - fst e\<bar> \<bar>snd s - snd e\<bar>"
    and s: "inGrid cols rows s" and e: "inGrid cols rows e"
  shows "(\<exists>px. pivot_ok (fst s) (fst e) (snd s) (snd e) px \<and> (\<forall>p. onPoly poly p \<longrightarrow> viaColumn s e px p)) \<or>
         (\<exists>py. pivot_ok (snd s) (snd e) (fst s) (fst e) py \<and> (\<forall>p. onPoly poly p \<longrightarrow> viaRow s e py p))"
proof -
  consider
    (straight) "poly = [s, e]" "fst s = fst e \<or> snd s = snd e"
    | (l1) "poly = [s, (fst e, snd s), e]"
    | (l2) "poly = [s, (fst s, snd e), e]"
    | (vx) off where "- 2 \<le> off" "off \<le> 2"
            "poly = [s, (clamp ((fst s + fst e) div 2 + off) 0 (cols - 1), snd s),
                       (clamp ((fst s + fst e) div 2 + off) 0 (cols - 1), snd e), e]"
    | (vy) off where "- 2 \<le> off" "off \<le> 2"
            "poly = [s, (fst s, clamp ((snd s + snd e) div 2 + off) 0 (rows - 1)),
                       (fst e, clamp ((snd s + snd e) div 2 + off) 0 (rows - 1)), e]"
    using candidatePolylines_forms[OF poly] by blast
  then show ?thesis
  proof cases
    case straight
    have "pivot_ok (fst s) (fst e) (snd s) (snd e) (fst e)" by (simp add: pivot_ok_def)
    moreover have "\<forall>p. onPoly poly p \<longrightarrow> viaColumn s e (fst e) p"
      using straight by (auto simp: viaColumn_def inBox_def)
    ultimately show ?thesis by blast
  next
    case l1
    have "pivot_ok (fst s) (fst e) (snd s) (snd e) (fst e)" by (simp add: pivot_ok_def)
    moreover have "\<forall>p. onPoly poly p \<longrightarrow> viaColumn s e (fst e) p"
      using l1 by (simp add: viaColumn_def)
    ultimately show ?thesis by blast
  next
    case l2
    have "pivot_ok (fst s) (fst e) (snd s) (snd e) (fst s)" by (simp add: pivot_ok_def)
    moreover have "\<forall>p. onPoly poly p \<longrightarrow> viaColumn s e (fst s) p"
      using l2 by (simp add: viaColumn_def)
    ultimately show ?thesis by blast
  next
    case vx
    let ?px = "clamp ((fst s + fst e) div 2 + off) 0 (cols - 1)"
    have "pivot_ok (fst s) (fst e) (snd s) (snd e) ?px"
      unfolding pivot_ok_def
    proof
      assume "\<bar>snd s - snd e\<bar> = 1"
      with far have "4 \<le> \<bar>fst s - fst e\<bar>" by auto
      from clamp_mid[OF this _ _ _ _ vx(1,2), of cols] s e
      show "min (fst s) (fst e) \<le> ?px \<and> ?px \<le> max (fst s) (fst e)" by (simp add: inGrid_def)
    qed
    moreover have "\<forall>p. onPoly poly p \<longrightarrow> viaColumn s e ?px p"
      using vx(3) by (simp add: viaColumn_def)
    ultimately show ?thesis by blast
  next
    case vy
    let ?py = "clamp ((snd s + snd e) div 2 + off) 0 (rows - 1)"
    have "pivot_ok (snd s) (snd e) (fst s) (fst e) ?py"
      unfolding pivot_ok_def
    proof
      assume "\<bar>fst s - fst e\<bar> = 1"
      with far have "4 \<le> \<bar>snd s - snd e\<bar>" by auto
      from clamp_mid[OF this _ _ _ _ vy(1,2), of rows] s e
      show "min (snd s) (snd e) \<le> ?py \<and> ?py \<le> max (snd s) (snd e)" by (simp add: inGrid_def)
    qed
    moreover have "\<forall>p. onPoly poly p \<longrightarrow> viaRow s e ?py p"
      using vy(3) by (simp add: viaRow_def)
    ultimately show ?thesis by blast
  qed
qed

lemma viaColumn_iff:
  "viaColumn s e px (i, j) \<longleftrightarrow>
     (j = snd s \<and> min (fst s) px \<le> i \<and> i \<le> max (fst s) px) \<or>
     (i = px \<and> min (snd s) (snd e) \<le> j \<and> j \<le> max (snd s) (snd e)) \<or>
     (j = snd e \<and> min px (fst e) \<le> i \<and> i \<le> max px (fst e))"
  by (auto simp: viaColumn_def inBox_def)

lemma thin_core:
  fixes x y :: int
  assumes c: "\<And>i j. (i = x \<or> i = x + 1) \<Longrightarrow> (j = y \<or> j = y + 1) \<Longrightarrow>
     (j = sy \<and> min sx px \<le> i \<and> i \<le> max sx px) \<or>
     (i = px \<and> min sy ey \<le> j \<and> j \<le> max sy ey) \<or>
     (j = ey \<and> min px ex \<le> i \<and> i \<le> max px ex)"
    and pv: "\<bar>sy - ey\<bar> = 1 \<longrightarrow> min sx ex \<le> px \<and> px \<le> max sx ex"
  shows False
proof -
  have row: "j = sy \<or> j = ey" if j: "j = y \<or> j = y + 1" for j
    using c[of x j] c[of "x + 1" j] j by auto
  from row[of y] row[of "y + 1"] have d: "\<bar>sy - ey\<bar> = 1" by auto
  with pv have btw: "min sx ex \<le> px" "px \<le> max sx ex" by simp_all
  have s: "min sx px \<le> i \<and> i \<le> max sx px" if "i = x \<or> i = x + 1" for i
    using c[of i sy] that row[of y] row[of "y + 1"] d by auto
  have e: "min px ex \<le> i \<and> i \<le> max px ex" if "i = x \<or> i = x + 1" for i
    using c[of i ey] that row[of y] row[of "y + 1"] d by auto
  from s[of x] s[of "x + 1"] e[of x] e[of "x + 1"] btw show False
    by (simp add: min_def max_def split: if_splits)
qed

lemma viaColumn_thin:
  assumes pv: "pivot_ok (fst s) (fst e) (snd s) (snd e) px"
    and sq: "\<forall>p\<in>set (square_at x y). viaColumn s e px p"
  shows False
proof (rule thin_core[of x y "snd s" "fst s" px "snd e" "fst e"])
  fix i j :: int
  assume "i = x \<or> i = x + 1" "j = y \<or> j = y + 1"
  then have "(i, j) \<in> set (square_at x y)" by (auto simp: square_at_def)
  with sq have "viaColumn s e px (i, j)" by blast
  then show "(j = snd s \<and> min (fst s) px \<le> i \<and> i \<le> max (fst s) px) \<or>
     (i = px \<and> min (snd s) (snd e) \<le> j \<and> j \<le> max (snd s) (snd e)) \<or>
     (j = snd e \<and> min px (fst e) \<le> i \<and> i \<le> max px (fst e))"
    by (simp only: viaColumn_iff)
next
  show "\<bar>snd s - snd e\<bar> = 1 \<longrightarrow> min (fst s) (fst e) \<le> px \<and> px \<le> max (fst s) (fst e)"
    using pv by (simp add: pivot_ok_def)
qed

lemma viaRow_iff:
  "viaRow s e py (i, j) \<longleftrightarrow>
     (i = fst s \<and> min (snd s) py \<le> j \<and> j \<le> max (snd s) py) \<or>
     (j = py \<and> min (fst s) (fst e) \<le> i \<and> i \<le> max (fst s) (fst e)) \<or>
     (i = fst e \<and> min py (snd e) \<le> j \<and> j \<le> max py (snd e))"
  by (auto simp: viaRow_def inBox_def)

lemma viaRow_thin:
  assumes pv: "pivot_ok (snd s) (snd e) (fst s) (fst e) py"
    and sq: "\<forall>p\<in>set (square_at x y). viaRow s e py p"
  shows False
proof (rule thin_core[of y x "fst s" "snd s" py "fst e" "snd e"])
  fix i j :: int
  assume "i = y \<or> i = y + 1" "j = x \<or> j = x + 1"
  then have "(j, i) \<in> set (square_at x y)" by (auto simp: square_at_def)
  with sq have "viaRow s e py (j, i)" by blast
  then show "(j = fst s \<and> min (snd s) py \<le> i \<and> i \<le> max (snd s) py) \<or>
     (i = py \<and> min (fst s) (fst e) \<le> j \<and> j \<le> max (fst s) (fst e)) \<or>
     (j = fst e \<and> min py (snd e) \<le> i \<and> i \<le> max py (snd e))"
    by (simp only: viaRow_iff)
next
  show "\<bar>fst s - fst e\<bar> = 1 \<longrightarrow> min (snd s) (snd e) \<le> py \<and> py \<le> max (snd s) (snd e)"
    using pv by (simp add: pivot_ok_def)
qed

lemma candidate_thin:
  assumes poly: "poly \<in> set (candidatePolylines cols rows s e)"
    and far: "4 \<le> max \<bar>fst s - fst e\<bar> \<bar>snd s - snd e\<bar>"
    and s: "inGrid cols rows s" and e: "inGrid cols rows e"
    and sq: "\<forall>p\<in>set (square_at x y). onPoly poly p"
  shows False
  using candidate_shape[OF poly far s e] sq viaColumn_thin viaRow_thin by blast

lemma isCorridor_char:
  assumes "grid_dims cells W H" "0 \<le> y" "y < H" "0 \<le> x" "x < W"
  shows "isCorridor cells y x = Inr (corridorAt cells (x, y))"
proof -
  from typeAt_dims[OF assms(1), of y x] assms(2-) obtain c where "cellAt cells y x = Some c"
    by (auto simp: typeAt_def)
  then show ?thesis by (simp add: isCorridor_def corridorAt_def typeAt_def)
qed

lemma corridorAt_inGrid:
  "grid_dims cells W H \<Longrightarrow> corridorAt cells p \<Longrightarrow> inGrid W H p"
  using typeAt_dims[of cells W H "snd p" "fst p"] by (auto simp: corridorAt_def inGrid_def)

lemma neighbourScan_char:
  assumes g: "grid_dims cells W H"
  shows "neighbourScan cells W H p ds =
     Inr (\<exists>d\<in>set ds. (snd d \<noteq> 0 \<or> fst d \<noteq> 0) \<and> max \<bar>snd d\<bar> \<bar>fst d\<bar> \<le> 1 \<and>
            corridorAt cells (fst p + snd d, snd p + fst d))"
proof (induction ds)
  case Nil
  then show ?case by simp
next
  case (Cons d ds)
  obtain dy dx where d: "d = (dy, dx)" by (cases d)
  show ?case
  proof (cases "dx = 0 \<and> dy = 0")
    case True
    with Cons d show ?thesis by simp
  next
    case nz: False
    show ?thesis
    proof (cases "snd p + dy < 0 \<or> snd p + dy \<ge> H \<or> fst p + dx < 0 \<or> fst p + dx \<ge> W")
      case True
      then have "\<not> corridorAt cells (fst p + dx, snd p + dy)"
        using corridorAt_inGrid[OF g, of "(fst p + dx, snd p + dy)"] by (auto simp: inGrid_def)
      with True nz Cons d show ?thesis by (auto simp: Let_def)
    next
      case False
      then have "isCorridor cells (snd p + dy) (fst p + dx) = Inr (corridorAt cells (fst p + dx, snd p + dy))"
        by (intro isCorridor_char[OF g]) auto
      with False nz Cons d show ?thesis by (auto simp: Let_def CORRIDOR_CORRIDOR_GAP_def)
    qed
  qed
qed

lemma ring_iff:
  "(\<exists>d\<in>set (List.product [- 1..1] [- 1..1]). (snd d \<noteq> 0 \<or> fst d \<noteq> 0) \<and> max \<bar>snd d\<bar> \<bar>fst d\<bar> \<le> 1 \<and>
            corridorAt cells (fst p + snd d, snd p + fst d)) \<longleftrightarrow> \<not> lonely cells p"
proof
  assume "\<exists>d\<in>set (List.product [- 1..1] [- 1..1]). (snd d \<noteq> 0 \<or> fst d \<noteq> 0) \<and> max \<bar>snd d\<bar> \<bar>fst d\<bar> \<le> 1 \<and>
            corridorAt cells (fst p + snd d, snd p + fst d)"
  then obtain d where d: "snd d \<noteq> 0 \<or> fst d \<noteq> 0" "max \<bar>snd d\<bar> \<bar>fst d\<bar> \<le> 1"
     "corridorAt cells (fst p + snd d, snd p + fst d)" by blast
  let ?q = "(fst p + snd d, snd p + fst d)"
  have "?q \<noteq> p" using d(1) by (cases p) auto
  moreover have "\<bar>fst ?q - fst p\<bar> \<le> 1 \<and> \<bar>snd ?q - snd p\<bar> \<le> 1" using d(2) by simp
  ultimately show "\<not> lonely cells p" using d(3) unfolding lonely_def by blast
next
  assume "\<not> lonely cells p"
  then obtain q where q: "q \<noteq> p" "\<bar>fst q - fst p\<bar> \<le> 1" "\<bar>snd q - snd p\<bar> \<le> 1" "corridorAt cells q"
    unfolding lonely_def by blast
  let ?d = "(snd q - snd p, fst q - fst p)"
  have "?d \<in> set (List.product [- 1..1] [- 1..1])" using q(2,3) unfolding set_product set_upto by auto
  moreover have "snd ?d \<noteq> 0 \<or> fst ?d \<noteq> 0" using q(1) by (cases p; cases q) auto
  moreover have "max \<bar>snd ?d\<bar> \<bar>fst ?d\<bar> \<le> 1" using q(2,3) by simp
  moreover have "corridorAt cells (fst p + snd ?d, snd p + fst ?d)" using q(4) by simp
  ultimately show "\<exists>d\<in>set (List.product [- 1..1] [- 1..1]). (snd d \<noteq> 0 \<or> fst d \<noteq> 0) \<and> max \<bar>snd d\<bar> \<bar>fst d\<bar> \<le> 1 \<and>
            corridorAt cells (fst p + snd d, snd p + fst d)" by blast
qed

lemma corridorTooCloseToOthers_char:
  assumes g: "grid_dims cells W H"
  shows "corridorTooCloseToOthers cells W H p =
     Inr (\<not> inGrid W H p \<or> (\<not> corridorAt cells p \<and> \<not> lonely cells p))"
proof (cases "inGrid W H p")
  case False
  then show ?thesis by (auto simp: corridorTooCloseToOthers_def inGrid_def)
next
  case True
  then have c: "isCorridor cells (snd p) (fst p) = Inr (corridorAt cells p)"
    using isCorridor_char[OF g, of "snd p" "fst p"] by (simp add: inGrid_def)
  have b: "\<not> (snd p < 0 \<or> snd p \<ge> H \<or> fst p < 0 \<or> fst p \<ge> W)"
    using True by (auto simp: inGrid_def)
  show ?thesis
    unfolding corridorTooCloseToOthers_def neighbourScan_char[OF g] ring_iff
    using True by (simp only: b if_False c sum.case) simp
qed

lemma validatePath_char:
  assumes g: "grid_dims cells W H"
  shows "validatePath cells rooms W H aIdx bIdx s e path =
     Inr (\<not> (\<forall>p\<in>set path. path_valid cells rooms W H aIdx bIdx s e p))"
proof (induction path)
  case Nil
  then show ?case by simp
next
  case (Cons p ps)
  show ?case
  proof (cases "path_valid cells rooms W H aIdx bIdx s e p")
    case True
    then show ?thesis
      using Cons by (auto simp: path_valid_def inGrid_def corridorTooCloseToOthers_char[OF g])
  next
    case False
    then show ?thesis
      by (auto simp: path_valid_def inGrid_def corridorTooCloseToOthers_char[OF g])
  qed
qed

lemma countWindow_total:
  assumes g: "grid_dims cells W H"
  shows "(\<forall>w\<in>set ws. 0 \<le> fst w \<and> fst w < H \<and> 0 \<le> snd w \<and> snd w < W) \<Longrightarrow>
         \<exists>n. countWindow cells c ws cnt = Inr n"
proof (induction ws arbitrary: cnt)
  case Nil
  then show ?case by simp
next
  case (Cons w ws)
  obtain yy xx where w: "w = (yy, xx)" by (cases w)
  have "isCorridor cells yy xx = Inr (corridorAt cells (xx, yy))"
    using Cons.prems w by (intro isCorridor_char[OF g]) auto
  moreover have "\<And>k. \<exists>n. countWindow cells c ws k = Inr n" using Cons by simp
  ultimately show ?case using w by simp
qed

lemma windowScan_total:
  assumes g: "grid_dims cells W H"
  shows "\<exists>b. windowScan cells W H c os = Inr b"
proof (induction os)
  case Nil
  then show ?case by auto
next
  case (Cons ofs os)
  obtain oy ox where ofs: "ofs = (oy, ox)" by (cases ofs)
  let ?sx = "fst c + ox" and ?sy = "snd c + oy"
  show ?case
  proof (cases "?sx < 0 \<or> ?sy < 0 \<or> ?sx + 1 \<ge> W \<or> ?sy + 1 \<ge> H")
    case True
    with Cons ofs show ?thesis by (simp add: Let_def)
  next
    case False
    then have "\<forall>w\<in>set (List.product [?sy..?sy + 1] [?sx..?sx + 1]).
        0 \<le> fst w \<and> fst w < H \<and> 0 \<le> snd w \<and> snd w < W"
      unfolding set_product set_upto by auto
    from countWindow_total[OF g this, of c 0]
    obtain n where "countWindow cells c (List.product [?sy..?sy + 1] [?sx..?sx + 1]) 0 = Inr n" ..
    with False Cons ofs show ?thesis by (auto simp: Let_def)
  qed
qed

lemma createsCorridorSquare_total:
  assumes g: "grid_dims cells W H"
  shows "\<exists>b. createsCorridorSquare cells W H path = Inr b"
proof (induction path)
  case Nil
  then show ?case by auto
next
  case (Cons c path)
  from windowScan_total[OF g, of c "List.product [- 1..0] [- 1..0]"]
  obtain b where "windowScan cells W H c (List.product [- 1..0] [- 1..0]) = Inr b" ..
  with Cons show ?case by auto
qed

lemma carveCells_total:
  "grid_dims cells W H \<Longrightarrow> \<exists>cells'. carveCells cells W H path = Inr cells'"
proof (induction path arbitrary: cells)
  case Nil
  then show ?case by simp
next
  case (Cons p path)
  show ?case
  proof (cases "snd p < 0 \<or> snd p \<ge> H \<or> fst p < 0 \<or> fst p \<ge> W")
    case True
    with Cons show ?thesis by simp
  next
    case False
    then have b: "0 \<le> snd p \<and> snd p < H \<and> 0 \<le> fst p \<and> fst p < W" by auto
    with typeAt_dims[OF Cons.prems, of "snd p" "fst p"]
    obtain c where c: "cellAt cells (snd p) (fst p) = Some c" by (auto simp: typeAt_def)
    show ?thesis
    proof (cases "cell_type c = CT_room")
      case True
      with False c Cons show ?thesis by simp
    next
      case nr: False
      from setType_Inr_iff[OF Cons.prems, of "snd p" "fst p" CT_corridor] b
      obtain cells1 where s: "setType cells (snd p) (fst p) CT_corridor = Inr cells1" by auto
      from setType_dims[OF s Cons.prems] have "grid_dims cells1 W H" .
      from Cons.IH[OF this] False c nr s show ?thesis by simp
    qed
  qed
qed

lemma tryPolylines_total:
  assumes g: "grid_dims cells W H"
  shows "\<exists>carved cells'. tryPolylines cells rooms W H aIdx bIdx s e polys = Some (Inr (carved, cells'))"
proof (induction polys)
  case Nil
  then show ?case by auto
next
  case (Cons poly polys)
  obtain path where p: "polylineToCells poly = Some path"
    using polylineToCells_total[of poly] by blast
  obtain b where b: "createsCorridorSquare cells W H path = Inr b"
    using createsCorridorSquare_total[OF g] by blast
  obtain cells1 where c: "carveCells cells W H path = Inr cells1"
    using carveCells_total[OF g] by blast
  show ?case using Cons by (auto simp: p validatePath_char[OF g] b c)
qed

lemma lineCells_loop_last:
  assumes "x \<noteq> x1 \<longrightarrow> dx = (if x1 > x then 1 else - 1)"
    and "y \<noteq> y1 \<longrightarrow> dy = (if y1 > y then 1 else - 1)"
    and "m = nat (\<bar>x1 - x\<bar> + \<bar>y1 - y\<bar>)"
    and "out \<noteq> []" "last out = (x, y)"
    and "lineCells_loop x y x1 y1 dx dy out = Some res"
  shows "res \<noteq> [] \<and> hd res = hd out \<and> last res = (x1, y1)"
  using assms
proof (induction m arbitrary: x y out rule: less_induct)
  case (less m)
  show ?case
  proof (cases "x \<noteq> x1 \<or> y \<noteq> y1")
    case False
    with less.prems(6) have "res = out" by (subst (asm) lineCells_loop.simps) simp
    with less.prems False show ?thesis by simp
  next
    case True
    let ?x = "if x \<noteq> x1 then x + dx else x"
    let ?y = "if y \<noteq> y1 then y + dy else y"
    have lt: "nat (\<bar>x1 - ?x\<bar> + \<bar>y1 - ?y\<bar>) < m"
      using True less.prems(1-3) by (auto split: if_splits)
    have hx: "?x \<noteq> x1 \<longrightarrow> dx = (if x1 > ?x then 1 else - 1)"
      using less.prems(1) by (auto split: if_splits)
    have hy: "?y \<noteq> y1 \<longrightarrow> dy = (if y1 > ?y then 1 else - 1)"
      using less.prems(2) by (auto split: if_splits)
    have r: "lineCells_loop ?x ?y x1 y1 dx dy (out @ [(?x, ?y)]) = Some res"
      using less.prems(6) True by (subst (asm) lineCells_loop.simps) simp
    from less.IH[OF lt hx hy refl _ _ r] less.prems(4) show ?thesis by simp
  qed
qed

lemma lineCells_ends:
  assumes "lineCells x0 y0 x1 y1 = Some res"
  shows "res \<noteq> [] \<and> hd res = (x0, y0) \<and> last res = (x1, y1)"
proof -
  let ?dx = "if x1 = x0 then 0 else if x1 > x0 then 1 else (- 1 :: int)"
  let ?dy = "if y1 = y0 then 0 else if y1 > y0 then 1 else (- 1 :: int)"
  have r: "lineCells_loop x0 y0 x1 y1 ?dx ?dy [(x0, y0)] = Some res"
    using assms unfolding lineCells_def Let_def .
  have "res \<noteq> [] \<and> hd res = hd [(x0, y0)] \<and> last res = (x1, y1)"
    by (rule lineCells_loop_last[OF _ _ refl _ _ r]) auto
  then show ?thesis by simp
qed

lemma polylineToCells_empty:
  "polylineToCells poly = Some [] \<Longrightarrow> p \<in> set poly \<Longrightarrow> p = hd poly"
proof (induction poly rule: polylineToCells.induct)
  case (1 a b rest)
  show ?case
  proof (cases "fst a = fst b \<and> snd a = snd b")
    case True
    then have "a = b" by (simp add: prod_eq_iff)
    with 1(1)[OF True] 1(3,4) True show ?thesis by auto
  next
    case False
    with 1(3) lineCells_ends[of "fst a" "snd a" "fst b" "snd b"]
    show ?thesis by (auto split: option.splits)
  qed
qed simp_all

lemma polylineToCells_ends:
  "polylineToCells poly = Some path \<Longrightarrow> path \<noteq> [] \<Longrightarrow>
     hd path = hd poly \<and> last path = last poly"
proof (induction poly arbitrary: path rule: polylineToCells.induct)
  case (1 a b rest)
  show ?case
  proof (cases "fst a = fst b \<and> snd a = snd b")
    case True
    then have "a = b" by (simp add: prod_eq_iff)
    with 1(1)[OF True, of path] 1(3,4) True show ?thesis by simp
  next
    case False
    from 1(3) False obtain seg out where seg: "lineCells (fst a) (snd a) (fst b) (snd b) = Some seg"
      and out: "polylineToCells (b # rest) = Some out" and path: "path = seg @ out"
      by (auto split: option.splits)
    from lineCells_ends[OF seg] have e: "seg \<noteq> []" "hd seg = a" "last seg = b" by simp_all
    show ?thesis
    proof (cases "out = []")
      case True
      have "last (b # rest) \<in> set (b # rest)" by (rule last_in_set) simp
      from polylineToCells_empty[OF out[unfolded True] this] have "last (b # rest) = b" by simp
      with True path e show ?thesis by simp
    next
      case ne: False
      from 1(2)[OF False seg out ne] path e ne show ?thesis by simp
    qed
  qed
qed simp_all

lemma candidate_ends:
  assumes "poly \<in> set (candidatePolylines cols rows s e)"
  shows "hd poly = s \<and> last poly = e"
  using candidatePolylines_forms[OF assms] by auto

lemma no_corridor_square_iff:
  assumes g: "grid_dims cells W H"
  shows "no_corridor_square cells \<longleftrightarrow> (\<forall>x y. \<exists>p\<in>set (square_at x y). \<not> corridorAt cells p)"
proof
  assume "\<forall>x y. \<exists>p\<in>set (square_at x y). \<not> corridorAt cells p"
  then show "no_corridor_square cells"
    unfolding no_corridor_square_def list_all_iff by blast
next
  assume n: "no_corridor_square cells"
  show "\<forall>x y. \<exists>p\<in>set (square_at x y). \<not> corridorAt cells p"
  proof (intro allI, rule ccontr)
    fix x y
    assume "\<not> (\<exists>p\<in>set (square_at x y). \<not> corridorAt cells p)"
    then have all: "\<forall>p\<in>set (square_at x y). corridorAt cells p" by blast
    then have "inGrid W H (x, y)" "inGrid W H (x + 1, y + 1)"
      using corridorAt_inGrid[OF g] by (auto simp: square_at_def)
    then have b: "0 \<le> x" "x + 1 < W" "0 \<le> y" "y + 1 < H" by (auto simp: inGrid_def)
    then have "0 < H" by simp
    from gridCols_dims[OF g this] have "gridCols cells = W" by (simp add: gridCols_def)
    moreover have "gridRows cells = H" using g by (simp add: gridRows_def grid_dims_def)
    ultimately have "y \<in> set [0..gridRows cells - 2]" "x \<in> set [0..gridCols cells - 2]"
      using b by auto
    with n all show False unfolding no_corridor_square_def list_all_iff by blast
  qed
qed

lemma square_near:
  "p \<in> set (square_at x y) \<Longrightarrow> q \<in> set (square_at x y) \<Longrightarrow>
     \<bar>fst p - fst q\<bar> \<le> 1 \<and> \<bar>snd p - snd q\<bar> \<le> 1"
  by (auto simp: square_at_def)

lemma exits_far:
  assumes apart: "rooms_apart (ROOM_SEPARATION + 1) (rooms ! a) (rooms ! b)"
    and wa: "0 < room_width (rooms ! a)" "0 < room_height (rooms ! a)"
    and wb: "0 < room_width (rooms ! b)" "0 < room_height (rooms ! b)"
    and ds: "distToRoom rooms a (fst s) (snd s) \<le> 1"
    and de: "distToRoom rooms b (fst e) (snd e) \<le> 1"
  shows "4 \<le> max \<bar>fst s - fst e\<bar> \<bar>snd s - snd e\<bar>"
proof -
  from distToRoom_nearest[OF wa, of "fst s" "snd s"] ds
  obtain x1 y1 where p1: "in_room (rooms ! a) x1 y1" "max \<bar>fst s - x1\<bar> \<bar>snd s - y1\<bar> \<le> 1" by metis
  from distToRoom_nearest[OF wb, of "fst e" "snd e"] de
  obtain x2 y2 where p2: "in_room (rooms ! b) x2 y2" "max \<bar>fst e - x2\<bar> \<bar>snd e - y2\<bar> \<le> 1" by metis
  from apart p1(1) p2(1) have "ROOM_SEPARATION + 1 \<le> max \<bar>x1 - x2\<bar> \<bar>y1 - y2\<bar>"
    unfolding rooms_apart_def by blast
  then have "6 \<le> \<bar>x1 - x2\<bar> \<or> 6 \<le> \<bar>y1 - y2\<bar>" by (simp add: ROOM_SEPARATION_def le_max_iff_disj)
  moreover have "\<bar>fst s - x1\<bar> \<le> 1" "\<bar>snd s - y1\<bar> \<le> 1" "\<bar>fst e - x2\<bar> \<le> 1" "\<bar>snd e - y2\<bar> \<le> 1"
    using p1(2) p2(2) by simp_all
  ultimately have "4 \<le> \<bar>fst s - fst e\<bar> \<or> 4 \<le> \<bar>snd s - snd e\<bar>" by linarith
  then show ?thesis by (simp add: le_max_iff_disj)
qed

lemma carved_no_square:
  assumes g: "grid_dims cells W H"
    and nsq: "no_corridor_square cells"
    and far: "4 \<le> max \<bar>fst s - fst e\<bar> \<bar>snd s - snd e\<bar>"
    and poly: "poly \<in> set (candidatePolylines W H s e)"
    and path: "polylineToCells poly = Some path"
    and valid: "\<forall>p\<in>set path. path_valid cells rooms W H aIdx bIdx s e p"
    and carve: "carveCells cells W H path = Inr cells'"
  shows "no_corridor_square cells'"
proof -
  have g': "grid_dims cells' W H" by (rule carveCells_dims[OF carve g])
  have new: "p \<in> set path \<or> corridorAt cells p" if "corridorAt cells' p" for p
    using that carveCells_typeAt[OF carve, of "snd p" "fst p"]
    by (auto simp: corridorAt_def split: if_splits)
  have on: "onPoly poly p" if "p \<in> set path" for p
    using polylineToCells_total[of poly] path that by auto
  show ?thesis
    unfolding no_corridor_square_iff[OF g']
  proof (intro allI, rule ccontr)
    fix x y
    assume "\<not> (\<exists>p\<in>set (square_at x y). \<not> corridorAt cells' p)"
    then have all: "\<forall>p\<in>set (square_at x y). corridorAt cells' p" by blast
    from nsq[unfolded no_corridor_square_iff[OF g]]
    obtain q where q: "q \<in> set (square_at x y)" "\<not> corridorAt cells q" by blast
    with all new have qp: "q \<in> set path" by blast
    with valid q(2) have lq: "lonely cells q" by (auto simp: path_valid_def)
    have inpath: "p \<in> set path" if p: "p \<in> set (square_at x y)" for p
    proof (cases "p = q")
      case True
      with qp show ?thesis by simp
    next
      case False
      with square_near[OF p q(1)] lq have "\<not> corridorAt cells p" unfolding lonely_def by blast
      with all new p show ?thesis by blast
    qed
    from qp have ne: "path \<noteq> []" by auto
    from polylineToCells_ends[OF path ne] candidate_ends[OF poly]
    have "hd path = s" "last path = e" by simp_all
    with ne have "s \<in> set path" "e \<in> set path" using hd_in_set last_in_set by metis+
    with valid have sg: "inGrid W H s" and eg: "inGrid W H e" by (auto simp: path_valid_def)
    have "\<forall>p\<in>set (square_at x y). onPoly poly p" using inpath on by blast
    from candidate_thin[OF poly far sg eg this] show False .
  qed
qed

section \<open>Properties of the loop augmenter\<close>

lemma degree_append: "degree (es @ es') v = degree es v + degree es' v"
  by (simp add: degree_def)

lemma degree_single: "degree [e] v = (if edge_a e = v then 1 else 0) + (if edge_b e = v then 1 else 0)"
  by (simp add: degree_def)

lemma increment_nth:
  "i < length adj \<Longrightarrow> v < length adj \<Longrightarrow> increment adj i ! v = adj ! v + (if v = i then 1 else 0)"
  by (simp add: increment_def nth_list_update)

lemma length_increment [simp]: "length (increment adj i) = length adj"
  by (simp add: increment_def)

lemma increment2_nth:
  "a < length adj \<Longrightarrow> b < length adj \<Longrightarrow> v < length adj \<Longrightarrow>
   increment (increment adj a) b ! v = adj ! v + degree [\<lparr>edge_a = a, edge_b = b\<rparr>] v"
  by (simp add: increment_nth degree_single)

lemma countDegrees_fold:
  "\<forall>e\<in>set es. edge_a e < length adj \<and> edge_b e < length adj \<Longrightarrow>
   length (fold (\<lambda>e adjacency. increment (increment adjacency (edge_a e)) (edge_b e)) es adj) = length adj \<and>
   (\<forall>v<length adj. fold (\<lambda>e adjacency. increment (increment adjacency (edge_a e)) (edge_b e)) es adj ! v
       = adj ! v + degree es v)"
proof (induction es arbitrary: adj)
  case Nil
  then show ?case by (simp add: degree_def)
next
  case (Cons e es)
  let ?adj = "increment (increment adj (edge_a e)) (edge_b e)"
  have "\<forall>e\<in>set es. edge_a e < length ?adj \<and> edge_b e < length ?adj" using Cons.prems by simp
  from Cons.IH[OF this] Cons.prems
  show ?case
    using degree_append[of "[e]" es]
    by (auto simp: increment_nth degree_single)
qed

lemma countDegrees_degree:
  "\<forall>e\<in>set es. edge_a e < n \<and> edge_b e < n \<Longrightarrow>
   length (countDegrees n es) = n \<and> (\<forall>v<n. countDegrees n es ! v = degree es v)"
  using countDegrees_fold[of es "replicate n 0"] by (simp add: countDegrees_def)

lemma addExtraEdges_step:
  "addExtraEdges rnd mstSet (e # es) adjacency finalEdges k =
     (if accepts rnd mstSet e adjacency k then
        addExtraEdges rnd mstSet es (increment (increment adjacency (edge_a e)) (edge_b e))
          (finalEdges @ [e]) (k + 1)
      else addExtraEdges rnd mstSet es adjacency finalEdges
          (if keyEdge (edge_a e) (edge_b e) \<in> set mstSet then k else k + 1))"
  by (auto simp: accepts_def Let_def)

lemma accepted_under_cap_snoc:
  assumes "accepted_under_cap m fin" "m \<le> length fin"
    "degree fin (edge_a e) \<le> MAX_ALLOWED_CONNECTIONS" "degree fin (edge_b e) \<le> MAX_ALLOWED_CONNECTIONS"
  shows "accepted_under_cap m (fin @ [e])"
  unfolding accepted_under_cap_def
proof (intro allI impI)
  fix pre e' post
  assume a: "fin @ [e] = pre @ e' # post \<and> m \<le> length pre"
  show "degree pre (edge_a e') \<le> MAX_ALLOWED_CONNECTIONS \<and>
        degree pre (edge_b e') \<le> MAX_ALLOWED_CONNECTIONS"
  proof (cases post rule: rev_cases)
    case Nil
    with a have "pre = fin" "e' = e" by auto
    with assms show ?thesis by simp
  next
    case (snoc post' x)
    with a have "fin = pre @ e' # post'" by auto
    with assms(1) a show ?thesis unfolding accepted_under_cap_def by blast
  qed
qed

lemma addExtraEdges_inv:
  assumes "edges_within n es" "length adj = n" "\<forall>v<n. adj ! v = degree fin v"
    "\<forall>v<n. degree fin v \<le> max (degree mst v) (MAX_ALLOWED_CONNECTIONS + 1)"
    "accepted_under_cap m fin" "m \<le> length fin"
  shows "case addExtraEdges rnd mstSet es adj fin k of (fin', adj', k') \<Rightarrow>
     (\<exists>extra. fin' = fin @ extra \<and> set extra \<subseteq> set es \<and>
        (\<forall>e\<in>set extra. keyEdge (edge_a e) (edge_b e) \<notin> set mstSet)) \<and>
     length adj' = n \<and> (\<forall>v<n. adj' ! v = degree fin' v) \<and>
     accepted_under_cap m fin' \<and>
     (\<forall>v<n. degree fin' v \<le> max (degree mst v) (MAX_ALLOWED_CONNECTIONS + 1))"
  using assms
proof (induction es arbitrary: adj fin k)
  case Nil
  then show ?case by simp
next
  case (Cons e es)
  from Cons.prems(1) have e: "edge_a e < n" "edge_b e < n" "edge_a e \<noteq> edge_b e"
    and es: "edges_within n es"
    by (auto simp: edges_within_def)
  show ?case
  proof (cases "accepts rnd mstSet e adj k")
    case False
    have "case addExtraEdges rnd mstSet es adj fin
          (if keyEdge (edge_a e) (edge_b e) \<in> set mstSet then k else k + 1) of (fin', adj', k') \<Rightarrow>
     (\<exists>extra. fin' = fin @ extra \<and> set extra \<subseteq> set es \<and>
        (\<forall>e\<in>set extra. keyEdge (edge_a e) (edge_b e) \<notin> set mstSet)) \<and>
     length adj' = n \<and> (\<forall>v<n. adj' ! v = degree fin' v) \<and>
     accepted_under_cap m fin' \<and>
     (\<forall>v<n. degree fin' v \<le> max (degree mst v) (MAX_ALLOWED_CONNECTIONS + 1))"
      by (rule Cons.IH[OF es Cons.prems(2-6)])
    with False show ?thesis
      unfolding addExtraEdges_step by (auto split: prod.splits)
  next
    case True
    let ?adj = "increment (increment adj (edge_a e)) (edge_b e)"
    let ?fin = "fin @ [e]"
    from True have key: "keyEdge (edge_a e) (edge_b e) \<notin> set mstSet"
      and cap: "adj ! edge_a e \<le> MAX_ALLOWED_CONNECTIONS" "adj ! edge_b e \<le> MAX_ALLOWED_CONNECTIONS"
      by (auto simp: accepts_def)
    have l: "length ?adj = n" using Cons.prems(2) by simp
    have d: "\<forall>v<n. ?adj ! v = degree ?fin v"
      using Cons.prems(2,3) e by (simp add: increment_nth degree_append degree_single)
    have capd: "degree fin (edge_a e) \<le> MAX_ALLOWED_CONNECTIONS"
       "degree fin (edge_b e) \<le> MAX_ALLOWED_CONNECTIONS"
      using cap Cons.prems(3) e by auto
    have b: "\<forall>v<n. degree ?fin v \<le> max (degree mst v) (MAX_ALLOWED_CONNECTIONS + 1)"
    proof (intro allI impI)
      fix v assume v: "v < n"
      consider "v = edge_a e" | "v = edge_b e" | "v \<noteq> edge_a e" "v \<noteq> edge_b e" by blast
      then show "degree ?fin v \<le> max (degree mst v) (MAX_ALLOWED_CONNECTIONS + 1)"
      proof cases
        case 1
        with capd e show ?thesis by (simp add: degree_append degree_single)
      next
        case 2
        with capd e show ?thesis by (simp add: degree_append degree_single)
      next
        case 3
        with Cons.prems(4) v show ?thesis by (simp add: degree_append degree_single)
      qed
    qed
    have a: "accepted_under_cap m ?fin"
      by (rule accepted_under_cap_snoc[OF Cons.prems(5,6) capd])
    have m: "m \<le> length ?fin" using Cons.prems(6) by simp
    have "case addExtraEdges rnd mstSet es ?adj ?fin (k + 1) of (fin', adj', k') \<Rightarrow>
     (\<exists>extra. fin' = ?fin @ extra \<and> set extra \<subseteq> set es \<and>
        (\<forall>e\<in>set extra. keyEdge (edge_a e) (edge_b e) \<notin> set mstSet)) \<and>
     length adj' = n \<and> (\<forall>v<n. adj' ! v = degree fin' v) \<and>
     accepted_under_cap m fin' \<and>
     (\<forall>v<n. degree fin' v \<le> max (degree mst v) (MAX_ALLOWED_CONNECTIONS + 1))"
      by (rule Cons.IH[OF es l d b a m])
    with True key show ?thesis
      unfolding addExtraEdges_step
      by (auto split: prod.splits)
  qed
qed

lemma accepted_under_cap_start: "accepted_under_cap (length mst) mst"
  by (auto simp: accepted_under_cap_def)

lemma augment_square:
  "augment all_zero 4 square_tree square_edges 0 =
     (square_tree @ [\<lparr>edge_a = 0, edge_b = 3\<rparr>, \<lparr>edge_a = 2, edge_b = 3\<rparr>], [3, 2, 2, 3], 2)"
  by code_simp

section \<open>Properties of the triangulation\<close>

lemma toggleEdge_values: "snd ` set (toggleEdge m e) \<subseteq> insert e (snd ` set m)"
  by (auto simp: toggleEdge_def Let_def)

lemma fold_toggleEdge_values:
  "snd ` set (fold (\<lambda>e m'. toggleEdge m' e) es m) \<subseteq> set es \<union> snd ` set m"
proof (induction es arbitrary: m)
  case Nil
  then show ?case by simp
next
  case (Cons e es)
  from Cons.IH[of "toggleEdge m e"] toggleEdge_values[of m e] show ?case by auto
qed

lemma boundary_values:
  "snd ` set (fold (\<lambda>t m. fold (\<lambda>e m'. toggleEdge m' e) (triangleEdges t) m) bad m)
     \<subseteq> (\<Union>t\<in>set bad. set (triangleEdges t)) \<union> snd ` set m"
proof (induction bad arbitrary: m)
  case Nil
  then show ?case by simp
next
  case (Cons t bad)
  from Cons.IH[of "fold (\<lambda>e m'. toggleEdge m' e) (triangleEdges t) m"]
    fold_toggleEdge_values[of "triangleEdges t" m]
  show ?case by auto
qed

lemma addEdgeOnce_values: "snd ` set (addEdgeOnce m e) \<subseteq> insert e (snd ` set m)"
  by (auto simp: addEdgeOnce_def Let_def)

lemma fold_addEdgeOnce_values:
  "snd ` set (fold (\<lambda>e m'. addEdgeOnce m' e) es m) \<subseteq> set es \<union> snd ` set m"
proof (induction es arbitrary: m)
  case Nil
  then show ?case by simp
next
  case (Cons e es)
  from Cons.IH[of "addEdgeOnce m e"] addEdgeOnce_values[of m e] show ?case by auto
qed

lemma edgeSet_values:
  "snd ` set (fold (\<lambda>t m. fold (\<lambda>e m'. addEdgeOnce m' e) (triangleEdges t) m) tris m)
     \<subseteq> (\<Union>t\<in>set tris. set (triangleEdges t)) \<union> snd ` set m"
proof (induction tris arbitrary: m)
  case Nil
  then show ?case by simp
next
  case (Cons t tris)
  from Cons.IH[of "fold (\<lambda>e m'. addEdgeOnce m' e) (triangleEdges t) m"]
    fold_addEdgeOnce_values[of "triangleEdges t" m]
  show ?case by auto
qed

lemma triangleEdges_ok:
  assumes "tris_ok V tris" "t \<in> set tris" "e \<in> set (triangleEdges t)"
  shows "edge_a e \<noteq> edge_b e \<and> edge_a e \<in> V \<and> edge_b e \<in> V"
  using assms by (auto simp: tris_ok_def triangleEdges_def)

lemma insertPoint_ok:
  assumes ok: "tris_ok V tris" and i: "i \<notin> V"
  shows "tris_ok (insert i V) (insertPoint pts tris i)"
proof -
  define bad where "bad = filter (\<lambda>t. circumcircleContains (pts ! tri_a t) (pts ! tri_b t)
      (pts ! tri_c t) (pts ! i)) tris"
  define edgeMap where "edgeMap = fold (\<lambda>t m. fold (\<lambda>e m'. toggleEdge m' e) (triangleEdges t) m) bad []"
  have ip: "insertPoint pts tris i = filter (\<lambda>t. t \<notin> set bad) tris
      @ map (\<lambda>kv. \<lparr>tri_a = edge_a (snd kv), tri_b = edge_b (snd kv), tri_c = i\<rparr>) edgeMap"
    by (simp add: insertPoint_def Let_def bad_def edgeMap_def)
  have vals: "snd ` set edgeMap \<subseteq> (\<Union>t\<in>set tris. set (triangleEdges t))"
    using boundary_values[of bad "[]"] by (auto simp: edgeMap_def bad_def)
  have new: "edge_a (snd kv) \<noteq> edge_b (snd kv) \<and> edge_a (snd kv) \<in> V \<and> edge_b (snd kv) \<in> V"
    if "kv \<in> set edgeMap" for kv
  proof -
    from that vals obtain t where "t \<in> set tris" "snd kv \<in> set (triangleEdges t)" by blast
    with ok show ?thesis by (rule triangleEdges_ok)
  qed
  show ?thesis
    unfolding tris_ok_def ip using ok i new by (auto simp: tris_ok_def)
qed

lemma insertAll_ok:
  "tris_ok V tris \<Longrightarrow> distinct ns \<Longrightarrow> set ns \<inter> V = {} \<Longrightarrow>
   tris_ok (V \<union> set ns) (fold (\<lambda>i tris. insertPoint pts tris i) ns tris)"
proof (induction ns arbitrary: V tris)
  case Nil
  then show ?case by simp
next
  case (Cons i ns)
  from Cons.prems have i: "i \<notin> V" and d: "distinct ns" and dj: "set ns \<inter> insert i V = {}" by auto
  from Cons.IH[OF insertPoint_ok[OF Cons.prems(1) i] d dj] show ?case by simp
qed

lemma createGraphFromPoints_points: "points (createGraphFromPoints pnts) = pnts"
  by (auto simp: createGraphFromPoints_def Let_def split: prod.splits)

lemma createGraphFromPoints_unfold:
  assumes "pnts \<noteq> []"
  obtains pts T where
    "T = filter (\<lambda>t. tri_a t < length pnts \<and> tri_b t < length pnts \<and> tri_c t < length pnts)
           (fold (\<lambda>i tris. insertPoint pts tris i) [0..<length pnts]
              [\<lparr>tri_a = length pnts, tri_b = length pnts + 1, tri_c = length pnts + 2\<rparr>])"
    "createGraphFromPoints pnts =
      \<lparr>points = pnts,
       edges = map snd (fold (\<lambda>t m. fold (\<lambda>e m'. addEdgeOnce m' e) (triangleEdges t) m) T []),
       triangles = Some T\<rparr>"
proof -
  obtain minX minY maxX maxY where b: "fold (\<lambda>p st. boundsStep st p) pnts
                (pt_x (pnts ! 0), pt_y (pnts ! 0), pt_x (pnts ! 0), pt_y (pnts ! 0)) = (minX, minY, maxX, maxY)"
    by (metis prod_cases4)
  define pts where "pts = pnts @ [\<lparr>pt_x = (minX + maxX) / 2 - 20 * max (maxX - minX) (maxY - minY),
         pt_y = (minY + maxY) / 2 - max (maxX - minX) (maxY - minY)\<rparr>,
       \<lparr>pt_x = (minX + maxX) / 2, pt_y = (minY + maxY) / 2 + 20 * max (maxX - minX) (maxY - minY)\<rparr>,
       \<lparr>pt_x = (minX + maxX) / 2 + 20 * max (maxX - minX) (maxY - minY),
         pt_y = (minY + maxY) / 2 - max (maxX - minX) (maxY - minY)\<rparr>]"
  define T where "T = filter (\<lambda>t. tri_a t < length pnts \<and> tri_b t < length pnts \<and> tri_c t < length pnts)
           (fold (\<lambda>i tris. insertPoint pts tris i) [0..<length pnts]
              [\<lparr>tri_a = length pnts, tri_b = length pnts + 1, tri_c = length pnts + 2\<rparr>])"
  have "createGraphFromPoints pnts =
      \<lparr>points = pnts,
       edges = map snd (fold (\<lambda>t m. fold (\<lambda>e m'. addEdgeOnce m' e) (triangleEdges t) m) T []),
       triangles = Some T\<rparr>"
    using assms b by (simp add: createGraphFromPoints_def Let_def pts_def T_def)
  with T_def show thesis by (rule that)
qed

lemma createGraphFromPoints_triangles:
  assumes "triangles (createGraphFromPoints pnts) = Some tris" "t \<in> set tris"
  shows "tri_a t \<noteq> tri_b t \<and> tri_b t \<noteq> tri_c t \<and> tri_c t \<noteq> tri_a t \<and>
         tri_a t < length pnts \<and> tri_b t < length pnts \<and> tri_c t < length pnts"
proof -
  let ?N = "length pnts"
  from assms(1) have ne: "pnts \<noteq> []" by (auto simp: createGraphFromPoints_def)
  from ne obtain pts T where
    T: "T = filter (\<lambda>t. tri_a t < ?N \<and> tri_b t < ?N \<and> tri_c t < ?N)
       (fold (\<lambda>i tris. insertPoint pts tris i) [0..<?N]
          [\<lparr>tri_a = ?N, tri_b = ?N + 1, tri_c = ?N + 2\<rparr>])"
    and g: "createGraphFromPoints pnts =
      \<lparr>points = pnts,
       edges = map snd (fold (\<lambda>t m. fold (\<lambda>e m'. addEdgeOnce m' e) (triangleEdges t) m) T []),
       triangles = Some T\<rparr>"
    by (rule createGraphFromPoints_unfold)
  from assms(1) have tr: "tris = T" unfolding g by simp
  have "tris_ok {?N, ?N + 1, ?N + 2} [\<lparr>tri_a = ?N, tri_b = ?N + 1, tri_c = ?N + 2\<rparr>]"
    by (simp add: tris_ok_def)
  from insertAll_ok[OF this, of "[0..<?N]" pts]
  have "tris_ok ({?N, ?N + 1, ?N + 2} \<union> set [0..<?N])
     (fold (\<lambda>i tris. insertPoint pts tris i) [0..<?N]
          [\<lparr>tri_a = ?N, tri_b = ?N + 1, tri_c = ?N + 2\<rparr>])"
    by auto
  then have "\<forall>t\<in>set T. tri_a t \<noteq> tri_b t \<and> tri_b t \<noteq> tri_c t \<and> tri_c t \<noteq> tri_a t \<and>
         tri_a t < ?N \<and> tri_b t < ?N \<and> tri_c t < ?N"
    unfolding T tris_ok_def by simp
  with assms(2) tr show ?thesis by blast
qed

lemma createGraphFromPoints_edges:
  assumes "e \<in> set (edges (createGraphFromPoints pnts))"
  shows "\<exists>tris t. triangles (createGraphFromPoints pnts) = Some tris \<and> t \<in> set tris \<and>
           e \<in> set (triangleEdges t)"
proof -
  from assms have ne: "pnts \<noteq> []" by (auto simp: createGraphFromPoints_def)
  from ne obtain pts T where
    g: "createGraphFromPoints pnts =
      \<lparr>points = pnts,
       edges = map snd (fold (\<lambda>t m. fold (\<lambda>e m'. addEdgeOnce m' e) (triangleEdges t) m) T []),
       triangles = Some T\<rparr>"
    by (rule createGraphFromPoints_unfold)
  have tris: "triangles (createGraphFromPoints pnts) = Some T" unfolding g by simp
  from assms have "e \<in> snd ` set (fold (\<lambda>t m. fold (\<lambda>e m'. addEdgeOnce m' e) (triangleEdges t) m) T [])"
    unfolding g by simp
  with edgeSet_values[of T "[]"] have "e \<in> (\<Union>t\<in>set T. set (triangleEdges t))"
    by auto
  with tris show ?thesis by blast
qed

lemma createGraphFromPoints_edges_within:
  "edges_within (length pnts) (edges (createGraphFromPoints pnts))"
  unfolding edges_within_def
proof
  fix e assume "e \<in> set (edges (createGraphFromPoints pnts))"
  from createGraphFromPoints_edges[OF this] obtain tris t where
    t: "triangles (createGraphFromPoints pnts) = Some tris" "t \<in> set tris" "e \<in> set (triangleEdges t)"
    by blast
  from createGraphFromPoints_triangles[OF t(1,2)] t(3)
  show "edge_a e < length pnts \<and> edge_b e < length pnts \<and> edge_a e \<noteq> edge_b e"
    by (auto simp: triangleEdges_def)
qed

section \<open>Rounding to binary64\<close>

lemma round_even_int: "round_even (of_int k) = k"
  by (simp add: round_even_def)

lemma round_even_err: "\<bar>of_int (round_even q) - q\<bar> \<le> 1 / 2"
  unfolding round_even_def Let_def by (auto split: if_splits)

lemma floor_log2:
  assumes "x \<noteq> 0"
  shows "2 powr of_int \<lfloor>log 2 \<bar>x\<bar>\<rfloor> \<le> \<bar>x\<bar>" "\<bar>x\<bar> < 2 powr (of_int \<lfloor>log 2 \<bar>x\<bar>\<rfloor> + 1)"
proof -
  have p: "0 < \<bar>x\<bar>" using assms by simp
  have "of_int \<lfloor>log 2 \<bar>x\<bar>\<rfloor> \<le> log 2 \<bar>x\<bar>" by simp
  then show "2 powr of_int \<lfloor>log 2 \<bar>x\<bar>\<rfloor> \<le> \<bar>x\<bar>"
    using p powr_le_iff[of 2 "\<bar>x\<bar>" "of_int \<lfloor>log 2 \<bar>x\<bar>\<rfloor>"] by simp
  have "log 2 \<bar>x\<bar> < of_int \<lfloor>log 2 \<bar>x\<bar>\<rfloor> + 1" by linarith
  then show "\<bar>x\<bar> < 2 powr (of_int \<lfloor>log 2 \<bar>x\<bar>\<rfloor> + 1)"
    using p less_powr_iff[of 2 "\<bar>x\<bar>" "of_int \<lfloor>log 2 \<bar>x\<bar>\<rfloor> + 1"] by simp
qed

lemma floor_log2_bounds:
  assumes "2 powr of_int lo \<le> \<bar>x\<bar>" "\<bar>x\<bar> < 2 powr of_int hi"
  shows "lo \<le> \<lfloor>log 2 \<bar>x\<bar>\<rfloor>" "\<lfloor>log 2 \<bar>x\<bar>\<rfloor> < hi"
proof -
  have p: "0 < \<bar>x\<bar>" using assms(1) by (smt (verit) powr_gt_zero)
  have "of_int lo \<le> log 2 \<bar>x\<bar>" using assms(1) p by (simp add: le_log_iff)
  then show "lo \<le> \<lfloor>log 2 \<bar>x\<bar>\<rfloor>" by (simp add: le_floor_iff)
  have "log 2 \<bar>x\<bar> < of_int hi" using assms(2) p by (simp add: log_less_iff)
  then show "\<lfloor>log 2 \<bar>x\<bar>\<rfloor> < hi" by (simp add: floor_less_iff)
qed

lemma pow2_below_top: "n \<le> 1024 \<Longrightarrow> (2 :: real) ^ n \<le> 2 powr 1024"
proof -
  assume "n \<le> 1024"
  then have "(2 :: real) powr real n \<le> 2 powr 1024" by (intro powr_mono) auto
  then show ?thesis by (simp only: powr_realpow[of 2 n, simplified])
qed

lemma abs_of_int_less: "\<bar>k\<bar> < 2 ^ n \<Longrightarrow> \<bar>real_of_int k\<bar> < 2 ^ n"
  using of_int_less_iff[of "\<bar>k\<bar>" "2 ^ n", where ?'a = real] by simp

lemma round64_exact:
  assumes x: "x = of_int k * 2 ^ j" and k: "k \<noteq> 0" "\<bar>k\<bar> < 2 ^ 53"
    and small: "\<bar>x\<bar> < 2 powr 1024"
  shows "round64 x = Fin x"
proof -
  have k1: "1 \<le> \<bar>real_of_int k\<bar>" using k(1) by linarith
  have k2: "\<bar>real_of_int k\<bar> < 2 ^ 53" using k(2) by (rule abs_of_int_less)
  have ax: "\<bar>x\<bar> = \<bar>real_of_int k\<bar> * 2 ^ j" by (simp add: x abs_mult)
  have x0: "x \<noteq> 0" using k(1) by (simp add: x)
  have lo: "2 powr of_int (int j) \<le> \<bar>x\<bar>"
    using k1 by (simp add: ax powr_realpow)
  have "\<bar>x\<bar> < 2 ^ 53 * 2 ^ j" unfolding ax using k2 by simp
  then have hi: "\<bar>x\<bar> < 2 powr of_int (int j + 53)"
    by (simp add: powr_realpow[symmetric] powr_add mult.commute)
  define e where "e = \<lfloor>log 2 \<bar>x\<bar>\<rfloor>"
  from floor_log2_bounds[OF lo hi] have e: "int j \<le> e" "e < int j + 53" by (simp_all add: e_def)
  then have m: "max e (- 1022) = e" by simp
  define d where "d = nat (int j + 52 - e)"
  have d: "int d = int j + 52 - e" using e by (simp add: d_def)
  define u :: real where "u = 2 powr (of_int e - 52)"
  have u0: "0 < u" by (simp add: u_def)
  have "2 ^ j = u * 2 ^ d"
  proof -
    have "u * 2 ^ d = 2 powr (of_int e - 52) * 2 powr (of_int (int d))"
      by (simp add: u_def powr_realpow)
    also have "\<dots> = 2 powr (of_int (int j))"
      unfolding powr_add[symmetric] d by simp
    finally show ?thesis by (simp add: powr_realpow)
  qed
  then have xu: "x / u = of_int (k * 2 ^ d)" using u0 by (simp add: x)
  have r: "u * of_int (round_even (x / u)) = x"
    unfolding xu round_even_int using xu u0 by (simp add: field_simps)
  show ?thesis
    unfolding round64_def Let_def e_def[symmetric] m u_def[symmetric] r
    using x0 small by simp
qed

lemma round64_int:
  assumes "\<bar>k\<bar> < 2 ^ 53"
  shows "round64 (of_int k) = Fin (of_int k)"
proof (cases "k = 0")
  case True
  then show ?thesis by (simp add: round64_def)
next
  case False
  have "\<bar>real_of_int k\<bar> < 2 ^ 53" using assms by (rule abs_of_int_less)
  also have "(2 :: real) ^ 53 \<le> 2 powr 1024" by (rule pow2_below_top) simp
  finally have "\<bar>real_of_int k\<bar> < 2 powr 1024" .
  with round64_exact[of "of_int k" k 0, OF _ False assms] show ?thesis by simp
qed

lemma p28: "(2 :: real) powr (- 28) = 1 / 2 ^ 28"
proof -
  have "(2 :: real) powr (- 28) = inverse (2 powr 28)" by (rule powr_minus)
  also have "(2 :: real) powr 28 = 2 ^ 28" using powr_realpow[of 2 28] by simp
  finally show ?thesis by (simp only: inverse_eq_divide)
qed

lemma err_scale:
  fixes u x :: real
  assumes u0: "0 < u" and u28: "u \<le> 1 / 2 ^ 28"
  shows "\<bar>u * of_int (round_even (x / u)) - x\<bar> \<le> 1 / 2 ^ 29"
proof -
  define q where "q = x / u"
  have x: "x = u * q" using u0 by (simp add: q_def)
  have "u * of_int (round_even q) - x = u * (of_int (round_even q) - q)"
    unfolding x by (simp only: right_diff_distrib)
  then have "\<bar>u * of_int (round_even q) - x\<bar> = u * \<bar>of_int (round_even q) - q\<bar>"
    using u0 by (simp only: abs_mult abs_of_pos)
  also have "\<dots> \<le> u * (1 / 2)"
    using round_even_err[of q] u0 by (intro mult_left_mono) simp_all
  also have "\<dots> \<le> (1 / 2 ^ 28) * (1 / 2)"
    using u28 by (intro mult_right_mono) simp_all
  also have "\<dots> = 1 / 2 ^ 29" by simp
  finally show ?thesis unfolding q_def .
qed

lemma round64_near:
  assumes x: "1 \<le> x" "x < 2 ^ 25"
  shows "\<exists>r. round64 x = Fin r \<and> \<bar>r - x\<bar> \<le> 1 / 2 ^ 29"
proof -
  have x0: "x \<noteq> 0" using x by simp
  have lo: "2 powr of_int 0 \<le> \<bar>x\<bar>" using x by simp
  have "(2 :: real) powr of_int 25 = 2 ^ 25" using powr_realpow[of 2 25] by simp
  then have hi: "\<bar>x\<bar> < 2 powr of_int 25" using x by simp
  define e where "e = \<lfloor>log 2 \<bar>x\<bar>\<rfloor>"
  from floor_log2_bounds[OF lo hi] have e: "0 \<le> e" "e < 25" by (simp_all add: e_def)
  then have m: "max e (- 1022) = e" by simp
  define u :: real where "u = 2 powr (of_int e - 52)"
  have u0: "0 < u" by (simp add: u_def)
  have "real_of_int e - 52 \<le> - 28" using e by simp
  then have "u \<le> 2 powr (- 28)" unfolding u_def by (intro powr_mono) simp_all
  then have u28: "u \<le> 1 / 2 ^ 28" by (simp only: p28)
  define r where "r = u * of_int (round_even (x / u))"
  have err: "\<bar>r - x\<bar> \<le> 1 / 2 ^ 29" unfolding r_def by (rule err_scale[OF u0 u28])
  have "(1 :: real) / 2 ^ 29 \<le> 1" by simp
  with err have "\<bar>r - x\<bar> \<le> 1" by (rule order_trans)
  then have "\<bar>r\<bar> \<le> x + 1" using x(1) by linarith
  also have "x + 1 < 2 ^ 26" using x by simp
  also have "(2 :: real) ^ 26 \<le> 2 powr 1024" by (rule pow2_below_top) simp
  finally have "\<not> \<bar>r\<bar> \<ge> 2 powr 1024" by (simp only: not_le)
  then have "round64 x = Fin r"
    unfolding round64_def Let_def e_def[symmetric] m u_def[symmetric] r_def[symmetric]
    using x0 by (simp only: if_False)
  with err show ?thesis by blast
qed

lemma sqrt_small:
  fixes N :: int
  assumes "0 \<le> N" "N < 2 ^ 50"
  shows "sqrt (of_int N) < 2 ^ 25"
proof -
  have "real_of_int N < 2 ^ 50" using assms(2) of_int_less_iff[of N "2 ^ 50", where ?'a = real] by simp
  also have "(2 :: real) ^ 50 = (2 ^ 25)\<^sup>2" by simp
  finally show ?thesis by (intro real_less_lsqrt) simp_all
qed

lemma sqrt_ge_one:
  fixes N :: int
  assumes "1 \<le> N"
  shows "1 \<le> sqrt (of_int N)"
proof -
  have "1 \<le> real_of_int N" using assms by simp
  then show ?thesis by simp
qed

lemma sqrt_gap:
  fixes N M :: int
  assumes "1 \<le> N" "N < M" "M < 2 ^ 50"
  shows "1 / 2 ^ 26 < sqrt (of_int M) - sqrt (of_int N)"
proof -
  let ?a = "sqrt (of_int M)" and ?b = "sqrt (of_int N)"
  have a: "?a < 2 ^ 25" using assms by (intro sqrt_small) simp_all
  have b: "?b < 2 ^ 25" using assms by (intro sqrt_small) simp_all
  have b1: "1 \<le> ?b" using assms by (intro sqrt_ge_one)
  have "?b < ?a" using assms by simp
  have s: "0 < ?a + ?b" using b1 \<open>?b < ?a\<close> by linarith
  have s2: "?a + ?b < 2 ^ 26" using a b by simp
  have "(?a - ?b) * (?a + ?b) = ?a\<^sup>2 - ?b\<^sup>2" by (simp add: algebra_simps power2_eq_square)
  also have "\<dots> = of_int M - of_int N" using assms by simp
  also have "\<dots> \<ge> 1" using assms(2) by linarith
  finally have prod: "1 \<le> (?a - ?b) * (?a + ?b)" .
  show ?thesis
  proof (rule ccontr)
    assume "\<not> 1 / 2 ^ 26 < ?a - ?b"
    then have le: "?a - ?b \<le> 1 / 2 ^ 26" by simp
    have "(?a - ?b) * (?a + ?b) \<le> (1 / 2 ^ 26) * (?a + ?b)"
      using le s by (intro mult_right_mono) simp_all
    also have "\<dots> < (1 / 2 ^ 26) * 2 ^ 26"
      using s2 by (intro mult_strict_left_mono) simp_all
    also have "\<dots> = 1" by simp
    finally show False using prod by simp
  qed
qed

lemma round_sqrt_zero: "round64 (sqrt (of_int 0)) = Fin 0"
  by (simp add: round64_def)

lemma round_sqrt_fin:
  fixes N :: int
  assumes "0 \<le> N" "N < 2 ^ 50"
  shows "\<exists>r. round64 (sqrt (of_int N)) = Fin r \<and> \<bar>r - sqrt (of_int N)\<bar> \<le> 1 / 2 ^ 29"
proof (cases "N = 0")
  case True
  then show ?thesis using round_sqrt_zero by simp
next
  case False
  with assms have "1 \<le> N" by simp
  from round64_near[OF sqrt_ge_one[OF this] sqrt_small[OF assms]] show ?thesis .
qed

lemma round_sqrt_mono:
  fixes N M :: int
  assumes "0 \<le> N" "N < M" "M < 2 ^ 50"
  shows "\<exists>r s. round64 (sqrt (of_int N)) = Fin r \<and> round64 (sqrt (of_int M)) = Fin s \<and> r < s"
proof -
  have M1: "1 \<le> M" "0 \<le> M" using assms by simp_all
  from round_sqrt_fin[OF M1(2) assms(3)] obtain s where
    s: "round64 (sqrt (of_int M)) = Fin s" "\<bar>s - sqrt (of_int M)\<bar> \<le> 1 / 2 ^ 29" by blast
  have N50: "N < 2 ^ 50" using assms by simp
  from round_sqrt_fin[OF assms(1) N50] obtain r where
    r: "round64 (sqrt (of_int N)) = Fin r" "\<bar>r - sqrt (of_int N)\<bar> \<le> 1 / 2 ^ 29" by blast
  have "r < s"
  proof (cases "N = 0")
    case True
    with r(1) have "r = 0" using round_sqrt_zero by simp
    moreover have "1 \<le> sqrt (of_int M)" by (rule sqrt_ge_one[OF M1(1)])
    moreover have "(1 :: real) / 2 ^ 29 < 1" by simp
    ultimately show ?thesis using s(2) by linarith
  next
    case False
    with assms have "1 \<le> N" by simp
    from sqrt_gap[OF this assms(2,3)] have g: "1 / 2 ^ 26 < sqrt (of_int M) - sqrt (of_int N)" .
    have "(2 :: real) / 2 ^ 29 < 1 / 2 ^ 26" by simp
    with g r(2) s(2) show ?thesis by linarith
  qed
  with r(1) s(1) show ?thesis by blast
qed

section \<open>Distances of points with small integer coordinates\<close>

lemma int_square_bound:
  fixes d :: int
  assumes "\<bar>d\<bar> \<le> 2 ^ 24"
  shows "0 \<le> d * d" "d * d \<le> 2 ^ 48"
proof -
  show "0 \<le> d * d" by simp
  have "d * d = \<bar>d\<bar> * \<bar>d\<bar>" by (simp add: abs_mult_self_eq)
  also have "\<dots> \<le> 2 ^ 24 * 2 ^ 24" using assms by (intro mult_mono) simp_all
  also have "\<dots> = (2 :: int) ^ 48" by simp
  finally show "d * d \<le> 2 ^ 48" .
qed

lemma small_less_53:
  fixes k :: int
  shows "\<bar>k\<bar> \<le> 2 ^ 49 \<Longrightarrow> \<bar>k\<bar> < 2 ^ 53"
  by simp

lemma num_sub_ints:
  fixes i j :: int
  assumes "\<bar>i\<bar> \<le> 2 ^ 23" "\<bar>j\<bar> \<le> 2 ^ 23"
  shows "num_sub (Fin (of_int i)) (Fin (of_int j)) = Fin (of_int (i - j))"
proof -
  have "\<bar>i - j\<bar> < 2 ^ 53" using assms by simp
  from round64_int[OF this] show ?thesis by (simp add: num_sub_def)
qed

lemma num_mul_ints:
  fixes d :: int
  assumes "\<bar>d\<bar> \<le> 2 ^ 24"
  shows "num_mul (Fin (of_int d)) (Fin (of_int d)) = Fin (of_int (d * d))"
proof -
  have "\<bar>d * d\<bar> < 2 ^ 53" using int_square_bound[OF assms] by simp
  from round64_int[OF this] show ?thesis by simp
qed

lemma num_add_ints:
  fixes p q :: int
  assumes "0 \<le> p" "p \<le> 2 ^ 48" "0 \<le> q" "q \<le> 2 ^ 48"
  shows "num_add (Fin (of_int p)) (Fin (of_int q)) = Fin (of_int (p + q))"
proof -
  have "\<bar>p + q\<bar> < 2 ^ 53" using assms by simp
  from round64_int[OF this] show ?thesis by simp
qed

lemma dist_of_ints:
  fixes xa ya xb yb :: int
  assumes ab: "a < length pts" "b < length pts"
    and pa: "pt_x (pts ! a) = of_int xa" "pt_y (pts ! a) = of_int ya"
    and pb: "pt_x (pts ! b) = of_int xb" "pt_y (pts ! b) = of_int yb"
    and small: "\<bar>xa\<bar> \<le> 2 ^ 23" "\<bar>ya\<bar> \<le> 2 ^ 23" "\<bar>xb\<bar> \<le> 2 ^ 23" "\<bar>yb\<bar> \<le> 2 ^ 23"
  shows "primMST_dist pts a b =
           Inr (round64 (sqrt (of_int ((xa - xb) * (xa - xb) + (ya - yb) * (ya - yb)))))"
    and "0 \<le> (xa - xb) * (xa - xb) + (ya - yb) * (ya - yb)"
    and "(xa - xb) * (xa - xb) + (ya - yb) * (ya - yb) < 2 ^ 50"
proof -
  let ?dx = "xa - xb" and ?dy = "ya - yb"
  have dx: "\<bar>?dx\<bar> \<le> 2 ^ 24" and dy: "\<bar>?dy\<bar> \<le> 2 ^ 24" using small by simp_all
  note qx = int_square_bound[OF dx] and qy = int_square_bound[OF dy]
  show n0: "0 \<le> ?dx * ?dx + ?dy * ?dy" using qx(1) qy(1) by simp
  show "?dx * ?dx + ?dy * ?dy < 2 ^ 50" using qx(2) qy(2) by simp
  have "primMST_dist pts a b =
      Inr (num_sqrt (num_add (num_mul (Fin (of_int ?dx)) (Fin (of_int ?dx)))
                             (num_mul (Fin (of_int ?dy)) (Fin (of_int ?dy)))))"
    unfolding primMST_dist_def Let_def pa pb
      num_sub_ints[OF small(1) small(3)] num_sub_ints[OF small(2) small(4)]
    using ab by simp
  also have "\<dots> = Inr (num_sqrt (Fin (of_int (?dx * ?dx + ?dy * ?dy))))"
    unfolding num_mul_ints[OF dx] num_mul_ints[OF dy] num_add_ints[OF qx qy] ..
  also have "\<dots> = Inr (round64 (sqrt (of_int (?dx * ?dx + ?dy * ?dy))))"
  proof -
    have "\<not> real_of_int (?dx * ?dx + ?dy * ?dy) < 0" using n0 by (simp only: of_int_less_0_iff not_less)
    then show ?thesis by (simp only: num_sqrt.simps if_False)
  qed
  finally show "primMST_dist pts a b = Inr (round64 (sqrt (of_int (?dx * ?dx + ?dy * ?dy))))" .
qed

lemma small_dist:
  assumes s: "small_int_points pts" and ab: "edge_a e < length pts" "edge_b e < length pts"
  shows "\<exists>N :: int. 0 \<le> N \<and> N < 2 ^ 50 \<and> sqDist pts e = of_int N \<and>
           primMST_dist pts (edge_a e) (edge_b e) = Inr (round64 (sqrt (of_int N)))"
proof -
  from s ab(1) obtain xa ya :: int where pa: "pt_x (pts ! edge_a e) = of_int xa"
    "pt_y (pts ! edge_a e) = of_int ya" "\<bar>xa\<bar> \<le> 2 ^ 23" "\<bar>ya\<bar> \<le> 2 ^ 23"
    unfolding small_int_points_def using nth_mem by blast
  from s ab(2) obtain xb yb :: int where pb: "pt_x (pts ! edge_b e) = of_int xb"
    "pt_y (pts ! edge_b e) = of_int yb" "\<bar>xb\<bar> \<le> 2 ^ 23" "\<bar>yb\<bar> \<le> 2 ^ 23"
    unfolding small_int_points_def using nth_mem by blast
  let ?N = "(xa - xb) * (xa - xb) + (ya - yb) * (ya - yb)"
  note d = dist_of_ints[OF ab pa(1,2) pb(1,2) pa(3,4) pb(3,4)]
  have "sqDist pts e = of_int ?N" by (simp add: sqDist_def pa pb)
  with d show ?thesis by blast
qed

lemma edgeWeight_sqDist: "edgeWeight pts e = sqrt (sqDist pts e)"
  by (simp add: edgeWeight_def sqDist_def Let_def)

lemma weights_faithful:
  assumes s: "small_int_points pts"
    and e: "edge_a e < length pts" "edge_b e < length pts"
    and e': "edge_a e' < length pts" "edge_b e' < length pts"
  shows "\<exists>x x'. primMST_dist pts (edge_a e) (edge_b e) = Inr (Fin x) \<and>
           primMST_dist pts (edge_a e') (edge_b e') = Inr (Fin x') \<and>
           (x < x' \<longleftrightarrow> edgeWeight pts e < edgeWeight pts e')"
proof -
  from small_dist[OF s e] obtain N :: int where N: "0 \<le> N" "N < 2 ^ 50" "sqDist pts e = of_int N"
    "primMST_dist pts (edge_a e) (edge_b e) = Inr (round64 (sqrt (of_int N)))" by blast
  from small_dist[OF s e'] obtain M :: int where M: "0 \<le> M" "M < 2 ^ 50" "sqDist pts e' = of_int M"
    "primMST_dist pts (edge_a e') (edge_b e') = Inr (round64 (sqrt (of_int M)))" by blast
  have w: "edgeWeight pts e < edgeWeight pts e' \<longleftrightarrow> N < M"
    unfolding edgeWeight_sqDist N(3) M(3) by simp
  consider "N < M" | "N = M" | "M < N" by linarith
  then show ?thesis
  proof cases
    case 1
    from round_sqrt_mono[OF N(1) 1 M(2)] obtain r s' where
      "round64 (sqrt (of_int N)) = Fin r" "round64 (sqrt (of_int M)) = Fin s'" "r < s'" by blast
    with N(4) M(4) w 1 show ?thesis by auto
  next
    case 2
    from round_sqrt_fin[OF N(1,2)] obtain r where "round64 (sqrt (of_int N)) = Fin r" by blast
    with N(4) M(4) w 2 show ?thesis by auto
  next
    case 3
    from round_sqrt_mono[OF M(1) 3 N(2)] obtain r s' where
      "round64 (sqrt (of_int M)) = Fin r" "round64 (sqrt (of_int N)) = Fin s'" "r < s'" by blast
    with N(4) M(4) w 3 show ?thesis by auto
  qed
qed

section \<open>Correctness of the spanning tree builder\<close>

lemma adjacent_mono: "S \<subseteq> S' \<Longrightarrow> adjacent S \<subseteq> adjacent S'"
  by (auto simp: adjacent_def)

lemma adjacent_sym: "sym (adjacent S)"
  by (auto simp: adjacent_def sym_def)

lemma adjacent_rtrancl_sym: "(a, b) \<in> (adjacent S)\<^sup>* \<Longrightarrow> (b, a) \<in> (adjacent S)\<^sup>*"
  using sym_rtrancl[OF adjacent_sym[of S]] by (simp add: sym_def)

lemma adjacent_rtrancl_mono: "S \<subseteq> S' \<Longrightarrow> (a, b) \<in> (adjacent S)\<^sup>* \<Longrightarrow> (a, b) \<in> (adjacent S')\<^sup>*"
  using rtrancl_mono[OF adjacent_mono] by blast

lemma adjacent_edge: "e \<in> S \<Longrightarrow> (edge_a e, edge_b e) \<in> adjacent S" "e \<in> S \<Longrightarrow> (edge_b e, edge_a e) \<in> adjacent S"
  by (auto simp: adjacent_def)

lemma adjacentE:
  assumes "(p, q) \<in> adjacent S"
  obtains e where "e \<in> S" "(p = edge_a e \<and> q = edge_b e) \<or> (p = edge_b e \<and> q = edge_a e)"
  using assms by (auto simp: adjacent_def)

text \<open>A walk from inside a set of vertices to outside it has a first edge that leaves the
  set; the walk before it stays inside.\<close>

lemma first_cross:
  assumes "(u, v) \<in> R\<^sup>*" "u \<in> A" "v \<notin> A"
  shows "\<exists>x y. (u, x) \<in> (R \<inter> A \<times> A)\<^sup>* \<and> (x, y) \<in> R \<and> x \<in> A \<and> y \<notin> A \<and> (y, v) \<in> R\<^sup>*"
  using assms
proof (induction rule: converse_rtrancl_induct)
  case base
  then show ?case by simp
next
  case (step u z)
  show ?case
  proof (cases "z \<in> A")
    case False
    with step show ?thesis by blast
  next
    case True
    from step.IH[OF True step.prems(2)] obtain x y where
      xy: "(z, x) \<in> (R \<inter> A \<times> A)\<^sup>*" "(x, y) \<in> R" "x \<in> A" "y \<notin> A" "(y, v) \<in> R\<^sup>*" by blast
    from step.hyps(1) step.prems(1) True have "(u, z) \<in> R \<inter> A \<times> A" by simp
    then have "(u, x) \<in> (R \<inter> A \<times> A)\<^sup>*" using xy(1) by (rule converse_rtrancl_into_rtrancl)
    with xy show ?thesis by blast
  qed
qed

lemma inside_avoids_crossing:
  assumes "crossing A e1"
  shows "adjacent S \<inter> A \<times> A \<subseteq> adjacent (S - {e1})"
proof
  fix pq assume a: "pq \<in> adjacent S \<inter> A \<times> A"
  obtain p q where pq: "pq = (p, q)" by (cases pq)
  with a have "(p, q) \<in> adjacent S" "p \<in> A" "q \<in> A" by auto
  from this(1) obtain e where e: "e \<in> S"
    "(p = edge_a e \<and> q = edge_b e) \<or> (p = edge_b e \<and> q = edge_a e)" by (rule adjacentE)
  with \<open>p \<in> A\<close> \<open>q \<in> A\<close> assms have "e \<noteq> e1" by (auto simp: crossing_def)
  with e have "(p, q) \<in> adjacent (S - {e1})" by (auto simp: adjacent_def)
  with pq show "pq \<in> adjacent (S - {e1})" by simp
qed

text \<open>Removing one edge: every walk either survives, or its end is reachable from an
  endpoint of the removed edge.\<close>

lemma remove_edge_reach:
  assumes "(p, q) \<in> (adjacent S)\<^sup>*"
  shows "(p, q) \<in> (adjacent (S - {e1}))\<^sup>* \<or> (edge_a e1, q) \<in> (adjacent (S - {e1}))\<^sup>*
         \<or> (edge_b e1, q) \<in> (adjacent (S - {e1}))\<^sup>*"
  using assms
proof (induction rule: rtrancl_induct)
  case base
  then show ?case by simp
next
  case (step q q')
  from step.hyps(2) obtain e where e: "e \<in> S"
    "(q = edge_a e \<and> q' = edge_b e) \<or> (q = edge_b e \<and> q' = edge_a e)" by (rule adjacentE)
  show ?case
  proof (cases "e = e1")
    case True
    with e(2) show ?thesis by auto
  next
    case False
    with e have "(q, q') \<in> adjacent (S - {e1})" by (auto simp: adjacent_def)
    with step.IH show ?thesis by (meson rtrancl.rtrancl_into_rtrancl)
  qed
qed

text \<open>The exchange step: if an edge \<open>e\<close> joins \<open>u\<close> inside \<open>A\<close> to \<open>v\<close> outside, and \<open>u\<close>
  and \<open>v\<close> are connected in \<open>S\<close>, then some edge of \<open>S\<close> crossing \<open>A\<close> can be replaced by \<open>e\<close>
  without disconnecting its endpoints.\<close>

lemma replaceable_crossing_edge:
  assumes "finite S" "(u, v) \<in> (adjacent S)\<^sup>*" "u \<in> A" "v \<notin> A" "(u, v) \<in> adjacent {e}"
  shows "\<exists>e'\<in>S. crossing A e' \<and> (edge_a e', edge_b e') \<in> (adjacent (S - {e'} \<union> {e}))\<^sup>*"
  using assms
proof (induction S rule: finite_psubset_induct)
  case (psubset S)
  from first_cross[OF psubset.prems(1,2,3)] obtain x y where
    xy: "(u, x) \<in> (adjacent S \<inter> A \<times> A)\<^sup>*" "(x, y) \<in> adjacent S" "x \<in> A" "y \<notin> A" "(y, v) \<in> (adjacent S)\<^sup>*"
    by blast
  from xy(2) obtain e1 where e1: "e1 \<in> S"
    "(x = edge_a e1 \<and> y = edge_b e1) \<or> (x = edge_b e1 \<and> y = edge_a e1)" by (rule adjacentE)
  with xy(3,4) have cr: "crossing A e1" by (auto simp: crossing_def)
  let ?S1 = "S - {e1}"
  have ux: "(u, x) \<in> (adjacent ?S1)\<^sup>*"
    using rtrancl_mono[OF inside_avoids_crossing[OF cr, of S]] xy(1) by blast
  show ?case
  proof (cases "(y, v) \<in> (adjacent ?S1)\<^sup>*")
    case True
    let ?S' = "?S1 \<union> {e}"
    have "(x, u) \<in> (adjacent ?S')\<^sup>*"
      using adjacent_rtrancl_sym[OF ux] adjacent_rtrancl_mono[of ?S1 ?S'] by blast
    moreover have "(u, v) \<in> (adjacent ?S')\<^sup>*"
      using psubset.prems(4) adjacent_mono[of "{e}" ?S'] by blast
    moreover have "(v, y) \<in> (adjacent ?S')\<^sup>*"
      using adjacent_rtrancl_sym[OF True] adjacent_rtrancl_mono[of ?S1 ?S'] by blast
    ultimately have "(x, y) \<in> (adjacent ?S')\<^sup>*" by (meson rtrancl_trans)
    then have "(edge_a e1, edge_b e1) \<in> (adjacent ?S')\<^sup>*"
      using e1(2) adjacent_rtrancl_sym by blast
    with e1(1) cr show ?thesis by blast
  next
    case False
    from remove_edge_reach[OF xy(5), of e1] False e1(2)
    have "(x, v) \<in> (adjacent ?S1)\<^sup>*" by auto
    with ux have uv: "(u, v) \<in> (adjacent ?S1)\<^sup>*" by (rule rtrancl_trans)
    have "?S1 \<subset> S" using e1(1) by blast
    from psubset.IH[OF this uv psubset.prems(2,3,4)] obtain e' where
      e': "e' \<in> ?S1" "crossing A e'" "(edge_a e', edge_b e') \<in> (adjacent (?S1 - {e'} \<union> {e}))\<^sup>*"
      by blast
    have "?S1 - {e'} \<union> {e} \<subseteq> S - {e'} \<union> {e}" by blast
    from adjacent_rtrancl_mono[OF this e'(3)] e'(1,2) show ?thesis by blast
  qed
qed

lemma connects_exchange:
  assumes c: "connects n S" and e': "e' \<in> S"
    and r: "(edge_a e', edge_b e') \<in> (adjacent (S - {e'} \<union> {e}))\<^sup>*"
  shows "connects n (S - {e'} \<union> {e})"
proof -
  let ?S' = "S - {e'} \<union> {e}"
  have "adjacent S \<subseteq> (adjacent ?S')\<^sup>*"
  proof
    fix pq assume a: "pq \<in> adjacent S"
    obtain p q where pq: "pq = (p, q)" by (cases pq)
    with a obtain e2 where e2: "e2 \<in> S"
      "(p = edge_a e2 \<and> q = edge_b e2) \<or> (p = edge_b e2 \<and> q = edge_a e2)"
      by (auto elim: adjacentE)
    show "pq \<in> (adjacent ?S')\<^sup>*"
    proof (cases "e2 = e'")
      case True
      with e2(2) r adjacent_rtrancl_sym[OF r] pq show ?thesis by auto
    next
      case False
      with e2 have "(p, q) \<in> adjacent ?S'" by (auto simp: adjacent_def)
      with pq show ?thesis by auto
    qed
  qed
  then have "(adjacent S)\<^sup>* \<subseteq> (adjacent ?S')\<^sup>*" by (rule rtrancl_subset_rtrancl)
  with c show ?thesis unfolding connects_def by blast
qed

lemma edgeWeight_nonneg: "0 \<le> edgeWeight pts e"
  by (simp add: edgeWeight_def Let_def)

lemma lightest_exists:
  assumes "finite E" "connects n E"
  shows "\<exists>S. lightest pts n E S"
proof -
  let ?C = "{S. S \<subseteq> E \<and> connects n S}"
  have fin: "finite ?C" using assms(1) by simp
  have ne: "?C \<noteq> {}" using assms(2) by blast
  let ?m = "Min (sum (edgeWeight pts) ` ?C)"
  have "?m \<in> sum (edgeWeight pts) ` ?C" using fin ne by (intro Min_in) auto
  then obtain S where S: "S \<in> ?C" "sum (edgeWeight pts) S = ?m" by auto
  have "sum (edgeWeight pts) S \<le> sum (edgeWeight pts) S'" if "S' \<in> ?C" for S'
    using fin that S(2) by (simp add: Min_le)
  with S(1) show ?thesis unfolding lightest_def by blast
qed

lemma lightest_exchange:
  assumes L: "lightest pts n E S" and finE: "finite E" and e: "e \<in> E"
    and uv: "u \<in> A" "v \<notin> A" "(u, v) \<in> adjacent {e}" "u < n" "v < n"
    and least: "\<forall>e'\<in>E. crossing A e' \<longrightarrow> edgeWeight pts e \<le> edgeWeight pts e'"
    and F: "F \<subseteq> S" "\<forall>f\<in>F. \<not> crossing A f"
  shows "\<exists>S'. lightest pts n E S' \<and> insert e F \<subseteq> S'"
proof (cases "e \<in> S")
  case True
  with L F show ?thesis by blast
next
  case False
  from L have SE: "S \<subseteq> E" and c: "connects n S"
    and opt: "\<forall>S'. S' \<subseteq> E \<and> connects n S' \<longrightarrow> sum (edgeWeight pts) S \<le> sum (edgeWeight pts) S'"
    by (auto simp: lightest_def)
  have finS: "finite S" using SE finE by (rule finite_subset)
  from c uv(4,5) have "(0, u) \<in> (adjacent S)\<^sup>*" "(0, v) \<in> (adjacent S)\<^sup>*" by (auto simp: connects_def)
  then have "(u, v) \<in> (adjacent S)\<^sup>*" using adjacent_rtrancl_sym by (meson rtrancl_trans)
  from replaceable_crossing_edge[OF finS this uv(1,2,3)] obtain e' where
    e': "e' \<in> S" "crossing A e'" "(edge_a e', edge_b e') \<in> (adjacent (S - {e'} \<union> {e}))\<^sup>*"
    by blast
  let ?S' = "S - {e'} \<union> {e}"
  have c': "connects n ?S'" by (rule connects_exchange[OF c e'(1,3)])
  have S'E: "?S' \<subseteq> E" using SE e by blast
  have "sum (edgeWeight pts) ?S' = sum (edgeWeight pts) (S - {e'}) + edgeWeight pts e"
    using finS False by simp
  also have "sum (edgeWeight pts) (S - {e'}) = sum (edgeWeight pts) S - edgeWeight pts e'"
    using finS e'(1) by (simp add: sum_diff1)
  finally have "sum (edgeWeight pts) ?S' \<le> sum (edgeWeight pts) S"
    using least e'(1,2) SE by auto
  with opt have "\<forall>T. T \<subseteq> E \<and> connects n T \<longrightarrow> sum (edgeWeight pts) ?S' \<le> sum (edgeWeight pts) T"
    by (meson order_trans)
  with c' S'E have "lightest pts n E ?S'" unfolding lightest_def by blast
  moreover have "insert e F \<subseteq> ?S'" using F e'(2) by blast
  ultimately show ?thesis by blast
qed

lemma lessBest_Fin:
  "lessBest (Fin x) None" "lessBest (Fin x) (Some (e, Fin y)) = (x < y)"
  by (simp_all add: lessBest_def)

lemma scanEdges_char:
  assumes "\<forall>e\<in>set es. primMST_dist pts (edge_a e) (edge_b e) = Inr (Fin (W e))"
    and "best = None \<or> (\<exists>e0 y. best = Some (e0, Fin y))"
  shows "\<exists>r. scanEdges pts inMST es best = Inr r \<and>
     (case r of
        None \<Rightarrow> best = None \<and> (\<forall>e\<in>set es. \<not> crossing (treeSet inMST) e)
      | Some (e, w) \<Rightarrow>
          (\<exists>x. w = Fin x \<and>
          (\<forall>j<length es. crossing (treeSet inMST) (es ! j) \<longrightarrow> x \<le> W (es ! j)) \<and>
          (r = best \<or>
           (\<exists>i<length es. e = es ! i \<and> crossing (treeSet inMST) e \<and> x = W e \<and>
              lessBest w best \<and>
              (\<forall>j<i. crossing (treeSet inMST) (es ! j) \<longrightarrow> x < W (es ! j))))))"
  using assms
proof (induction es arbitrary: best)
  case Nil
  then show ?case by (cases best) auto
next
  case (Cons e es)
  from Cons.prems have wf: "\<forall>e\<in>set es. primMST_dist pts (edge_a e) (edge_b e) = Inr (Fin (W e))"
    and d: "primMST_dist pts (edge_a e) (edge_b e) = Inr (Fin (W e))"
    by auto
  have cr: "crossing (treeSet inMST) e =
    ((inAt inMST (edge_a e) \<and> \<not> inAt inMST (edge_b e)) \<or> (\<not> inAt inMST (edge_a e) \<and> inAt inMST (edge_b e)))"
    by (simp add: crossing_def treeSet_def)
  let ?cr = "crossing (treeSet inMST)"
  show ?case
  proof (cases "?cr e \<and> lessBest (Fin (W e)) best")
    case True
    then have s: "scanEdges pts inMST (e # es) best = scanEdges pts inMST es (Some (e, Fin (W e)))"
      using cr d by (simp add: Let_def)
    have b': "Some (e, Fin (W e)) = None \<or> (\<exists>e0 y. Some (e, Fin (W e)) = Some (e0, Fin y))" by simp
    from Cons.IH[OF wf b'] obtain r where
      r: "scanEdges pts inMST es (Some (e, Fin (W e))) = Inr r"
      and c: "case r of
        None \<Rightarrow> Some (e, Fin (W e)) = None \<and> (\<forall>e\<in>set es. \<not> ?cr e)
      | Some (e', w) \<Rightarrow>
          (\<exists>x. w = Fin x \<and>
          (\<forall>j<length es. ?cr (es ! j) \<longrightarrow> x \<le> W (es ! j)) \<and>
          (r = Some (e, Fin (W e)) \<or>
           (\<exists>i<length es. e' = es ! i \<and> ?cr e' \<and> x = W e' \<and>
              lessBest w (Some (e, Fin (W e))) \<and>
              (\<forall>j<i. ?cr (es ! j) \<longrightarrow> x < W (es ! j)))))"
      by blast
    from c obtain e' x where r': "r = Some (e', Fin x)" by (cases r) auto
    from c r' have all: "\<forall>j<length es. ?cr (es ! j) \<longrightarrow> x \<le> W (es ! j)" by simp
    from c r' consider (same) "e' = e" "x = W e"
      | (later) i where "i < length es" "e' = es ! i" "?cr e'" "x = W e'" "x < W e"
          "\<forall>j<i. ?cr (es ! j) \<longrightarrow> x < W (es ! j)"
      by (auto simp: lessBest_Fin)
    then have "(\<forall>j<length (e # es). ?cr ((e # es) ! j) \<longrightarrow> x \<le> W ((e # es) ! j)) \<and>
           (\<exists>i<length (e # es). e' = (e # es) ! i \<and> ?cr e' \<and> x = W e' \<and>
              lessBest (Fin x) best \<and>
              (\<forall>j<i. ?cr ((e # es) ! j) \<longrightarrow> x < W ((e # es) ! j)))"
    proof cases
      case same
      have "\<forall>j<length (e # es). ?cr ((e # es) ! j) \<longrightarrow> x \<le> W ((e # es) ! j)"
        using all same by (auto simp: nth_Cons split: nat.splits)
      moreover have "0 < length (e # es) \<and> e' = (e # es) ! 0 \<and> ?cr e' \<and> x = W e' \<and>
              lessBest (Fin x) best \<and> (\<forall>j<0. ?cr ((e # es) ! j) \<longrightarrow> x < W ((e # es) ! j))"
        using same True by simp
      ultimately show ?thesis by blast
    next
      case later
      have "\<forall>j<length (e # es). ?cr ((e # es) ! j) \<longrightarrow> x \<le> W ((e # es) ! j)"
        using all later(5) by (auto simp: nth_Cons split: nat.splits)
      moreover have "lessBest (Fin x) best"
        using True later(5) Cons.prems(2) by (auto simp: lessBest_Fin)
      moreover have "\<forall>j<Suc i. ?cr ((e # es) ! j) \<longrightarrow> x < W ((e # es) ! j)"
        using later(5,6) by (auto simp: nth_Cons split: nat.splits)
      ultimately have "(\<forall>j<length (e # es). ?cr ((e # es) ! j) \<longrightarrow> x \<le> W ((e # es) ! j)) \<and>
         Suc i < length (e # es) \<and> e' = (e # es) ! Suc i \<and> ?cr e' \<and> x = W e' \<and>
              lessBest (Fin x) best \<and>
              (\<forall>j<Suc i. ?cr ((e # es) ! j) \<longrightarrow> x < W ((e # es) ! j))"
        using later(1-4) by simp
      then show ?thesis by blast
    qed
    with s r r' show ?thesis by simp
  next
    case False
    then have s: "scanEdges pts inMST (e # es) best = scanEdges pts inMST es best"
      using cr d by (auto simp: Let_def)
    from Cons.IH[OF wf Cons.prems(2)] obtain r where
      r: "scanEdges pts inMST es best = Inr r"
      and c: "case r of
        None \<Rightarrow> best = None \<and> (\<forall>e\<in>set es. \<not> ?cr e)
      | Some (e', w) \<Rightarrow>
          (\<exists>x. w = Fin x \<and>
          (\<forall>j<length es. ?cr (es ! j) \<longrightarrow> x \<le> W (es ! j)) \<and>
          (r = best \<or>
           (\<exists>i<length es. e' = es ! i \<and> ?cr e' \<and> x = W e' \<and>
              lessBest w best \<and>
              (\<forall>j<i. ?cr (es ! j) \<longrightarrow> x < W (es ! j)))))"
      by blast
    show ?thesis
    proof (cases r)
      case None
      with c False have "best = None \<and> (\<forall>e\<in>set (e # es). \<not> ?cr e)"
        by (auto simp: lessBest_Fin)
      with s r None show ?thesis by simp
    next
      case (Some ew)
      from c Some obtain e' x where ew: "ew = (e', Fin x)" by (cases ew) auto
      from c Some ew have all: "\<forall>j<length es. ?cr (es ! j) \<longrightarrow> x \<le> W (es ! j)" by simp
      from c Some ew consider (same) "best = Some (e', Fin x)"
        | (later) i where "i < length es" "e' = es ! i" "?cr e'" "x = W e'" "lessBest (Fin x) best"
          "\<forall>j<i. ?cr (es ! j) \<longrightarrow> x < W (es ! j)"
        by auto
      then have "(\<forall>j<length (e # es). ?cr ((e # es) ! j) \<longrightarrow> x \<le> W ((e # es) ! j)) \<and>
          (r = best \<or>
           (\<exists>i<length (e # es). e' = (e # es) ! i \<and> ?cr e' \<and> x = W e' \<and>
              lessBest (Fin x) best \<and>
              (\<forall>j<i. ?cr ((e # es) ! j) \<longrightarrow> x < W ((e # es) ! j))))"
      proof cases
        case same
        with False have "?cr e \<longrightarrow> x \<le> W e" by (auto simp: lessBest_Fin)
        with all have "\<forall>j<length (e # es). ?cr ((e # es) ! j) \<longrightarrow> x \<le> W ((e # es) ! j)"
          by (auto simp: nth_Cons split: nat.splits)
        with same Some ew show ?thesis by simp
      next
        case later
        have e0: "?cr e \<longrightarrow> x < W e"
          using False later(5) Cons.prems(2) by (auto simp: lessBest_Fin)
        with all have "\<forall>j<length (e # es). ?cr ((e # es) ! j) \<longrightarrow> x \<le> W ((e # es) ! j)"
          by (auto simp: nth_Cons split: nat.splits)
        moreover have "\<forall>j<Suc i. ?cr ((e # es) ! j) \<longrightarrow> x < W ((e # es) ! j)"
          using e0 later(6) by (auto simp: nth_Cons split: nat.splits)
        ultimately have "(\<forall>j<length (e # es). ?cr ((e # es) ! j) \<longrightarrow> x \<le> W ((e # es) ! j)) \<and>
         Suc i < length (e # es) \<and> e' = (e # es) ! Suc i \<and> ?cr e' \<and> x = W e' \<and>
              lessBest (Fin x) best \<and>
              (\<forall>j<Suc i. ?cr ((e # es) ! j) \<longrightarrow> x < W ((e # es) ! j))"
          using later(1-5) by simp
        then show ?thesis by blast
      qed
      with s r Some ew show ?thesis by simp
    qed
  qed
qed

lemma scanEdges_first_minimum:
  assumes wf: "\<forall>e\<in>set es. edge_a e < length pts \<and> edge_b e < length pts"
    and small: "small_int_points pts"
  shows "\<exists>r. scanEdges pts inMST es None = Inr r \<and> first_minimum pts inMST es r"
proof -
  have "\<forall>e\<in>set es. \<exists>x. primMST_dist pts (edge_a e) (edge_b e) = Inr (Fin x)"
    using weights_faithful[OF small] wf by blast
  then obtain W where W: "\<forall>e\<in>set es. primMST_dist pts (edge_a e) (edge_b e) = Inr (Fin (W e))"
    by metis
  have lt: "W e < W e' \<longleftrightarrow> edgeWeight pts e < edgeWeight pts e'"
    if "e \<in> set es" "e' \<in> set es" for e e'
    using weights_faithful[OF small, of e e'] W wf that by fastforce
  have le: "W e \<le> W e' \<longleftrightarrow> edgeWeight pts e \<le> edgeWeight pts e'"
    if "e \<in> set es" "e' \<in> set es" for e e'
    using lt[OF that(2,1)] by (simp only: not_less[symmetric])
  from scanEdges_char[OF W, of None inMST] obtain r where
    r: "scanEdges pts inMST es None = Inr r"
    and c: "case r of
        None \<Rightarrow> None = (None :: (Edge \<times> number) option) \<and> (\<forall>e\<in>set es. \<not> crossing (treeSet inMST) e)
      | Some (e, w) \<Rightarrow>
          (\<exists>x. w = Fin x \<and>
          (\<forall>j<length es. crossing (treeSet inMST) (es ! j) \<longrightarrow> x \<le> W (es ! j)) \<and>
          (r = None \<or>
           (\<exists>i<length es. e = es ! i \<and> crossing (treeSet inMST) e \<and> x = W e \<and>
              lessBest w None \<and>
              (\<forall>j<i. crossing (treeSet inMST) (es ! j) \<longrightarrow> x < W (es ! j)))))"
    by blast
  have "first_minimum pts inMST es r"
  proof (cases r)
    case None
    with c show ?thesis by (simp add: first_minimum_def)
  next
    case (Some ew)
    with c obtain e x i where ew: "ew = (e, Fin x)"
      and all: "\<forall>j<length es. crossing (treeSet inMST) (es ! j) \<longrightarrow> x \<le> W (es ! j)"
      and i: "i < length es" "e = es ! i" "crossing (treeSet inMST) e" "x = W e"
        "\<forall>j<i. crossing (treeSet inMST) (es ! j) \<longrightarrow> x < W (es ! j)"
      by (cases ew) auto
    have ein: "e \<in> set es" using i(1,2) by simp
    have d: "primMST_dist pts (edge_a e) (edge_b e) = Inr (Fin x)" using W ein i(4) by simp
    have 1: "\<forall>j<i. crossing (treeSet inMST) (es ! j) \<longrightarrow> edgeWeight pts e < edgeWeight pts (es ! j)"
      using i(1,4,5) lt[OF ein] by auto
    have 2: "\<forall>j<length es. crossing (treeSet inMST) (es ! j) \<longrightarrow> edgeWeight pts e \<le> edgeWeight pts (es ! j)"
      using all i(4) le[OF ein] by auto
    show ?thesis
      unfolding first_minimum_def Some ew using i(1,2,3) d 1 2 by auto
  qed
  with r show ?thesis by blast
qed

lemma treeSet_bounded: "treeSet inMST \<subseteq> {..<length inMST}"
  by (auto simp: treeSet_def inAt_def)

lemma finite_treeSet: "finite (treeSet inMST)"
  using treeSet_bounded by (rule finite_subset) simp

lemma treeSet_update:
  "a < length inMST \<Longrightarrow> b < length inMST \<Longrightarrow>
   treeSet (inMST[a := True, b := True]) = insert a (insert b (treeSet inMST))"
  by (auto simp: treeSet_def inAt_def nth_list_update)

lemma treeMarks_snoc:
  "treeMarks n (F @ [e]) = (treeMarks n F)[edge_a e := True, edge_b e := True]"
  by (simp add: treeMarks_def)

lemma prim_inv_start:
  assumes "0 < n" "connects n (set es)"
  shows "prim_inv pts es n ((replicate n False)[0 := True]) []"
proof -
  have t: "treeSet ((replicate n False)[0 := True]) = {0}"
    using assms(1) by (auto simp: treeSet_def inAt_def nth_list_update)
  from lightest_exists[OF _ assms(2), of pts] obtain S where "lightest pts n (set es) S" by auto
  then show ?thesis
    unfolding prim_inv_def using assms(1) t
    by (auto simp: treeMarks_def inAt_def)
qed

lemma prim_step:
  assumes inv: "prim_inv pts es n inMST F"
    and wf: "\<forall>e\<in>set es. edge_a e < n \<and> edge_b e < n"
    and n: "length pts = n"
    and con: "connects n (set es)"
    and more: "length F < n - 1"
    and small: "small_int_points pts"
  shows "\<exists>e w. pickEdge pts es n inMST = Inr (Some (e, w)) \<and>
     prim_inv pts es n (inMST[edge_a e := True, edge_b e := True]) (F @ [e])"
proof -
  let ?A = "treeSet inMST"
  from inv have len: "length inMST = n" and zero: "0 \<in> ?A"
    and Fes: "set F \<subseteq> set es"
    and Fin: "\<forall>e\<in>set F. edge_a e \<in> ?A \<and> edge_b e \<in> ?A"
    and reach: "\<forall>v\<in>?A. (0, v) \<in> (adjacent (set F))\<^sup>*"
    and card: "card ?A = length F + 1" and dist: "distinct F"
    and marks: "inMST = treeMarks n F"
    and hist: "\<forall>k<length F. \<exists>w. scanEdges pts (treeMarks n (take k F)) es None = Inr (Some (F ! k, w))"
    by (auto simp: prim_inv_def treeSet_def)
  from inv obtain S where S: "lightest pts n (set es) S" "set F \<subseteq> S"
    by (auto simp: prim_inv_def)
  have sub: "?A \<subseteq> {..<n}" using treeSet_bounded[of inMST] len by simp
  have "?A \<noteq> {..<n}"
  proof
    assume "?A = {..<n}"
    then have "card ?A = n" by simp
    with card more show False by simp
  qed
  with sub obtain v where v: "v < n" "v \<notin> ?A" by blast
  from con v(1) have "(0, v) \<in> (adjacent (set es))\<^sup>*" by (simp add: connects_def)
  from first_cross[OF this zero v(2)] obtain x y where
    xy: "(x, y) \<in> adjacent (set es)" "x \<in> ?A" "y \<notin> ?A" by blast
  from xy(1) obtain e0 where e0: "e0 \<in> set es"
    "(x = edge_a e0 \<and> y = edge_b e0) \<or> (x = edge_b e0 \<and> y = edge_a e0)" by (rule adjacentE)
  with xy(2,3) have cr0: "crossing ?A e0" by (auto simp: crossing_def)
  have wf': "\<forall>e\<in>set es. edge_a e < length pts \<and> edge_b e < length pts" using wf n by simp
  from scanEdges_first_minimum[OF wf' small, of inMST] obtain r where
    r: "scanEdges pts inMST es None = Inr r" "first_minimum pts inMST es r" by blast
  from r(2) e0(1) cr0 obtain e w where ew: "r = Some (e, w)"
    by (cases r) (auto simp: first_minimum_def)
  with r(2) obtain i where i: "i < length es" "e = es ! i" "crossing ?A e"
    "\<forall>j<length es. crossing ?A (es ! j) \<longrightarrow> edgeWeight pts e \<le> edgeWeight pts (es ! j)"
    by (auto simp: first_minimum_def)
  have ees: "e \<in> set es" using i(1,2) by simp
  have least: "\<forall>e'\<in>set es. crossing ?A e' \<longrightarrow> edgeWeight pts e \<le> edgeWeight pts e'"
    using i(4) by (auto simp: in_set_conv_nth)
  have pick: "pickEdge pts es n inMST = Inr (Some (e, w))"
    using r(1) ew by (simp add: pickEdge_def)
  from wf ees have eb: "edge_a e < n" "edge_b e < n" by auto
  from i(3) obtain u v' where uv: "u \<in> ?A" "v' \<notin> ?A" "(u, v') \<in> adjacent {e}"
    "{edge_a e, edge_b e} = {u, v'}"
    by (auto simp: crossing_def adjacent_def)
  have ub: "u < n" "v' < n" using uv(4) eb by (auto simp: doubleton_eq_iff)
  let ?in' = "inMST[edge_a e := True, edge_b e := True]"
  have A': "treeSet ?in' = insert v' ?A"
    using treeSet_update[of "edge_a e" inMST "edge_b e"] eb len uv(1,4) by auto
  have notF: "e \<notin> set F" using Fin i(3) by (auto simp: crossing_def)
  have Fnc: "\<forall>f\<in>set F. \<not> crossing ?A f" using Fin by (auto simp: crossing_def)
  from lightest_exchange[OF S(1) _ ees uv(1,2,3) ub least S(2) Fnc]
  obtain S' where S': "lightest pts n (set es) S'" "insert e (set F) \<subseteq> S'" by auto
  have "prim_inv pts es n ?in' (F @ [e])"
    unfolding prim_inv_def
  proof (intro conjI)
    show "length ?in' = n" using len by simp
    show "inAt ?in' 0" using zero A' by (auto simp: treeSet_def)
    show "set (F @ [e]) \<subseteq> set es" using Fes ees by simp
    show "\<forall>e\<in>set (F @ [e]). edge_a e \<in> treeSet ?in' \<and> edge_b e \<in> treeSet ?in'"
      using Fin A' uv(1,4) by (auto simp: doubleton_eq_iff)
    show "\<forall>v\<in>treeSet ?in'. (0, v) \<in> (adjacent (set (F @ [e])))\<^sup>*"
    proof
      fix z assume "z \<in> treeSet ?in'"
      with A' consider "z \<in> ?A" | "z = v'" by auto
      then show "(0, z) \<in> (adjacent (set (F @ [e])))\<^sup>*"
      proof cases
        case 1
        with reach have "(0, z) \<in> (adjacent (set F))\<^sup>*" by blast
        then show ?thesis by (rule adjacent_rtrancl_mono[rotated]) auto
      next
        case 2
        from reach uv(1) have "(0, u) \<in> (adjacent (set F))\<^sup>*" by blast
        then have "(0, u) \<in> (adjacent (set (F @ [e])))\<^sup>*" by (rule adjacent_rtrancl_mono[rotated]) auto
        moreover have "(u, v') \<in> adjacent (set (F @ [e]))"
          using uv(3) adjacent_mono[of "{e}" "set (F @ [e])"] by auto
        ultimately show ?thesis using 2 by (meson rtrancl.rtrancl_into_rtrancl)
      qed
    qed
    show "card (treeSet ?in') = length (F @ [e]) + 1"
      using A' uv(2) card finite_treeSet[of inMST] by simp
    show "distinct (F @ [e])" using dist notF by simp
    show "\<exists>S. lightest pts n (set es) S \<and> set (F @ [e]) \<subseteq> S" using S' by auto
    show "?in' = treeMarks n (F @ [e])" using marks by (simp add: treeMarks_snoc)
    show "\<forall>k<length (F @ [e]). \<exists>w. scanEdges pts (treeMarks n (take k (F @ [e]))) es None
                      = Inr (Some ((F @ [e]) ! k, w))"
    proof (intro allI impI)
      fix k assume "k < length (F @ [e])"
      then consider "k < length F" | "k = length F" by fastforce
      then show "\<exists>w. scanEdges pts (treeMarks n (take k (F @ [e]))) es None
                      = Inr (Some ((F @ [e]) ! k, w))"
      proof cases
        case 1
        with hist show ?thesis by (simp add: nth_append)
      next
        case 2
        with r(1) ew marks show ?thesis by simp
      qed
    qed
  qed
  with pick show ?thesis by blast
qed

lemma sum_list_remdups_le:
  fixes f :: "'a \<Rightarrow> real"
  assumes "\<forall>x. 0 \<le> f x"
  shows "sum_list (map f (remdups xs)) \<le> sum_list (map f xs)"
proof (induction xs)
  case Nil
  then show ?case by simp
next
  case (Cons x xs)
  then show ?case using assms[rule_format, of x] by auto
qed

lemma prim_final:
  assumes inv: "prim_inv pts es n inMST F" and n: "0 < n" and stop: "\<not> length F < n - 1"
  shows "length F = n - 1 \<and> connects n (set F) \<and>
     (\<forall>T. set T \<subseteq> set es \<and> connects n (set T) \<longrightarrow> totalWeight pts F \<le> totalWeight pts T)"
proof -
  let ?A = "treeSet inMST"
  from inv have len: "length inMST = n"
    and reach: "\<forall>v\<in>?A. (0, v) \<in> (adjacent (set F))\<^sup>*"
    and card: "card ?A = length F + 1" and dist: "distinct F"
    by (auto simp: prim_inv_def)
  from inv obtain S where S: "lightest pts n (set es) S" "set F \<subseteq> S"
    by (auto simp: prim_inv_def)
  have sub: "?A \<subseteq> {..<n}" using treeSet_bounded[of inMST] len by simp
  then have "card ?A \<le> n" using card_mono[of "{..<n}" ?A] by simp
  with card stop have l: "length F = n - 1" and c: "card ?A = n" by auto
  from sub c have "?A = {..<n}" by (simp add: card_subset_eq)
  with reach have con: "connects n (set F)" by (auto simp: connects_def)
  have "totalWeight pts F \<le> totalWeight pts T" if T: "set T \<subseteq> set es" "connects n (set T)" for T
  proof -
    have finS: "finite S" using S(1) by (auto simp: lightest_def intro: finite_subset)
    have "totalWeight pts F = sum (edgeWeight pts) (set F)"
      using dist by (simp add: totalWeight_def sum_list_distinct_conv_sum_set)
    also have "\<dots> \<le> sum (edgeWeight pts) S"
      using S(2) finS by (intro sum_mono2) (auto simp: edgeWeight_nonneg)
    also have "\<dots> \<le> sum (edgeWeight pts) (set T)"
      using S(1) T by (auto simp: lightest_def)
    also have "\<dots> = sum_list (map (edgeWeight pts) (remdups T))"
      by (simp add: sum_list_distinct_conv_sum_set)
    also have "\<dots> \<le> totalWeight pts T"
      unfolding totalWeight_def by (rule sum_list_remdups_le) (simp add: edgeWeight_nonneg)
    finally show ?thesis .
  qed
  with l con show ?thesis by blast
qed

declare primLoop.simps [simp del]

lemma primLoop_correct:
  "prim_inv pts es n inMST F \<Longrightarrow> \<forall>e\<in>set es. edge_a e < n \<and> edge_b e < n \<Longrightarrow>
   length pts = n \<Longrightarrow> connects n (set es) \<Longrightarrow> small_int_points pts \<Longrightarrow>
   \<exists>mst. primLoop pts es n inMST F = Inr mst \<and> prim_inv pts es n (treeMarks n mst) mst \<and>
     \<not> length mst < n - 1"
proof (induction pts es n inMST F rule: primLoop.induct)
  case (1 pts es n inMST mstEdges)
  show ?case
  proof (cases "length mstEdges < n - 1")
    case False
    have "primLoop pts es n inMST mstEdges = Inr mstEdges"
      using False by (subst primLoop.simps) simp
    moreover have "inMST = treeMarks n mstEdges" using "1.prems"(1) by (simp add: prim_inv_def)
    ultimately show ?thesis using "1.prems"(1) False by auto
  next
    case True
    from prim_step[OF "1.prems"(1,2,3,4) True "1.prems"(5)] obtain e w where
      pick: "pickEdge pts es n inMST = Inr (Some (e, w))"
      and inv': "prim_inv pts es n (inMST[edge_a e := True, edge_b e := True]) (mstEdges @ [e])"
      by blast
    have "primLoop pts es n inMST mstEdges =
          primLoop pts es n (inMST[edge_a e := True, edge_b e := True]) (mstEdges @ [e])"
      using True pick by (subst primLoop.simps) simp
    moreover have "\<exists>mst. primLoop pts es n (inMST[edge_a e := True, edge_b e := True]) (mstEdges @ [e])
        = Inr mst \<and> prim_inv pts es n (treeMarks n mst) mst \<and> \<not> length mst < n - 1"
      by (rule "1.IH"[OF True pick refl refl inv' "1.prems"(2,3,4,5)])
    ultimately show ?thesis by simp
  qed
qed

lemma primMST_correct:
  assumes ne: "points g \<noteq> []"
    and wf: "\<forall>e\<in>set (edges g). edge_a e < length (points g) \<and> edge_b e < length (points g)"
    and con: "connects (length (points g)) (set (edges g))"
    and small: "small_int_points (points g)"
  shows "\<exists>mst. primMST g = Inr \<lparr>points = points g, edges = mst, triangles = None\<rparr> \<and>
     prim_inv (points g) (edges g) (length (points g)) (treeMarks (length (points g)) mst) mst \<and>
     \<not> length mst < length (points g) - 1"
proof (cases "length (points g) = 1")
  case True
  then obtain p where p: "points g = [p]" by (cases "points g") auto
  have "prim_inv (points g) (edges g) 1 ((replicate 1 False)[0 := True]) []"
    using con True by (intro prim_inv_start) auto
  then show ?thesis using p by (simp add: primMST_def Let_def treeMarks_def)
next
  case False
  let ?n = "length (points g)"
  from ne False have n: "0 < ?n" "?n \<noteq> 0" "?n \<noteq> 1" by auto
  have start: "prim_inv (points g) (edges g) ?n ((replicate ?n False)[0 := True]) []"
    using n(1) con by (rule prim_inv_start)
  from primLoop_correct[OF start wf refl con small] obtain mst where
    mst: "primLoop (points g) (edges g) ?n ((replicate ?n False)[0 := True]) [] = Inr mst"
      "prim_inv (points g) (edges g) ?n (treeMarks ?n mst) mst" "\<not> length mst < ?n - 1"
    by blast
  have "primMST g = Inr \<lparr>points = points g, edges = mst, triangles = None\<rparr>"
    unfolding primMST_def using n(2,3) mst(1) by (simp add: Let_def)
  with mst show ?thesis by blast
qed

section \<open>Evaluations of the spanning tree builder\<close>

lemma round64_pow2_overflow:
  assumes "1024 \<le> n"
  shows "round64 (2 ^ n) = PosInf"
proof -
  define x :: real where "x = 2 ^ n"
  have xp: "x = 2 powr of_int (int n)" by (simp add: x_def powr_realpow)
  have x0: "0 < x" "x \<noteq> 0" "\<bar>x\<bar> = x" by (simp_all add: x_def)
  have lo: "2 powr of_int (int n) \<le> \<bar>x\<bar>" using x0(3) xp by simp
  have "x < 2 powr of_int (int n + 1)" unfolding xp by (intro powr_less_mono) simp_all
  then have hi: "\<bar>x\<bar> < 2 powr of_int (int n + 1)" using x0(3) by simp
  define e where "e = \<lfloor>log 2 \<bar>x\<bar>\<rfloor>"
  from floor_log2_bounds[OF lo hi] have e: "e = int n" by (simp add: e_def)
  have m: "max e (- 1022) = e" using e by simp
  define u :: real where "u = 2 powr (of_int e - 52)"
  have u0: "0 < u" by (simp add: u_def)
  have "u * 2 powr 52 = 2 powr (of_int e - 52 + 52)" unfolding u_def by (simp only: powr_add)
  also have "\<dots> = x" using e xp by simp
  finally have ux: "u * 2 powr 52 = x" .
  have p52: "(2 :: real) powr 52 = of_int (2 ^ 52)" using powr_realpow[of 2 52] by simp
  have "x / u = of_int (2 ^ 52)" using ux u0 unfolding p52 by (simp add: field_simps)
  then have r: "u * of_int (round_even (x / u)) = x"
    using ux p52 by (simp only: round_even_int)
  have "2 powr 1024 \<le> x" unfolding xp using assms by (intro powr_mono) simp_all
  then have big: "\<bar>x\<bar> \<ge> 2 powr 1024" using x0(3) by simp
  show ?thesis
    unfolding x_def[symmetric] round64_def Let_def e_def[symmetric] m u_def[symmetric] r
    using x0 big by simp
qed

lemma round64_neg_pow2:
  assumes "n < 1024"
  shows "round64 (- (2 ^ n)) = Fin (- (2 ^ n))"
proof -
  have "(2 :: real) ^ n < 2 ^ 1024" using assms by (intro power_strict_increasing) simp_all
  also have "(2 :: real) ^ 1024 \<le> 2 powr 1024" by (rule pow2_below_top) simp
  finally have "\<bar>- ((2 :: real) ^ n)\<bar> < 2 powr 1024" by simp
  from round64_exact[of "- (2 ^ n)" "- 1" n, OF _ _ _ this] show ?thesis by simp
qed

lemma round64_zero: "round64 0 = Fin 0"
  by (simp add: round64_def)

lemma far_dist: "primMST_dist far_points 0 1 = Inr PosInf"
proof -
  have dx: "num_sub (Fin 0) (Fin (2 ^ 700)) = Fin (- (2 ^ 700))"
    using round64_neg_pow2[of 700] by (simp add: num_sub_def)
  have dy: "num_sub (Fin 0) (Fin 0) = Fin 0" by (simp add: num_sub_def round64_def)
  have n: "(700 :: nat) + 700 = 1400" by simp
  have "(- ((2 :: real) ^ 700)) * (- (2 ^ 700)) = 2 ^ 1400"
    unfolding minus_mult_minus power_add[symmetric] n ..
  then have xx: "num_mul (Fin (- (2 ^ 700))) (Fin (- (2 ^ 700))) = PosInf"
    using round64_pow2_overflow[of 1400] by (simp only: num_mul.simps)
  have yy: "num_mul (Fin 0) (Fin 0) = Fin 0" by (simp add: round64_def)
  show ?thesis
    unfolding primMST_dist_def far_points_def Let_def
    using round64_pow2_overflow[of 1400]
    by (simp add: dx dy xx yy round64_zero del: power_numeral)
qed

lemma upt2: "[0..<2] = [0, 1]" by (simp add: numeral_2_eq_2 upt_rec)

lemma upt3: "[0..<3] = [0, 1, 2]" by (simp add: numeral_3_eq_3 upt_rec)

lemma marks2: "(replicate 2 False)[0 := True] = [True, False]"
  by (simp add: numeral_2_eq_2)

lemma marks3: "(replicate 3 False)[0 := True] = [True, False, False]"
  by (simp add: numeral_3_eq_3)

lemma far_pick: "pickEdge far_points [\<lparr>edge_a = 0, edge_b = 1\<rparr>] 2 [True, False] = Inr None"
  using far_dist by (simp add: pickEdge_def upt2 inAt_def lessBest_def Let_def)

lemma far_mst:
  "primMST \<lparr>points = far_points, edges = [\<lparr>edge_a = 0, edge_b = 1\<rparr>], triangles = None\<rparr>
     = Inr \<lparr>points = far_points, edges = [], triangles = None\<rparr>"
proof -
  have l: "length far_points = 2" by (simp add: far_points_def)
  have r: "primLoop far_points [\<lparr>edge_a = 0, edge_b = 1\<rparr>] 2 [True, False] [] = Inr []"
    using far_pick by (subst primLoop.simps) simp
  show ?thesis
    unfolding primMST_def by (simp only: Let_def Graph.simps l marks2 r) simp
qed

lemma far_connected: "connects 2 (set [\<lparr>edge_a = 0, edge_b = 1\<rparr>])"
  unfolding connects_def
proof (intro allI impI)
  fix v :: nat assume "v < 2"
  then consider "v = 0" | "v = 1" by linarith
  then show "(0, v) \<in> (adjacent (set [\<lparr>edge_a = 0, edge_b = 1\<rparr>]))\<^sup>*"
    using adjacent_edge(1)[of "\<lparr>edge_a = 0, edge_b = 1\<rparr>" "set [\<lparr>edge_a = 0, edge_b = 1\<rparr>]"]
    by cases auto
qed

lemma row_graph:
  "createGraphFromPoints row_points = \<lparr>points = row_points, edges = [], triangles = Some []\<rparr>"
  unfolding createGraphFromPoints_def row_points_def
  apply (simp add: boundsStep_def Let_def upt3)
  apply (simp add: insertPoint_def circumcircleContains_def Let_def triangleEdges_def toggleEdge_def
      edgeKey_def addEdgeOnce_def)
  done

lemma round_sqrt_square:
  fixes m :: int
  assumes "0 \<le> m" "m < 2 ^ 53"
  shows "round64 (sqrt (of_int (m * m))) = Fin (of_int m)"
proof -
  have "sqrt (of_int (m * m)) = of_int m" using assms(1) by simp
  moreover have "\<bar>m\<bar> < 2 ^ 53" using assms by simp
  ultimately show ?thesis using round64_int[of m] by simp
qed

lemma row_dist:
  "primMST_dist row_points 0 1 = Inr (Fin 20)" "primMST_dist row_points 0 2 = Inr (Fin 10)"
proof -
  have "primMST_dist row_points 0 1 = Inr (round64 (sqrt (of_int ((5 - 25) * (5 - 25) + (5 - 5) * (5 - 5)))))"
    by (rule dist_of_ints(1)) (simp_all add: row_points_def)
  then show "primMST_dist row_points 0 1 = Inr (Fin 20)"
    using round_sqrt_square[of 20] by simp
  have "primMST_dist row_points 0 2 = Inr (round64 (sqrt (of_int ((5 - 15) * (5 - 15) + (5 - 5) * (5 - 5)))))"
    by (rule dist_of_ints(1)) (simp_all add: row_points_def)
  then show "primMST_dist row_points 0 2 = Inr (Fin 10)"
    using round_sqrt_square[of 10] by simp
qed

lemma row_pick1: "pickEdge row_points [] 3 [True, False, False]
    = Inr (Some (\<lparr>edge_a = 0, edge_b = 1\<rparr>, Fin 20))"
  using row_dist by (simp add: pickEdge_def upt3 inAt_def lessBest_def Let_def)

lemma row_pick2: "pickEdge row_points [] 3 [True, True, False]
    = Inr (Some (\<lparr>edge_a = 0, edge_b = 2\<rparr>, Fin 10))"
  using row_dist by (simp add: pickEdge_def upt3 inAt_def lessBest_def Let_def)

lemma row_mst: "primMST \<lparr>points = row_points, edges = [], triangles = Some []\<rparr>
   = Inr \<lparr>points = row_points, edges = [\<lparr>edge_a = 0, edge_b = 1\<rparr>, \<lparr>edge_a = 0, edge_b = 2\<rparr>], triangles = None\<rparr>"
proof -
  have l: "length row_points = 3" by (simp add: row_points_def)
  have "primLoop row_points [] 3 [True, False, False] []
      = primLoop row_points [] 3 [True, True, False] [\<lparr>edge_a = 0, edge_b = 1\<rparr>]"
    by (subst primLoop.simps) (simp add: row_pick1)
  also have "\<dots> = primLoop row_points [] 3 [True, True, True]
        [\<lparr>edge_a = 0, edge_b = 1\<rparr>, \<lparr>edge_a = 0, edge_b = 2\<rparr>]"
    by (subst primLoop.simps) (simp add: row_pick2)
  also have "\<dots> = Inr [\<lparr>edge_a = 0, edge_b = 1\<rparr>, \<lparr>edge_a = 0, edge_b = 2\<rparr>]"
    by (subst primLoop.simps) simp
  finally have r: "primLoop row_points [] 3 [True, False, False] []
      = Inr [\<lparr>edge_a = 0, edge_b = 1\<rparr>, \<lparr>edge_a = 0, edge_b = 2\<rparr>]" .
  show ?thesis
    unfolding primMST_def by (simp only: Let_def Graph.simps l marks3 r) simp
qed

lemma tri_weights:
  "edgeWeight tri_points \<lparr>edge_a = 1, edge_b = 0\<rparr> = 3"
  "edgeWeight tri_points \<lparr>edge_a = 0, edge_b = 2\<rparr> = 4"
  "edgeWeight tri_points \<lparr>edge_a = 2, edge_b = 1\<rparr> = 5"
  using real_sqrt_abs2[of 3] real_sqrt_abs2[of 4] real_sqrt_abs2[of 5]
  by (simp_all add: edgeWeight_def tri_points_def Let_def)

lemma tri_dist:
  "primMST_dist tri_points 1 0 = Inr (Fin 3)"
  "primMST_dist tri_points 0 2 = Inr (Fin 4)"
  "primMST_dist tri_points 2 1 = Inr (Fin 5)"
proof -
  have "primMST_dist tri_points 1 0 = Inr (round64 (sqrt (of_int ((3 - 0) * (3 - 0) + (0 - 0) * (0 - 0)))))"
    by (rule dist_of_ints(1)) (simp_all add: tri_points_def)
  then show "primMST_dist tri_points 1 0 = Inr (Fin 3)"
    using round_sqrt_square[of 3] by simp
  have "primMST_dist tri_points 0 2 = Inr (round64 (sqrt (of_int ((0 - 0) * (0 - 0) + (0 - 4) * (0 - 4)))))"
    by (rule dist_of_ints(1)) (simp_all add: tri_points_def)
  then show "primMST_dist tri_points 0 2 = Inr (Fin 4)"
    using round_sqrt_square[of 4] by simp
  have "primMST_dist tri_points 2 1 = Inr (round64 (sqrt (of_int ((0 - 3) * (0 - 3) + (4 - 0) * (4 - 0)))))"
    by (rule dist_of_ints(1)) (simp_all add: tri_points_def)
  then show "primMST_dist tri_points 2 1 = Inr (Fin 5)"
    using round_sqrt_square[of 5] by simp
qed

lemma tri_pick1: "pickEdge tri_points tri_edges 3 [True, False, False]
    = Inr (Some (\<lparr>edge_a = 1, edge_b = 0\<rparr>, Fin 3))"
  using tri_dist by (simp add: pickEdge_def tri_edges_def inAt_def lessBest_def Let_def)

lemma tri_pick2: "pickEdge tri_points tri_edges 3 [True, True, False]
    = Inr (Some (\<lparr>edge_a = 0, edge_b = 2\<rparr>, Fin 4))"
  using tri_dist by (simp add: pickEdge_def tri_edges_def inAt_def lessBest_def Let_def)

lemma tri_small: "small_int_points tri_points"
  unfolding small_int_points_def tri_points_def
proof
  fix p assume "p \<in> set [\<lparr>pt_x = 0, pt_y = 0\<rparr>, \<lparr>pt_x = 3, pt_y = 0\<rparr>, \<lparr>pt_x = 0, pt_y = 4\<rparr>]"
  then consider "p = \<lparr>pt_x = 0, pt_y = 0\<rparr>" | "p = \<lparr>pt_x = 3, pt_y = 0\<rparr>" | "p = \<lparr>pt_x = 0, pt_y = 4\<rparr>"
    by auto
  then show "\<exists>i j :: int. pt_x p = of_int i \<and> pt_y p = of_int j \<and> \<bar>i\<bar> \<le> 2 ^ 23 \<and> \<bar>j\<bar> \<le> 2 ^ 23"
  proof cases
    case 1
    then show ?thesis by (intro exI[of _ 0]) simp
  next
    case 2
    then show ?thesis by (intro exI[of _ 3] exI[of _ 0]) simp
  next
    case 3
    then show ?thesis by (intro exI[of _ 0] exI[of _ 4]) simp
  qed
qed

lemma tri_mst: "primMST \<lparr>points = tri_points, edges = tri_edges, triangles = None\<rparr>
   = Inr \<lparr>points = tri_points, edges = [\<lparr>edge_a = 1, edge_b = 0\<rparr>, \<lparr>edge_a = 0, edge_b = 2\<rparr>], triangles = None\<rparr>"
proof -
  have l: "length tri_points = 3" by (simp add: tri_points_def)
  have "primLoop tri_points tri_edges 3 [True, False, False] []
      = primLoop tri_points tri_edges 3 [True, True, False] [\<lparr>edge_a = 1, edge_b = 0\<rparr>]"
    by (subst primLoop.simps) (simp add: tri_pick1)
  also have "\<dots> = primLoop tri_points tri_edges 3 [True, True, True]
        [\<lparr>edge_a = 1, edge_b = 0\<rparr>, \<lparr>edge_a = 0, edge_b = 2\<rparr>]"
    by (subst primLoop.simps) (simp add: tri_pick2)
  also have "\<dots> = Inr [\<lparr>edge_a = 1, edge_b = 0\<rparr>, \<lparr>edge_a = 0, edge_b = 2\<rparr>]"
    by (subst primLoop.simps) simp
  finally have r: "primLoop tri_points tri_edges 3 [True, False, False] []
      = Inr [\<lparr>edge_a = 1, edge_b = 0\<rparr>, \<lparr>edge_a = 0, edge_b = 2\<rparr>]" .
  show ?thesis
    unfolding primMST_def by (simp only: Let_def Graph.simps l marks3 r) simp
qed

lemma connects3:
  assumes "(0, 1) \<in> (adjacent S)\<^sup>*" "(0, 2) \<in> (adjacent S)\<^sup>*"
  shows "connects 3 S"
  unfolding connects_def
proof (intro allI impI)
  fix v :: nat assume "v < 3"
  then consider "v = 0" | "v = 1" | "v = 2" by linarith
  then show "(0, v) \<in> (adjacent S)\<^sup>*" using assms by cases auto
qed

lemma tri_connected: "connects 3 (set tri_edges)"
proof (rule connects3)
  show "(0, 1) \<in> (adjacent (set tri_edges))\<^sup>*"
    using adjacent_edge(2)[of "\<lparr>edge_a = 1, edge_b = 0\<rparr>" "set tri_edges"]
    by (auto simp: tri_edges_def)
  show "(0, 2) \<in> (adjacent (set tri_edges))\<^sup>*"
    using adjacent_edge(1)[of "\<lparr>edge_a = 0, edge_b = 2\<rparr>" "set tri_edges"]
    by (auto simp: tri_edges_def)
qed

lemma tri_other_tree: "connects 3 (set [\<lparr>edge_a = 1, edge_b = 0\<rparr>, \<lparr>edge_a = 2, edge_b = 1\<rparr>])"
proof (rule connects3)
  let ?S = "set [\<lparr>edge_a = 1, edge_b = 0\<rparr>, \<lparr>edge_a = 2, edge_b = 1\<rparr>]"
  show 1: "(0, 1) \<in> (adjacent ?S)\<^sup>*"
    using adjacent_edge(2)[of "\<lparr>edge_a = 1, edge_b = 0\<rparr>" ?S] by auto
  have "(1, 2) \<in> adjacent ?S"
    using adjacent_edge(2)[of "\<lparr>edge_a = 2, edge_b = 1\<rparr>" ?S] by auto
  with 1 show "(0, 2) \<in> (adjacent ?S)\<^sup>*" by (rule rtrancl.rtrancl_into_rtrancl)
qed

section \<open>Routing all edges, and the generator as a whole\<close>

lemma rooms_wf_nth:
  assumes "rooms_wf rooms" "a < length rooms"
  shows "0 < room_width (rooms ! a)" "0 < room_height (rooms ! a)"
    "in_room (rooms ! a) (fst (room_center (rooms ! a))) (snd (room_center (rooms ! a)))"
  using assms unfolding rooms_wf_def by (auto dest: nth_mem)

lemma centers_differ:
  assumes wf: "rooms_wf rooms" and ab: "a < length rooms" "b < length rooms" "a \<noteq> b"
  shows "fst (room_center (rooms ! b)) \<noteq> fst (room_center (rooms ! a)) \<or>
         snd (room_center (rooms ! b)) \<noteq> snd (room_center (rooms ! a))"
proof -
  from wf ab have "rooms_apart (ROOM_SEPARATION + 1) (rooms ! a) (rooms ! b)"
    unfolding rooms_wf_def by blast
  with rooms_wf_nth(3)[OF wf ab(1)] rooms_wf_nth(3)[OF wf ab(2)]
  have "ROOM_SEPARATION + 1 \<le> max \<bar>fst (room_center (rooms ! a)) - fst (room_center (rooms ! b))\<bar>
                                    \<bar>snd (room_center (rooms ! a)) - snd (room_center (rooms ! b))\<bar>"
    unfolding rooms_apart_def by blast
  then show ?thesis by (auto simp: ROOM_SEPARATION_def)
qed

lemma nthOpt_roomCenters:
  "b < length rooms \<Longrightarrow> nthOpt (roomCenters rooms) b =
     Some \<lparr>pt_x = real_of_int (fst (room_center (rooms ! b))),
           pt_y = real_of_int (snd (room_center (rooms ! b)))\<rparr>"
  by (simp add: nthOpt_def roomCenters_def)

lemma exit_cells:
  assumes wf: "rooms_wf rooms" and ab: "a < length rooms" "b < length rooms" "a \<noteq> b"
  shows "\<exists>s. exitCellFromCenter rooms W H a (nthOpt (roomCenters rooms) b) = Some (Inr s) \<and>
           distToRoom rooms a (fst s) (snd s) \<le> 1"
proof -
  let ?tgt = "\<lparr>pt_x = real_of_int (fst (room_center (rooms ! b))),
           pt_y = real_of_int (snd (room_center (rooms ! b)))\<rparr>"
  have t: "pt_x ?tgt \<noteq> real_of_int (fst (room_center (rooms ! a))) \<or>
           pt_y ?tgt \<noteq> real_of_int (snd (room_center (rooms ! a)))"
    using centers_differ[OF wf ab] by simp
  from exitCellFromCenter_total[OF ab(1) rooms_wf_nth[OF wf ab(1)] t, of W H]
  show ?thesis unfolding nthOpt_roomCenters[OF ab(2)] .
qed

lemma carve_step:
  assumes g: "grid_dims cells W H" and wf: "rooms_wf rooms"
    and ab: "a < length rooms" "b < length rooms" "a \<noteq> b"
    and nsq: "no_corridor_square cells"
  shows "\<exists>carved cells'.
     carveCorridorBetween cells rooms (roomCenters rooms) W H a b = Some (Inr (carved, cells')) \<and>
     grid_dims cells' W H \<and> no_corridor_square cells' \<and>
     ((\<not> carved \<and> cells' = cells) \<or>
      (carved \<and> (\<exists>s e poly path. poly \<in> set (candidatePolylines W H s e) \<and>
          polylineToCells poly = Some path \<and>
          (\<forall>p\<in>set path. path_valid cells rooms W H a b s e p) \<and>
          carveCells cells W H path = Inr cells')))"
proof -
  from exit_cells[OF wf ab, of W H] obtain s where
    s: "exitCellFromCenter rooms W H a (nthOpt (roomCenters rooms) b) = Some (Inr s)"
    and ds: "distToRoom rooms a (fst s) (snd s) \<le> 1" by blast
  from exit_cells[OF wf ab(2,1) ab(3)[symmetric], of W H] obtain e where
    e: "exitCellFromCenter rooms W H b (nthOpt (roomCenters rooms) a) = Some (Inr e)"
    and de: "distToRoom rooms b (fst e) (snd e) \<le> 1" by blast
  have c: "carveCorridorBetween cells rooms (roomCenters rooms) W H a b =
      tryPolylines cells rooms W H a b s e (candidatePolylines W H s e)"
    unfolding carveCorridorBetween_def Let_def s e by simp
  from tryPolylines_total[OF g, of rooms a b s e "candidatePolylines W H s e"]
  obtain carved cells' where
    t: "tryPolylines cells rooms W H a b s e (candidatePolylines W H s e) = Some (Inr (carved, cells'))"
    by blast
  from wf ab have apart: "rooms_apart (ROOM_SEPARATION + 1) (rooms ! a) (rooms ! b)"
    unfolding rooms_wf_def by blast
  have far: "4 \<le> max \<bar>fst s - fst e\<bar> \<bar>snd s - snd e\<bar>"
    by (rule exits_far[OF apart rooms_wf_nth(1,2)[OF wf ab(1)] rooms_wf_nth(1,2)[OF wf ab(2)] ds de])
  from tryPolylines_cases[OF t] consider
      (none) "\<not> carved" "cells' = cells"
    | (some) poly path where "carved" "poly \<in> set (candidatePolylines W H s e)"
        "polylineToCells poly = Some path"
        "validatePath cells rooms W H a b s e path = Inr False"
        "carveCells cells W H path = Inr cells'"
    by blast
  then show ?thesis
  proof cases
    case none
    show ?thesis
      unfolding c t using none g nsq by blast
  next
    case some
    from some(4) have valid: "\<forall>p\<in>set path. path_valid cells rooms W H a b s e p"
      unfolding validatePath_char[OF g] by simp
    have g': "grid_dims cells' W H" by (rule carveCells_dims[OF some(5) g])
    have n': "no_corridor_square cells'"
      by (rule carved_no_square[OF g nsq far some(2,3) valid some(5)])
    show ?thesis
      unfolding c t using some(1,2,3,5) valid g' n' by blast
  qed
qed

lemma carveAll_no_square:
  assumes wf: "rooms_wf rooms"
  shows "grid_dims cells W H \<Longrightarrow> no_corridor_square cells \<Longrightarrow> edges_within (length rooms) es \<Longrightarrow>
     \<exists>cells'. carveAll cells rooms (roomCenters rooms) W H es = Some (Inr cells') \<and>
        grid_dims cells' W H \<and> no_corridor_square cells'"
proof (induction es arbitrary: cells)
  case Nil
  then show ?case by simp
next
  case (Cons e es)
  from Cons.prems(3) have e: "edge_a e < length rooms" "edge_b e < length rooms" "edge_a e \<noteq> edge_b e"
    and rest: "edges_within (length rooms) es" by (auto simp: edges_within_def)
  from carve_step[OF Cons.prems(1) wf e Cons.prems(2)] obtain carved cells1 where
    c: "carveCorridorBetween cells rooms (roomCenters rooms) W H (edge_a e) (edge_b e)
          = Some (Inr (carved, cells1))"
    and g1: "grid_dims cells1 W H" and n1: "no_corridor_square cells1" by blast
  from Cons.IH[OF g1 n1 rest] c show ?case by simp
qed

lemma primMST_dist_Inr:
  "a < length pts \<Longrightarrow> b < length pts \<Longrightarrow> \<exists>w. primMST_dist pts a b = Inr w"
  by (simp add: primMST_dist_def Let_def)

lemma scanEdges_total:
  assumes "\<forall>e\<in>set es. edge_a e < length pts \<and> edge_b e < length pts"
  shows "\<exists>r. scanEdges pts inMST es best = Inr r \<and>
           (r = best \<or> (\<exists>e w. r = Some (e, w) \<and> e \<in> set es))"
  using assms
proof (induction es arbitrary: best)
  case Nil
  then show ?case by simp
next
  case (Cons e es)
  from Cons.prems obtain w where w: "primMST_dist pts (edge_a e) (edge_b e) = Inr w"
    using primMST_dist_Inr[of "edge_a e" pts "edge_b e"] by auto
  from Cons.prems have wf: "\<forall>e\<in>set es. edge_a e < length pts \<and> edge_b e < length pts" by simp
  from Cons.IH[OF wf, of best] Cons.IH[OF wf, of "Some (e, w)"]
  show ?case by (auto simp: Let_def w)
qed

lemma fallbackSearch_total:
  assumes "\<forall>ij\<in>set ijs. fst ij < length pts \<and> snd ij < length pts"
  shows "\<exists>r. fallbackSearch pts inMST ijs = Inr r \<and>
           (r = None \<or> (\<exists>e w. r = Some (e, w) \<and> edge_a e < length pts \<and> edge_b e < length pts \<and>
               edge_a e \<noteq> edge_b e))"
  using assms
proof (induction ijs)
  case Nil
  then show ?case by simp
next
  case (Cons ij ijs)
  obtain i j where ij: "ij = (i, j)" by (cases ij)
  with Cons.prems obtain w where w: "primMST_dist pts i j = Inr w"
    using primMST_dist_Inr[of i pts j] by auto
  from Cons.prems have "\<forall>ij\<in>set ijs. fst ij < length pts \<and> snd ij < length pts" by simp
  from Cons.IH[OF this] Cons.prems ij show ?case by (auto simp: w)
qed

lemma pickEdge_total:
  assumes "edges_within (length pts) es"
  shows "\<exists>r. pickEdge pts es (length pts) inMST = Inr r \<and>
           (r = None \<or> (\<exists>e w. r = Some (e, w) \<and> edge_a e < length pts \<and> edge_b e < length pts \<and>
               edge_a e \<noteq> edge_b e))"
proof -
  from assms have wf: "\<forall>e\<in>set es. edge_a e < length pts \<and> edge_b e < length pts"
    by (auto simp: edges_within_def)
  from scanEdges_total[OF wf, of inMST None] obtain r where
    r: "scanEdges pts inMST es None = Inr r" "r = None \<or> (\<exists>e w. r = Some (e, w) \<and> e \<in> set es)"
    by blast
  show ?thesis
  proof (cases r)
    case None
    have "\<forall>ij\<in>set (List.product [0..<length pts] [0..<length pts]).
        fst ij < length pts \<and> snd ij < length pts" by auto
    from fallbackSearch_total[OF this, of inMST] r(1) None show ?thesis
      by (simp add: pickEdge_def)
  next
    case (Some ew)
    with r(2) obtain e w where "ew = (e, w)" "e \<in> set es" by auto
    with assms r(1) Some show ?thesis by (auto simp: pickEdge_def edges_within_def)
  qed
qed

lemma primLoop_total:
  "edges_within n es \<Longrightarrow> length pts = n \<Longrightarrow> edges_within n mstEdges \<Longrightarrow>
   \<exists>mst. primLoop pts es n inMST mstEdges = Inr mst \<and> edges_within n mst"
proof (induction pts es n inMST mstEdges rule: primLoop.induct)
  case (1 pts es n inMST mstEdges)
  show ?case
  proof (cases "length mstEdges < n - 1")
    case False
    then have "primLoop pts es n inMST mstEdges = Inr mstEdges"
      by (subst primLoop.simps) simp
    with "1.prems"(3) show ?thesis by simp
  next
    case True
    from pickEdge_total[of pts es inMST] "1.prems"(1,2) obtain r where
      r: "pickEdge pts es n inMST = Inr r"
      and c: "r = None \<or> (\<exists>e w. r = Some (e, w) \<and> edge_a e < n \<and> edge_b e < n \<and> edge_a e \<noteq> edge_b e)"
      by auto
    show ?thesis
    proof (cases r)
      case None
      with r True have "primLoop pts es n inMST mstEdges = Inr mstEdges"
        by (subst primLoop.simps) simp
      with "1.prems"(3) show ?thesis by simp
    next
      case (Some ew)
      with c obtain e w where ew: "ew = (e, w)" and e: "edge_a e < n" "edge_b e < n" "edge_a e \<noteq> edge_b e"
        by auto
      have pick: "pickEdge pts es n inMST = Inr (Some (e, w))" using r Some ew by simp
      have step: "primLoop pts es n inMST mstEdges =
          primLoop pts es n (inMST[edge_a e := True, edge_b e := True]) (mstEdges @ [e])"
        using True pick by (subst primLoop.simps) simp
      have w': "edges_within n (mstEdges @ [e])"
        using "1.prems"(3) e by (auto simp: edges_within_def)
      from "1.IH"[OF True pick refl refl "1.prems"(1,2) w'] step show ?thesis by simp
    qed
  qed
qed

lemma primMST_total:
  assumes "edges_within (length (points g)) (edges g)"
  shows "\<exists>mst. primMST g = Inr mst \<and> edges_within (length (points g)) (edges mst)"
proof -
  let ?n = "length (points g)"
  consider "?n = 0" | "?n = 1" | "?n \<noteq> 0" "?n \<noteq> 1" by blast
  then show ?thesis
  proof cases
    case 1
    then show ?thesis by (simp add: primMST_def edges_within_def)
  next
    case 2
    then show ?thesis by (simp add: primMST_def Let_def edges_within_def)
  next
    case 3
    have "edges_within ?n []" by (simp add: edges_within_def)
    from primLoop_total[OF assms refl this, of "(replicate ?n False)[0 := True]"]
    obtain mst where "primLoop (points g) (edges g) ?n ((replicate ?n False)[0 := True]) [] = Inr mst"
      "edges_within ?n mst" by blast
    with 3 show ?thesis by (simp add: primMST_def Let_def)
  qed
qed

lemma addExtraEdges_subset:
  "set (fst (addExtraEdges rnd mstSet es adjacency finalEdges k)) \<subseteq> set finalEdges \<union> set es"
proof (induction es arbitrary: adjacency finalEdges k)
  case Nil
  then show ?case by simp
next
  case (Cons e es)
  show ?case
    unfolding addExtraEdges_step
    using Cons[of "increment (increment adjacency (edge_a e)) (edge_b e)" "finalEdges @ [e]" "k + 1"]
      Cons[of adjacency finalEdges k] Cons[of adjacency finalEdges "k + 1"]
    by (auto split: if_splits)
qed

lemma augment_within:
  assumes "edges_within n mstEdges" "edges_within n graphEdges"
  shows "edges_within n (fst (augment rnd n mstEdges graphEdges k))"
  using addExtraEdges_subset[of rnd "map (\<lambda>e. keyEdge (edge_a e) (edge_b e)) mstEdges" graphEdges
      "countDegrees n mstEdges" mstEdges k] assms
  unfolding augment_def edges_within_def by blast

lemma place_inv_rooms_wf:
  assumes "place_inv cells rooms"
  shows "rooms_wf rooms"
proof -
  have "0 < room_width r \<and> 0 < room_height r \<and>
        in_room r (fst (room_center r)) (snd (room_center r))" if "r \<in> set rooms" for r
  proof -
    from assms that have ok: "room_ok r" by (simp add: place_inv_def)
    then have w: "0 < room_width r" "0 < room_height r"
      by (simp_all add: room_ok_def MIN_ROOM_SIZE_width_def MIN_ROOM_SIZE_height_def)
    from ok have c: "room_center r = (room_x r + room_width r div 2, room_y r + room_height r div 2)"
      by (simp add: room_ok_def)
    have "0 \<le> room_width r div 2" "room_width r div 2 < room_width r"
      "0 \<le> room_height r div 2" "room_height r div 2 < room_height r"
      using w by simp_all
    then have "in_room r (fst (room_center r)) (snd (room_center r))"
      unfolding c in_room_def by simp
    with w show ?thesis by simp
  qed
  moreover have "\<forall>m<length rooms. \<forall>n<length rooms. m \<noteq> n \<longrightarrow>
        rooms_apart (ROOM_SEPARATION + 1) (rooms ! m) (rooms ! n)"
    using assms by (simp add: place_inv_def)
  ultimately show ?thesis unfolding rooms_wf_def by blast
qed

lemma place_inv_grid:
  assumes "place_inv cells rooms"
  shows "grid_dims cells DUNGEON_SIZE_width DUNGEON_SIZE_height"
    "gridCols cells = DUNGEON_SIZE_width" "gridRows cells = DUNGEON_SIZE_height"
proof -
  show g: "grid_dims cells DUNGEON_SIZE_width DUNGEON_SIZE_height"
    using assms by (simp add: place_inv_def)
  have "0 < DUNGEON_SIZE_height" by (simp add: DUNGEON_SIZE_height_def)
  from gridCols_dims[OF g this] show "gridCols cells = DUNGEON_SIZE_width"
    by (simp add: gridCols_def)
  show "gridRows cells = DUNGEON_SIZE_height" using g by (simp add: gridRows_def grid_dims_def)
qed

lemma place_inv_types:
  assumes inv: "place_inv cells rooms"
  shows "typeAt cells j i \<noteq> Some CT_corridor"
    and "typeAt cells j i = Some CT_room \<Longrightarrow> \<exists>r\<in>set rooms. in_room r i j"
proof -
  note g = place_inv_grid(1)[OF inv]
  have t: "typeAt cells j i = Some (if \<exists>r\<in>set rooms. in_room r i j then CT_room else CT_empty)"
    if "0 \<le> j \<and> j < DUNGEON_SIZE_height \<and> 0 \<le> i \<and> i < DUNGEON_SIZE_width"
    using inv that unfolding place_inv_def by blast
  have n: "typeAt cells j i = None"
    if "\<not> (0 \<le> j \<and> j < DUNGEON_SIZE_height \<and> 0 \<le> i \<and> i < DUNGEON_SIZE_width)"
    using typeAt_dims[OF g, of j i] that by simp
  show "typeAt cells j i \<noteq> Some CT_corridor" using t n by (cases "0 \<le> j \<and> j < DUNGEON_SIZE_height \<and> 0 \<le> i \<and> i < DUNGEON_SIZE_width") auto
  show "\<exists>r\<in>set rooms. in_room r i j" if "typeAt cells j i = Some CT_room"
    using t n that by (cases "0 \<le> j \<and> j < DUNGEON_SIZE_height \<and> 0 \<le> i \<and> i < DUNGEON_SIZE_width") (auto split: if_splits)
qed

lemma place_inv_route:
  assumes inv: "place_inv cells rooms"
  shows "no_corridor_square cells" "rooms_drawn cells rooms"
proof -
  have "\<not> corridorAt cells p" for p using place_inv_types(1)[OF inv] by (simp add: corridorAt_def)
  then show "no_corridor_square cells"
    unfolding no_corridor_square_iff[OF place_inv_grid(1)[OF inv]] by (auto simp: square_at_def)
  show "rooms_drawn cells rooms" unfolding rooms_drawn_def using place_inv_types(2)[OF inv] by blast
qed

lemma createDungeon_total:
  assumes rnd: "\<forall>i. 0 \<le> rnd i \<and> rnd i < 1"
  shows "\<exists>cells rooms k d. placeRooms rnd = Inr (cells, rooms, k) \<and> place_inv cells rooms \<and>
     createDungeon rnd = Some (Inr d) \<and> no_corridor_square (dungeon_cells d)"
proof -
  from placeRooms_inv[OF rnd] obtain cells rooms k where
    p: "placeRooms rnd = Inr (cells, rooms, k)" and inv: "place_inv cells rooms" by blast
  let ?pnts = "roomCenters rooms"
  let ?g = "createGraphFromPoints ?pnts"
  have len: "length ?pnts = length rooms" by (simp add: roomCenters_def)
  have gw: "edges_within (length rooms) (edges ?g)"
    using createGraphFromPoints_edges_within[of ?pnts] len by simp
  have gp: "points ?g = ?pnts" by (rule createGraphFromPoints_points)
  from primMST_total[of ?g] gw gp len obtain mst where
    mst: "primMST ?g = Inr mst" "edges_within (length rooms) (edges mst)" by auto
  obtain fin adj k' where a: "augment rnd (length ?pnts) (edges mst) (edges ?g) k = (fin, adj, k')"
    by (cases "augment rnd (length ?pnts) (edges mst) (edges ?g) k") auto
  from augment_within[OF mst(2) gw, of rnd k] a len have fw: "edges_within (length rooms) fin" by simp
  note gr = place_inv_grid[OF inv]
  from carveAll_no_square[OF place_inv_rooms_wf[OF inv] gr(1) place_inv_route(1)[OF inv] fw]
  obtain cells' where c: "carveAll cells rooms ?pnts DUNGEON_SIZE_width DUNGEON_SIZE_height fin = Some (Inr cells')"
    and n: "no_corridor_square cells'" by blast
  have "createDungeon rnd = Some (Inr \<lparr>dungeon_cells = cells', dungeon_rooms = rooms,
                                       dungeon_roomGraph = ?g\<rparr>)"
    unfolding createDungeon_def by (simp add: p Let_def mst(1) a gr(2,3) c)
  with p inv n show ?thesis by auto
qed





section \<open>Room placement: bounds, separation and the clipped emptiness test\<close>

text \<open>C9.  Every room placed by \<^verbatim>\<open>createDungeon\<close> lies entirely within the grid:
  \<open>0 \<le> x\<close>, \<open>0 \<le> y\<close>, \<open>x + width \<le> DUNGEON_SIZE.width\<close> and
  \<open>y + height \<le> DUNGEON_SIZE.height\<close>; the placement never throws, so every write of
  \<^verbatim>\<open>placeRoom\<close> is inside the grid.  The draws of \<^verbatim>\<open>Math.random()\<close> lie in
  \<open>[0, 1)\<close>.\<close>

theorem placed_rooms_within_grid:
  assumes "\<forall>i. 0 \<le> rnd i \<and> rnd i < 1"
  shows "\<exists>cells rooms k. placeRooms rnd = Inr (cells, rooms, k) \<and>
     (\<forall>r\<in>set rooms. 0 \<le> room_x r \<and> 0 \<le> room_y r \<and>
        room_x r + room_width r \<le> DUNGEON_SIZE_width \<and>
        room_y r + room_height r \<le> DUNGEON_SIZE_height) \<and>
     (\<forall>d. createDungeon rnd = Some (Inr d) \<longrightarrow> dungeon_rooms d = rooms)"
proof -
  from placeRooms_inv[OF assms] obtain cells rooms k where
    res: "placeRooms rnd = Inr (cells, rooms, k)" and inv: "place_inv cells rooms" by blast
  from inv have "\<forall>r\<in>set rooms. room_ok r" by (simp add: place_inv_def)
  then have "\<forall>r\<in>set rooms. 0 \<le> room_x r \<and> 0 \<le> room_y r \<and>
        room_x r + room_width r \<le> DUNGEON_SIZE_width \<and>
        room_y r + room_height r \<le> DUNGEON_SIZE_height"
    by (simp add: room_ok_def)
  with res createDungeon_rooms[OF res] show ?thesis by blast
qed

theorem placed_rooms_within_grid_witness:
  "\<exists>cells ext k. placeRooms (\<lambda>_. 0) = Inr (cells, newRoomAt 0 0 3 3 # ext, k) \<and>
     0 \<le> room_x (newRoomAt 0 0 3 3) \<and> 0 \<le> room_y (newRoomAt 0 0 3 3) \<and>
     room_x (newRoomAt 0 0 3 3) + room_width (newRoomAt 0 0 3 3) \<le> DUNGEON_SIZE_width \<and>
     room_y (newRoomAt 0 0 3 3) + room_height (newRoomAt 0 0 3 3) \<le> DUNGEON_SIZE_height"
proof -
  have rnd: "\<forall>i::nat. 0 \<le> (\<lambda>_. 0::real) i \<and> (\<lambda>_. 0::real) i < 1" by simp
  from placeRooms_first[OF rnd] obtain cells ext k where
    first: "placeRooms (\<lambda>_. 0) = Inr (cells, newRoomAt 0 0 3 3 # ext, k)"
    by (auto simp: MIN_ROOM_SIZE_width_def MIN_ROOM_SIZE_height_def)
  with placed_rooms_within_grid[OF rnd] show ?thesis by auto
qed

text \<open>C5.  For every pair of distinct rooms placed by \<^verbatim>\<open>createDungeon\<close>, the
  rectangles do not overlap and the Chebyshev distance between any two of their cells is at
  least \<open>ROOM_SEPARATION\<close>.  The separation is established before placement: on a grid
  holding the rooms placed so far, the check that the candidate rectangle expanded by
  \<open>ROOM_SEPARATION\<close> on all sides is empty succeeds exactly when the candidate is further
  than \<open>ROOM_SEPARATION\<close> from every placed room.\<close>

theorem placed_rooms_separated:
  assumes "\<forall>i. 0 \<le> rnd i \<and> rnd i < 1"
  shows "(\<exists>cells rooms k. placeRooms rnd = Inr (cells, rooms, k) \<and>
      (\<forall>m<length rooms. \<forall>n<length rooms. m \<noteq> n \<longrightarrow>
         (\<forall>x y. \<not> (in_room (rooms ! m) x y \<and> in_room (rooms ! n) x y)) \<and>
         (\<forall>x y x' y'. in_room (rooms ! m) x y \<and> in_room (rooms ! n) x' y' \<longrightarrow>
            ROOM_SEPARATION \<le> max \<bar>x - x'\<bar> \<bar>y - y'\<bar>)) \<and>
      (\<forall>d. createDungeon rnd = Some (Inr d) \<longrightarrow> dungeon_rooms d = rooms)) \<and>
    (\<forall>cells rooms r. place_inv cells rooms \<and> room_ok r \<longrightarrow>
       isAreaEmpty cells (room_x r - ROOM_SEPARATION) (room_y r - ROOM_SEPARATION)
            (room_width r + ROOM_SEPARATION * 2) (room_height r + ROOM_SEPARATION * 2) =
         Inr (\<forall>r'\<in>set rooms. rooms_apart (ROOM_SEPARATION + 1) r' r))"
proof -
  from placeRooms_inv[OF assms] obtain cells rooms k where
    res: "placeRooms rnd = Inr (cells, rooms, k)" and inv: "place_inv cells rooms" by blast
  have sep: "(\<forall>x y. \<not> (in_room (rooms ! m) x y \<and> in_room (rooms ! n) x y)) \<and>
         (\<forall>x y x' y'. in_room (rooms ! m) x y \<and> in_room (rooms ! n) x' y' \<longrightarrow>
            ROOM_SEPARATION \<le> max \<bar>x - x'\<bar> \<bar>y - y'\<bar>)"
    if "m < length rooms" "n < length rooms" "m \<noteq> n" for m n
  proof -
    from inv that have a: "rooms_apart (ROOM_SEPARATION + 1) (rooms ! m) (rooms ! n)"
      by (simp add: place_inv_def)
    have "\<not> (in_room (rooms ! m) x y \<and> in_room (rooms ! n) x y)" for x y
      using a[unfolded rooms_apart_def, rule_format, of x y x y]
      by (auto simp: ROOM_SEPARATION_def)
    moreover have "ROOM_SEPARATION \<le> max \<bar>x - x'\<bar> \<bar>y - y'\<bar>"
      if "in_room (rooms ! m) x y \<and> in_room (rooms ! n) x' y'" for x y x' y'
      using a[unfolded rooms_apart_def, rule_format, of x y x' y'] that by auto
    ultimately show ?thesis by blast
  qed
  have "\<exists>cells rooms k. placeRooms rnd = Inr (cells, rooms, k) \<and>
      (\<forall>m<length rooms. \<forall>n<length rooms. m \<noteq> n \<longrightarrow>
         (\<forall>x y. \<not> (in_room (rooms ! m) x y \<and> in_room (rooms ! n) x y)) \<and>
         (\<forall>x y x' y'. in_room (rooms ! m) x y \<and> in_room (rooms ! n) x' y' \<longrightarrow>
            ROOM_SEPARATION \<le> max \<bar>x - x'\<bar> \<bar>y - y'\<bar>)) \<and>
      (\<forall>d. createDungeon rnd = Some (Inr d) \<longrightarrow> dungeon_rooms d = rooms)"
    using res sep createDungeon_rooms[OF res] by blast
  then show ?thesis using check_iff_apart by blast
qed

theorem placed_rooms_separated_witness:
  "\<exists>cells ext k. placeRooms draws_two_rooms =
      Inr (cells, newRoomAt 0 0 3 3 # newRoomAt 20 20 7 7 # ext, k) \<and>
    in_room (newRoomAt 0 0 3 3) 2 2 \<and> in_room (newRoomAt 20 20 7 7) 20 20 \<and>
    \<not> in_room (newRoomAt 20 20 7 7) 2 2 \<and>
    ROOM_SEPARATION \<le> max \<bar>2 - 20\<bar> \<bar>2 - 20\<bar>"
proof -
  have rnd: "\<forall>i. 0 \<le> draws_two_rooms i \<and> draws_two_rooms i < 1"
    by (simp add: draws_two_rooms_def)
  from placeRooms_two obtain cells ext k where
    two: "placeRooms draws_two_rooms = Inr (cells, newRoomAt 0 0 3 3 # newRoomAt 20 20 7 7 # ext, k)"
    by blast
  have i: "in_room (newRoomAt 0 0 3 3) 2 2" "in_room (newRoomAt 20 20 7 7) 20 20"
    by (simp_all add: in_room_def newRoomAt_def)
  let ?rooms = "newRoomAt 0 0 3 3 # newRoomAt 20 20 7 7 # ext"
  from placed_rooms_separated[OF rnd] two
  have "\<forall>m<length ?rooms. \<forall>n<length ?rooms. m \<noteq> n \<longrightarrow>
         (\<forall>x y. \<not> (in_room (?rooms ! m) x y \<and> in_room (?rooms ! n) x y)) \<and>
         (\<forall>x y x' y'. in_room (?rooms ! m) x y \<and> in_room (?rooms ! n) x' y' \<longrightarrow>
            ROOM_SEPARATION \<le> max \<bar>x - x'\<bar> \<bar>y - y'\<bar>)"
    by auto
  from this[rule_format, of 0 1]
  have "(\<forall>x y. \<not> (in_room (newRoomAt 0 0 3 3) x y \<and> in_room (newRoomAt 20 20 7 7) x y)) \<and>
         (\<forall>x y x' y'. in_room (newRoomAt 0 0 3 3) x y \<and> in_room (newRoomAt 20 20 7 7) x' y' \<longrightarrow>
            ROOM_SEPARATION \<le> max \<bar>x - x'\<bar> \<bar>y - y'\<bar>)"
    by simp
  with i two show ?thesis by blast
qed

text \<open>C10.  \<^verbatim>\<open>isAreaEmpty\<close> looks only at the cells of the requested rectangle that lie
  in the grid, so cells outside the grid count as empty.  Hence the separation check of the
  placement accepts a room whose expanded rectangle extends past the border, and a room
  can be placed flush against the border: with all draws \<open>0\<close> the first room has its corner
  at \<open>(0, 0)\<close>.\<close>

theorem isAreaEmpty_clipped_to_grid:
  "(\<forall>cells W H x y w h. grid_dims cells W H \<longrightarrow>
      isAreaEmpty cells x y w h =
        Inr (\<forall>j i. 0 \<le> j \<and> j < H \<and> 0 \<le> i \<and> i < W \<and> y \<le> j \<and> j < y + h \<and> x \<le> i \<and> i < x + w
               \<longrightarrow> typeAt cells j i = Some CT_empty)) \<and>
   isAreaEmpty (createEmptyDungeon DUNGEON_SIZE_width DUNGEON_SIZE_height)
      (0 - ROOM_SEPARATION) (0 - ROOM_SEPARATION)
      (3 + ROOM_SEPARATION * 2) (3 + ROOM_SEPARATION * 2) = Inr True \<and>
   (\<exists>cells ext k. placeRooms (\<lambda>_. 0) = Inr (cells, newRoomAt 0 0 3 3 # ext, k))"
proof -
  have rnd: "\<forall>i::nat. 0 \<le> (\<lambda>_. 0::real) i \<and> (\<lambda>_. 0::real) i < 1" by simp
  from placeRooms_first[OF rnd] have
    "\<exists>cells ext k. placeRooms (\<lambda>_. 0) = Inr (cells, newRoomAt 0 0 3 3 # ext, k)"
    by (auto simp: MIN_ROOM_SIZE_width_def MIN_ROOM_SIZE_height_def)
  moreover have "isAreaEmpty (createEmptyDungeon DUNGEON_SIZE_width DUNGEON_SIZE_height)
      (0 - ROOM_SEPARATION) (0 - ROOM_SEPARATION)
      (3 + ROOM_SEPARATION * 2) (3 + ROOM_SEPARATION * 2) = Inr True"
    by (rule isAreaEmpty_createEmptyDungeon)
       (simp_all add: DUNGEON_SIZE_width_def DUNGEON_SIZE_height_def)
  ultimately show ?thesis using isAreaEmpty_clip by blast
qed

theorem isAreaEmpty_clipped_to_grid_witness:
  "grid_dims (createEmptyDungeon 3 2) 3 2 \<and>
   isAreaEmpty (createEmptyDungeon 3 2) (- 1) (- 1) 5 4 = Inr True"
proof -
  have g: "grid_dims (createEmptyDungeon 3 2) 3 2"
    by (rule grid_dims_createEmptyDungeon) simp_all
  from isAreaEmpty_clipped_to_grid g
  have "isAreaEmpty (createEmptyDungeon 3 2) (- 1) (- 1) 5 4 =
        Inr (\<forall>j i. 0 \<le> j \<and> j < 2 \<and> 0 \<le> i \<and> i < 3 \<and> - 1 \<le> j \<and> j < - 1 + 4 \<and> - 1 \<le> i \<and> i < - 1 + 5
               \<longrightarrow> typeAt (createEmptyDungeon 3 2) j i = Some CT_empty)"
    by blast
  then show ?thesis using g by (simp add: typeAt_createEmptyDungeon)
qed

section \<open>Room cells are permanent\<close>

text \<open>C6.  A cell of type room never changes to corridor or empty.  Placing a room keeps
  every room cell (also along the whole placement loop); carving never touches a room cell
  and never makes one, for a single path, for all edges, and so from the end of the
  placement to the finished dungeon.\<close>

theorem room_cells_never_downgraded:
  "(\<forall>cells r cells' j i. placeRoom cells r = Inr cells' \<and> typeAt cells j i = Some CT_room
       \<longrightarrow> typeAt cells' j i = Some CT_room) \<and>
   (\<forall>rnd cells rooms attempts k cells' rooms' k' j i.
       placeLoop rnd cells rooms attempts k = Inr (cells', rooms', k') \<and>
       typeAt cells j i = Some CT_room \<longrightarrow> typeAt cells' j i = Some CT_room) \<and>
   (\<forall>cells cols rows path cells' j i. carveCells cells cols rows path = Inr cells'
       \<longrightarrow> (typeAt cells' j i = Some CT_room) = (typeAt cells j i = Some CT_room)) \<and>
   (\<forall>cells rooms pnts cols rows es cells' j i.
       carveAll cells rooms pnts cols rows es = Some (Inr cells')
       \<longrightarrow> (typeAt cells' j i = Some CT_room) = (typeAt cells j i = Some CT_room)) \<and>
   (\<forall>rnd cells rooms k d j i.
       placeRooms rnd = Inr (cells, rooms, k) \<and> createDungeon rnd = Some (Inr d)
       \<longrightarrow> (typeAt (dungeon_cells d) j i = Some CT_room) = (typeAt cells j i = Some CT_room))"
proof (intro conjI allI impI)
  fix cells r cells' j i
  assume "placeRoom cells r = Inr cells' \<and> typeAt cells j i = Some CT_room"
  then show "typeAt cells' j i = Some CT_room" by (blast intro: placeRoom_keeps_rooms)
next
  fix rnd cells rooms attempts k cells' rooms' k' j i
  assume "placeLoop rnd cells rooms attempts k = Inr (cells', rooms', k') \<and>
       typeAt cells j i = Some CT_room"
  then show "typeAt cells' j i = Some CT_room" by (blast intro: placeLoop_keeps_rooms)
next
  fix cells cols rows path cells' j i
  assume "carveCells cells cols rows path = Inr cells'"
  then show "(typeAt cells' j i = Some CT_room) = (typeAt cells j i = Some CT_room)"
    by (rule carveCells_rooms)
next
  fix cells rooms pnts cols rows es cells' j i
  assume "carveAll cells rooms pnts cols rows es = Some (Inr cells')"
  then show "(typeAt cells' j i = Some CT_room) = (typeAt cells j i = Some CT_room)"
    by (rule carveAll_rooms)
next
  fix rnd cells rooms k d j i
  assume a: "placeRooms rnd = Inr (cells, rooms, k) \<and> createDungeon rnd = Some (Inr d)"
  then obtain es where "carveAll cells rooms (roomCenters rooms) (gridCols cells) (gridRows cells) es
          = Some (Inr (dungeon_cells d))"
    using createDungeon_cells by blast
  then show "(typeAt (dungeon_cells d) j i = Some CT_room) = (typeAt cells j i = Some CT_room)"
    by (rule carveAll_rooms)
qed

theorem room_cells_never_downgraded_witness:
  "carveCells [[\<lparr>cell_x = 0, cell_y = 0, cell_type = CT_room\<rparr>,
                \<lparr>cell_x = 1, cell_y = 0, cell_type = CT_empty\<rparr>]] 2 1 [(0, 0), (1, 0)] =
     Inr [[\<lparr>cell_x = 0, cell_y = 0, cell_type = CT_room\<rparr>,
           \<lparr>cell_x = 1, cell_y = 0, cell_type = CT_corridor\<rparr>]] \<and>
   typeAt [[\<lparr>cell_x = 0, cell_y = 0, cell_type = CT_room\<rparr>,
            \<lparr>cell_x = 1, cell_y = 0, cell_type = CT_empty\<rparr>]] 0 0 = Some CT_room \<and>
   typeAt [[\<lparr>cell_x = 0, cell_y = 0, cell_type = CT_room\<rparr>,
            \<lparr>cell_x = 1, cell_y = 0, cell_type = CT_corridor\<rparr>]] 0 0 = Some CT_room"
proof -
  let ?g = "[[\<lparr>cell_x = 0, cell_y = 0, cell_type = CT_room\<rparr>,
                \<lparr>cell_x = 1, cell_y = 0, cell_type = CT_empty\<rparr>]]"
  let ?g' = "[[\<lparr>cell_x = 0, cell_y = 0, cell_type = CT_room\<rparr>,
                \<lparr>cell_x = 1, cell_y = 0, cell_type = CT_corridor\<rparr>]]"
  have c: "carveCells ?g 2 1 [(0, 0), (1, 0)] = Inr ?g'"
    by (simp add: cellAt_def setType_def)
  have t: "typeAt ?g 0 0 = Some CT_room" by (simp add: typeAt_def cellAt_def)
  have "(typeAt ?g' 0 0 = Some CT_room) = (typeAt ?g 0 0 = Some CT_room)"
    by (rule room_cells_never_downgraded[THEN conjunct2, THEN conjunct2, THEN conjunct1,
          rule_format, OF c])
  with c t show ?thesis by simp
qed

section \<open>Loop augmentation and the degree cap\<close>

text \<open>C2 (as the code has it).  The loop augmenter returns the edges of the tree followed by
  the accepted extra edges.  A candidate edge outside the tree is accepted exactly when its
  draw is at most \<open>EXTRA_EDGE_CHANCE\<close> and both endpoints have, at that moment, at most
  \<open>MAX_ALLOWED_CONNECTIONS = 2\<close> edges among the tree edges and the extra edges accepted
  before it; both counters are incremented at once, and they always equal the degrees in the
  list built so far.  Hence the degree of a point in the returned list is at most the larger
  of its degree in the tree and \<open>MAX_ALLOWED_CONNECTIONS + 1\<close>.  The edges are those of a
  triangulation: indices below the number of points, no self-loops.\<close>

theorem extra_edges_checked_before_acceptance:
  assumes "edges_within n mst" "edges_within n cand"
  shows "(case augment rnd n mst cand k of (finalEdges, adjacency, k') \<Rightarrow>
      (\<exists>extra. finalEdges = mst @ extra \<and> set extra \<subseteq> set cand \<and>
         (\<forall>e\<in>set extra. keyEdge (edge_a e) (edge_b e)
             \<notin> set (map (\<lambda>e. keyEdge (edge_a e) (edge_b e)) mst))) \<and>
      (\<forall>v<n. adjacency ! v = degree finalEdges v) \<and>
      accepted_under_cap (length mst) finalEdges \<and>
      (\<forall>v<n. degree finalEdges v \<le> max (degree mst v) (MAX_ALLOWED_CONNECTIONS + 1))) \<and>
    (\<forall>mstSet e es adjacency finalEdges k.
       addExtraEdges rnd mstSet (e # es) adjacency finalEdges k =
         (if accepts rnd mstSet e adjacency k then
            addExtraEdges rnd mstSet es (increment (increment adjacency (edge_a e)) (edge_b e))
              (finalEdges @ [e]) (k + 1)
          else addExtraEdges rnd mstSet es adjacency finalEdges
              (if keyEdge (edge_a e) (edge_b e) \<in> set mstSet then k else k + 1)))"
proof -
  from assms(1) have w: "\<forall>e\<in>set mst. edge_a e < n \<and> edge_b e < n"
    by (auto simp: edges_within_def)
  from countDegrees_degree[OF w]
  have c: "length (countDegrees n mst) = n" "\<forall>v<n. countDegrees n mst ! v = degree mst v"
    by auto
  have b: "\<forall>v<n. degree mst v \<le> max (degree mst v) (MAX_ALLOWED_CONNECTIONS + 1)" by simp
  have "case addExtraEdges rnd (map (\<lambda>e. keyEdge (edge_a e) (edge_b e)) mst) cand
           (countDegrees n mst) mst k of (fin', adj', k') \<Rightarrow>
     (\<exists>extra. fin' = mst @ extra \<and> set extra \<subseteq> set cand \<and>
        (\<forall>e\<in>set extra. keyEdge (edge_a e) (edge_b e)
            \<notin> set (map (\<lambda>e. keyEdge (edge_a e) (edge_b e)) mst))) \<and>
     length adj' = n \<and> (\<forall>v<n. adj' ! v = degree fin' v) \<and>
     accepted_under_cap (length mst) fin' \<and>
     (\<forall>v<n. degree fin' v \<le> max (degree mst v) (MAX_ALLOWED_CONNECTIONS + 1))"
    by (rule addExtraEdges_inv[OF assms(2) c b accepted_under_cap_start order_refl])
  then have "case augment rnd n mst cand k of (finalEdges, adjacency, k') \<Rightarrow>
      (\<exists>extra. finalEdges = mst @ extra \<and> set extra \<subseteq> set cand \<and>
         (\<forall>e\<in>set extra. keyEdge (edge_a e) (edge_b e)
             \<notin> set (map (\<lambda>e. keyEdge (edge_a e) (edge_b e)) mst))) \<and>
      (\<forall>v<n. adjacency ! v = degree finalEdges v) \<and>
      accepted_under_cap (length mst) finalEdges \<and>
      (\<forall>v<n. degree finalEdges v \<le> max (degree mst v) (MAX_ALLOWED_CONNECTIONS + 1))"
    unfolding augment_def by (auto split: prod.splits)
  then show ?thesis using addExtraEdges_step by blast
qed

theorem extra_edges_checked_before_acceptance_witness:
  "edges_within 4 square_tree \<and> edges_within 4 square_edges \<and>
   augment all_zero 4 square_tree square_edges 0 =
     (square_tree @ [\<lparr>edge_a = 0, edge_b = 3\<rparr>, \<lparr>edge_a = 2, edge_b = 3\<rparr>], [3, 2, 2, 3], 2) \<and>
   degree (square_tree @ [\<lparr>edge_a = 0, edge_b = 3\<rparr>, \<lparr>edge_a = 2, edge_b = 3\<rparr>]) 0
     \<le> max (degree square_tree 0) (MAX_ALLOWED_CONNECTIONS + 1) \<and>
   degree (square_tree @ [\<lparr>edge_a = 0, edge_b = 3\<rparr>, \<lparr>edge_a = 2, edge_b = 3\<rparr>]) 0 = 3"
proof -
  have w: "edges_within 4 square_tree" "edges_within 4 square_edges"
    by (simp_all add: edges_within_def square_tree_def square_edges_def)
  from extra_edges_checked_before_acceptance[OF w, of all_zero 0]
  have "\<forall>v<4. degree (square_tree @ [\<lparr>edge_a = 0, edge_b = 3\<rparr>, \<lparr>edge_a = 2, edge_b = 3\<rparr>]) v
          \<le> max (degree square_tree v) (MAX_ALLOWED_CONNECTIONS + 1)"
    unfolding augment_square by simp
  then have "degree (square_tree @ [\<lparr>edge_a = 0, edge_b = 3\<rparr>, \<lparr>edge_a = 2, edge_b = 3\<rparr>]) 0
          \<le> max (degree square_tree 0) (MAX_ALLOWED_CONNECTIONS + 1)"
    by simp
  moreover have "degree (square_tree @ [\<lparr>edge_a = 0, edge_b = 3\<rparr>, \<lparr>edge_a = 2, edge_b = 3\<rparr>]) 0 = 3"
    by (simp add: degree_def square_tree_def)
  ultimately show ?thesis using w augment_square by simp
qed

text \<open>The claim as stated fails: on the triangulation of the four corners of a square,
  with the tree \<open>1-0, 3-1, 0-2\<close> and every draw passing, point \<open>0\<close> has degree \<open>2\<close> in the
  tree and gains the edge \<open>0-3\<close>.\<close>

theorem degree_cap_exceeded:
  "MAX_ALLOWED_CONNECTIONS < degree (fst (augment all_zero 4 square_tree square_edges 0)) 0"
  unfolding augment_square
  by (simp add: degree_def square_tree_def MAX_ALLOWED_CONNECTIONS_def)

section \<open>The spanning tree: minimality and the fallback\<close>

text \<open>C4.  For a graph of \<open>N \<ge> 1\<close> points with integer coordinates of size at most
  \<open>2 ^ 23\<close> whose candidate edges (indices below \<open>N\<close>) connect all points, \<^verbatim>\<open>primMST\<close>
  returns the same points and exactly \<open>N - 1\<close> candidate edges that connect all points, and
  their total Euclidean weight is at most that of any list of candidate edges connecting all
  points, in particular of any other spanning tree.  Every edge of the result is what the
  scan returned for the tree built before it: the first edge, in list order, among the
  lightest edges with exactly one endpoint in the tree (a later edge replaces the current
  best only when strictly lighter).  The weights the code compares are binary64 numbers;
  for such points they are finite and ordered as the exact Euclidean lengths are.\<close>

theorem primMST_minimum_spanning_tree:
  assumes "points g \<noteq> []"
    and "\<forall>e\<in>set (edges g). edge_a e < length (points g) \<and> edge_b e < length (points g)"
    and "connects (length (points g)) (set (edges g))"
    and "small_int_points (points g)"
  shows "\<exists>mst. primMST g = Inr mst \<and> points mst = points g \<and>
     length (edges mst) = length (points g) - 1 \<and>
     set (edges mst) \<subseteq> set (edges g) \<and>
     connects (length (points g)) (set (edges mst)) \<and>
     (\<forall>T. set T \<subseteq> set (edges g) \<and> connects (length (points g)) (set T) \<longrightarrow>
          totalWeight (points g) (edges mst) \<le> totalWeight (points g) T) \<and>
     (\<forall>k<length (edges mst). \<exists>w.
        scanEdges (points g) (treeMarks (length (points g)) (take k (edges mst))) (edges g) None
          = Inr (Some (edges mst ! k, w)) \<and>
        first_minimum (points g) (treeMarks (length (points g)) (take k (edges mst))) (edges g)
          (Some (edges mst ! k, w)))"
proof -
  let ?n = "length (points g)"
  from primMST_correct[OF assms] obtain mst where
    res: "primMST g = Inr \<lparr>points = points g, edges = mst, triangles = None\<rparr>"
    and inv: "prim_inv (points g) (edges g) ?n (treeMarks ?n mst) mst"
    and stop: "\<not> length mst < ?n - 1"
    by blast
  from assms(1) have n: "0 < ?n" by simp
  from prim_final[OF inv n stop] have fin: "length mst = ?n - 1" "connects ?n (set mst)"
    "\<forall>T. set T \<subseteq> set (edges g) \<and> connects ?n (set T) \<longrightarrow>
        totalWeight (points g) mst \<le> totalWeight (points g) T"
    by auto
  from inv have sub: "set mst \<subseteq> set (edges g)"
    and hist: "\<forall>k<length mst. \<exists>w. scanEdges (points g) (treeMarks ?n (take k mst)) (edges g) None
                      = Inr (Some (mst ! k, w))"
    by (auto simp: prim_inv_def)
  have fm: "\<exists>w. scanEdges (points g) (treeMarks ?n (take k mst)) (edges g) None
                      = Inr (Some (mst ! k, w)) \<and>
          first_minimum (points g) (treeMarks ?n (take k mst)) (edges g) (Some (mst ! k, w))"
    if "k < length mst" for k
  proof -
    from scanEdges_first_minimum[OF assms(2,4), of "treeMarks ?n (take k mst)"] obtain r where
      r: "scanEdges (points g) (treeMarks ?n (take k mst)) (edges g) None = Inr r"
      "first_minimum (points g) (treeMarks ?n (take k mst)) (edges g) r" by blast
    from hist that obtain w where
      "scanEdges (points g) (treeMarks ?n (take k mst)) (edges g) None = Inr (Some (mst ! k, w))"
      by blast
    then have w: "scanEdges (points g) (treeMarks ?n (take k mst)) (edges g) None
                      = Inr (Some (mst ! k, w))"
      and "r = Some (mst ! k, w)" using r(1) by simp_all
    with r(2) have "first_minimum (points g) (treeMarks ?n (take k mst)) (edges g) (Some (mst ! k, w))"
      by simp
    with w show ?thesis by blast
  qed
  show ?thesis
    using res fin sub fm by (intro exI[of _ "\<lparr>points = points g, edges = mst, triangles = None\<rparr>"]) simp
qed

theorem primMST_minimum_spanning_tree_witness:
  "small_int_points tri_points \<and>
   primMST \<lparr>points = tri_points, edges = tri_edges, triangles = None\<rparr> =
     Inr \<lparr>points = tri_points, edges = [\<lparr>edge_a = 1, edge_b = 0\<rparr>, \<lparr>edge_a = 0, edge_b = 2\<rparr>],
          triangles = None\<rparr> \<and>
   connects 3 (set tri_edges) \<and>
   connects 3 (set [\<lparr>edge_a = 1, edge_b = 0\<rparr>, \<lparr>edge_a = 2, edge_b = 1\<rparr>]) \<and>
   totalWeight tri_points [\<lparr>edge_a = 1, edge_b = 0\<rparr>, \<lparr>edge_a = 0, edge_b = 2\<rparr>] = 7 \<and>
   totalWeight tri_points [\<lparr>edge_a = 1, edge_b = 0\<rparr>, \<lparr>edge_a = 2, edge_b = 1\<rparr>] = 8 \<and>
   totalWeight tri_points [\<lparr>edge_a = 1, edge_b = 0\<rparr>, \<lparr>edge_a = 0, edge_b = 2\<rparr>]
     \<le> totalWeight tri_points [\<lparr>edge_a = 1, edge_b = 0\<rparr>, \<lparr>edge_a = 2, edge_b = 1\<rparr>]"
proof -
  let ?g = "\<lparr>points = tri_points, edges = tri_edges, triangles = None\<rparr>"
  let ?T = "[\<lparr>edge_a = 1, edge_b = 0\<rparr>, \<lparr>edge_a = 2, edge_b = 1\<rparr>]"
  have l: "length tri_points = 3" by (simp add: tri_points_def)
  have h1: "points ?g \<noteq> []" by (simp add: tri_points_def)
  have h2: "\<forall>e\<in>set (edges ?g). edge_a e < length (points ?g) \<and> edge_b e < length (points ?g)"
    by (simp add: tri_edges_def tri_points_def)
  have h3: "connects (length (points ?g)) (set (edges ?g))"
    using tri_connected by (simp add: l)
  have h4: "small_int_points (points ?g)" using tri_small by simp
  have T: "set ?T \<subseteq> set (edges ?g)" "connects (length (points ?g)) (set ?T)"
    using tri_other_tree by (simp_all add: l tri_edges_def)
  from primMST_minimum_spanning_tree[OF h1 h2 h3 h4] T
  have "totalWeight tri_points [\<lparr>edge_a = 1, edge_b = 0\<rparr>, \<lparr>edge_a = 0, edge_b = 2\<rparr>]
     \<le> totalWeight tri_points ?T"
    unfolding tri_mst by auto
  moreover have "totalWeight tri_points [\<lparr>edge_a = 1, edge_b = 0\<rparr>, \<lparr>edge_a = 0, edge_b = 2\<rparr>] = 7"
    "totalWeight tri_points ?T = 8"
    using tri_weights by (simp_all add: totalWeight_def)
  ultimately show ?thesis using tri_mst tri_connected tri_other_tree tri_small by simp
qed

text \<open>The claim as stated, for every graph, fails: for the two points \<open>(0, 0)\<close> and
  \<open>(2 ^ 700, 0)\<close> joined by the candidate edge \<open>0-1\<close>, the square of the difference of the
  abscissas overflows, the distance is \<^verbatim>\<open>Infinity\<close>, the test \<^verbatim>\<open>w < bestWeight\<close> fails in
  the scan and in the fallback, and \<^verbatim>\<open>primMST\<close> returns no edge where \<open>N - 1 = 1\<close>.\<close>

theorem primMST_overflow_no_edge:
  "connects 2 (set [\<lparr>edge_a = 0, edge_b = 1\<rparr>]) \<and>
   primMST_dist far_points 0 1 = Inr PosInf \<and>
   primMST \<lparr>points = far_points, edges = [\<lparr>edge_a = 0, edge_b = 1\<rparr>], triangles = None\<rparr>
     = Inr \<lparr>points = far_points, edges = [], triangles = None\<rparr>"
  using far_connected far_dist far_mst by simp

text \<open>C3.  Three room centers on one row: the triangulation has no edge, so every step of
  \<^verbatim>\<open>primMST\<close> takes the fallback.  Its first step returns the pair \<open>(0, 1)\<close> at distance
  \<open>20\<close>, the first pair of a tree index and a non-tree index, although the pair \<open>(0, 2)\<close> is
  at distance \<open>10\<close>: the search stops at the first pair it meets, not at the nearest.\<close>

theorem fallback_takes_first_pair:
  "createGraphFromPoints row_points = \<lparr>points = row_points, edges = [], triangles = Some []\<rparr> \<and>
   primMST (createGraphFromPoints row_points) =
     Inr \<lparr>points = row_points, edges = [\<lparr>edge_a = 0, edge_b = 1\<rparr>, \<lparr>edge_a = 0, edge_b = 2\<rparr>],
          triangles = None\<rparr> \<and>
   pickEdge row_points [] 3 [True, False, False] = Inr (Some (\<lparr>edge_a = 0, edge_b = 1\<rparr>, Fin 20)) \<and>
   primMST_dist row_points 0 1 = Inr (Fin 20) \<and>
   primMST_dist row_points 0 2 = Inr (Fin 10)"
  using row_graph row_mst row_pick1 row_dist by simp

section \<open>Degenerate inputs of the triangulation\<close>

text \<open>C8.  For at most two input points \<^verbatim>\<open>createGraphFromPoints\<close> returns the same points
  and no edge: a triangle that survives the final filter has three distinct vertices among
  the input indices, and there are at most two of those.  This holds whatever the circumcircle
  test answers.\<close>

theorem no_edges_for_at_most_two_points:
  assumes "length pnts \<le> 2"
  shows "points (createGraphFromPoints pnts) = pnts \<and> edges (createGraphFromPoints pnts) = [] \<and>
     (\<forall>tris. triangles (createGraphFromPoints pnts) = Some tris \<longrightarrow> tris = [])"
proof -
  have no_tri: "tris = []" if "triangles (createGraphFromPoints pnts) = Some tris" for tris
  proof (rule ccontr)
    assume "tris \<noteq> []"
    then obtain t where "t \<in> set tris" by (cases tris) auto
    from createGraphFromPoints_triangles[OF that this] assms show False by linarith
  qed
  have "edges (createGraphFromPoints pnts) = []"
  proof (rule ccontr)
    assume "edges (createGraphFromPoints pnts) \<noteq> []"
    then obtain e where "e \<in> set (edges (createGraphFromPoints pnts))"
      by (cases "edges (createGraphFromPoints pnts)") auto
    from createGraphFromPoints_edges[OF this] no_tri show False by auto
  qed
  with no_tri createGraphFromPoints_points show ?thesis by blast
qed

theorem no_edges_for_at_most_two_points_witness:
  "length [\<lparr>pt_x = 5, pt_y = 5\<rparr>, \<lparr>pt_x = 25, pt_y = 9\<rparr>] \<le> 2 \<and>
   points (createGraphFromPoints [\<lparr>pt_x = 5, pt_y = 5\<rparr>, \<lparr>pt_x = 25, pt_y = 9\<rparr>])
     = [\<lparr>pt_x = 5, pt_y = 5\<rparr>, \<lparr>pt_x = 25, pt_y = 9\<rparr>] \<and>
   edges (createGraphFromPoints [\<lparr>pt_x = 5, pt_y = 5\<rparr>, \<lparr>pt_x = 25, pt_y = 9\<rparr>]) = []"
proof -
  have l: "length [\<lparr>pt_x = 5, pt_y = 5\<rparr>, \<lparr>pt_x = 25, pt_y = 9::real\<rparr>] \<le> 2" by simp
  from no_edges_for_at_most_two_points[OF l] l show ?thesis by simp
qed

section \<open>The corridor router: atomic carving and thin corridors\<close>



text \<open>C1.  For every sequence of draws in \<open>[0, 1)\<close>, \<^verbatim>\<open>createDungeon\<close> returns a dungeon,
  and no \<open>2 \<times> 2\<close> window of its grid consists of corridor cells only; the same holds of the
  grid the router leaves for any list of edges between distinct placed rooms.  A candidate
  that is accepted never fills a window: a cell that turns into corridor has no corridor
  among its eight neighbours (the validation loop rejects the candidate otherwise), so a
  filled window would consist of four cells of the new path, and the path of a candidate,
  through one pivot column or row between exit cells at least four cells apart, contains
  no window.\<close>

theorem no_corridor_square_after_routing:
  assumes "\<forall>i. 0 \<le> rnd i \<and> rnd i < 1"
  shows "\<exists>cells rooms k d. placeRooms rnd = Inr (cells, rooms, k) \<and>
     createDungeon rnd = Some (Inr d) \<and> no_corridor_square (dungeon_cells d) \<and>
     (\<forall>es. edges_within (length rooms) es \<longrightarrow>
        (\<exists>cells'. carveAll cells rooms (roomCenters rooms) DUNGEON_SIZE_width DUNGEON_SIZE_height es
                     = Some (Inr cells') \<and> no_corridor_square cells'))"
proof -
  from createDungeon_total[OF assms] obtain cells rooms k d where
    p: "placeRooms rnd = Inr (cells, rooms, k)" and inv: "place_inv cells rooms"
    and d: "createDungeon rnd = Some (Inr d)" "no_corridor_square (dungeon_cells d)" by blast
  have "\<exists>cells'. carveAll cells rooms (roomCenters rooms) DUNGEON_SIZE_width DUNGEON_SIZE_height es
                     = Some (Inr cells') \<and> no_corridor_square cells'"
    if "edges_within (length rooms) es" for es
    using carveAll_no_square[OF place_inv_rooms_wf[OF inv] place_inv_grid(1)[OF inv]
        place_inv_route(1)[OF inv] that] by blast
  with p d show ?thesis by blast
qed

theorem no_corridor_square_after_routing_witness:
  "(\<forall>i. 0 \<le> draws_two_rooms i \<and> draws_two_rooms i < 1) \<and>
   (\<exists>d. createDungeon draws_two_rooms = Some (Inr d) \<and> no_corridor_square (dungeon_cells d))"
proof -
  have rnd: "\<forall>i. 0 \<le> draws_two_rooms i \<and> draws_two_rooms i < 1" by (simp add: draws_two_rooms_def)
  from no_corridor_square_after_routing[OF rnd] rnd show ?thesis by blast
qed

end
